(* ===== verification/Std_Collections.thy ===== *)
theory Std_Collections
  imports Prelude
begin

text \<open>
  The ordered collections of Rust's standard library that the sources use. A \<open>BTreeMap\<close> is the
  list of its entries in strictly increasing key order, which is the order \<open>keys()\<close>,
  \<open>iter()\<close> and \<open>range()\<close> yield them; a \<open>BTreeSet\<close> is a \<open>BTreeMap\<close> to unit, as in the
  standard library. The locale \<open>ordered_map\<close> is the interface the timestamped object relies on;
  its lemmas say what the first key, the last key and the last entry of a range are.
\<close>

section \<open>Operations\<close>

type_synonym ('k, 'v) btree_map = "('k \<times> 'v) list"
type_synonym 'k btree_set = "('k, unit) btree_map"

definition btree_inv :: "('k::linorder, 'v) btree_map \<Rightarrow> bool" where
  "btree_inv m \<longleftrightarrow> sorted_wrt (<) (map fst m)"

definition btree_get :: "('k::linorder, 'v) btree_map \<Rightarrow> 'k \<Rightarrow> 'v option" where
  "btree_get m k = map_of m k"

text \<open>\<open>entry(k).and_modify(f).or_insert(v)\<close>\<close>

fun btree_upsert :: "'k::linorder \<Rightarrow> ('v \<Rightarrow> 'v) \<Rightarrow> 'v \<Rightarrow> ('k, 'v) btree_map \<Rightarrow> ('k, 'v) btree_map" where
  "btree_upsert k f v [] = [(k, v)]"
| "btree_upsert k f v ((k', v') # m) =
     (if k' < k then (k', v') # btree_upsert k f v m
      else if k' = k then (k, f v') # m
      else (k, v) # (k', v') # m)"

definition btree_remove :: "'k::linorder \<Rightarrow> ('k, 'v) btree_map \<Rightarrow> ('k, 'v) btree_map" where
  "btree_remove k m = filter (\<lambda>e. fst e \<noteq> k) m"

definition btree_contains_key :: "('k::linorder, 'v) btree_map \<Rightarrow> 'k \<Rightarrow> bool" where
  "btree_contains_key m k = (btree_get m k \<noteq> None)"

text \<open>\<open>keys().next()\<close>, \<open>iter().next_back()\<close>\<close>

fun btree_first_key :: "('k::linorder, 'v) btree_map \<Rightarrow> 'k option" where
  "btree_first_key [] = None"
| "btree_first_key (e # _) = Some (fst e)"

definition btree_next_back :: "('k::linorder, 'v) btree_map \<Rightarrow> ('k \<times> 'v) option" where
  "btree_next_back m = (if m = [] then None else Some (last m))"

text \<open>\<open>range((Excluded(lo), Included(hi)))\<close>\<close>

definition btree_range :: "'k::linorder \<Rightarrow> 'k \<Rightarrow> ('k, 'v) btree_map \<Rightarrow> ('k, 'v) btree_map" where
  "btree_range lo hi m = filter (\<lambda>e. lo < fst e \<and> fst e \<le> hi) m"

definition btree_last_key :: "('k::linorder, 'v) btree_map \<Rightarrow> 'k option" where
  "btree_last_key m = map_option fst (btree_next_back m)"

definition btree_range_back :: "'k::linorder \<Rightarrow> 'k \<Rightarrow> ('k, 'v) btree_map \<Rightarrow> ('k \<times> 'v) option" where
  "btree_range_back lo hi m = btree_next_back (btree_range lo hi m)"

definition btree_keys :: "('k::linorder, 'v) btree_map \<Rightarrow> 'k set" where
  "btree_keys m = fst ` set m"

definition btset_insert :: "'k::linorder \<Rightarrow> 'k btree_set \<Rightarrow> 'k btree_set" where
  "btset_insert k s = btree_upsert k id () s"

section \<open>The interface\<close>

locale ordered_map =
  fixes minv :: "'m \<Rightarrow> bool"
    and get :: "'m \<Rightarrow> 'k::linorder \<Rightarrow> 'v option"
    and upsert :: "'k \<Rightarrow> ('v \<Rightarrow> 'v) \<Rightarrow> 'v \<Rightarrow> 'm \<Rightarrow> 'm"
    and remove :: "'k \<Rightarrow> 'm \<Rightarrow> 'm"
    and first_key :: "'m \<Rightarrow> 'k option"
    and range_back :: "'k \<Rightarrow> 'k \<Rightarrow> 'm \<Rightarrow> ('k \<times> 'v) option"
    and last_key :: "'m \<Rightarrow> 'k option"
  assumes upsert_inv: "minv m \<Longrightarrow> minv (upsert k f v m)"
    and remove_inv: "minv m \<Longrightarrow> minv (remove k m)"
    and get_upsert: "minv m \<Longrightarrow> get (upsert k f v m) =
          (get m)(k \<mapsto> (case get m k of None \<Rightarrow> v | Some v' \<Rightarrow> f v'))"
    and get_remove: "minv m \<Longrightarrow> get (remove k m) = (get m)(k := None)"
    and finite_dom: "finite (dom (get m))"
    and first_least: "minv m \<Longrightarrow> first_key m =
          (if dom (get m) = {} then None else Some (Min (dom (get m))))"
    and last_greatest: "minv m \<Longrightarrow> last_key m =
          (if dom (get m) = {} then None else Some (Max (dom (get m))))"
    and range_back_None: "minv m \<Longrightarrow> range_back lo hi m = None \<longleftrightarrow>
          (\<forall>k \<in> dom (get m). \<not> (lo < k \<and> k \<le> hi))"
    and range_back_Some: "minv m \<Longrightarrow> range_back lo hi m = Some (k, v) \<Longrightarrow>
          get m k = Some v \<and> lo < k \<and> k \<le> hi \<and>
          (\<forall>k' \<in> dom (get m). lo < k' \<and> k' \<le> hi \<longrightarrow> k' \<le> k)"
begin

lemma first_key_le:
  assumes "minv m" and "first_key m = Some k" and "get m k' = Some v"
  shows "k \<le> k'"
  using assms finite_dom[of m] by (auto simp: first_least split: if_splits intro: Min_le)

lemma first_key_in:
  assumes "minv m" and "first_key m = Some k"
  shows "k \<in> dom (get m)"
proof -
  from assms have "dom (get m) \<noteq> {}" and "k = Min (dom (get m))"
    by (auto simp: first_least split: if_splits)
  with finite_dom[of m] show ?thesis by (metis Min_in)
qed

lemma first_key_None: "minv m \<Longrightarrow> first_key m = None \<longleftrightarrow> dom (get m) = {}"
  by (simp add: first_least)

lemma last_key_ge:
  assumes "minv m" and "last_key m = Some k" and "k' \<in> dom (get m)"
  shows "k' \<le> k"
  using assms finite_dom[of m] by (auto simp: last_greatest split: if_splits intro: Max_ge)

lemma last_key_None: "minv m \<Longrightarrow> last_key m = None \<longleftrightarrow> dom (get m) = {}"
  by (simp add: last_greatest)

lemma range_back_self:
  assumes "minv m" and "get m hi = Some v" and "lo < hi"
  shows "range_back lo hi m = Some (hi, v)"
proof (cases "range_back lo hi m")
  case None
  with assms show ?thesis by (auto simp: range_back_None)
next
  case (Some e)
  obtain k w where e: "e = (k, w)" by (cases e)
  from range_back_Some[OF assms(1) Some[unfolded e]] assms have "k = hi" and "w = v"
    by (auto simp: antisym)
  with Some e show ?thesis by simp
qed

text \<open>Removing the first key makes every remaining key greater than it.\<close>

lemma remove_first_gt:
  assumes "minv m" and "first_key m = Some k" and "k' \<in> dom (get (remove k m))"
  shows "k < k'"
proof -
  from assms(1,3) have "k' \<in> dom (get m)" and "k' \<noteq> k"
    by (auto simp: get_remove split: if_splits)
  then have "k \<le> k'" using first_key_le[OF assms(1,2)] by auto
  with \<open>k' \<noteq> k\<close> show ?thesis by simp
qed

end

section \<open>Sorted association lists provide it\<close>

lemma btree_keys_Nil [simp]: "btree_keys [] = {}"
  by (simp add: btree_keys_def)

lemma btree_keys_Cons [simp]: "btree_keys (e # m) = insert (fst e) (btree_keys m)"
  by (simp add: btree_keys_def)

lemma btree_keys_empty_iff [simp]: "btree_keys m = {} \<longleftrightarrow> m = []"
  by (simp add: btree_keys_def)

lemma finite_btree_keys [simp]: "finite (btree_keys m)"
  by (simp add: btree_keys_def)

lemma btree_inv_Nil [simp]: "btree_inv []"
  by (simp add: btree_inv_def)

lemma btree_inv_Cons [simp]:
  "btree_inv (e # m) \<longleftrightarrow> btree_inv m \<and> (\<forall>k \<in> btree_keys m. fst e < k)"
  by (auto simp: btree_inv_def btree_keys_def)

lemma btree_keys_filter: "btree_keys (filter P m) \<subseteq> btree_keys m"
  by (auto simp: btree_keys_def)

lemma btree_inv_filter: "btree_inv m \<Longrightarrow> btree_inv (filter P m)"
  using btree_keys_filter[of P] by (induction m) auto

lemma btree_inv_distinct: "btree_inv m \<Longrightarrow> distinct (map fst m)"
  by (simp add: btree_inv_def sorted_wrt_less_distinct)

lemma btree_keys_upsert [simp]: "btree_keys (btree_upsert k f v m) = insert k (btree_keys m)"
proof (induction m)
  case (Cons e m)
  then show ?case by (cases e) (simp add: insert_commute)
qed simp

lemma dom_btree_get: "dom (btree_get m) = btree_keys m"
  unfolding btree_get_def btree_keys_def by (rule dom_map_of_conv_image_fst)

lemma btree_get_Some_iff: "btree_inv m \<Longrightarrow> btree_get m k = Some v \<longleftrightarrow> (k, v) \<in> set m"
  by (simp add: btree_get_def btree_inv_distinct)

lemma btree_upsert_inv: "btree_inv m \<Longrightarrow> btree_inv (btree_upsert k f v m)"
proof (induction m)
  case (Cons e m)
  then show ?case by (cases e) (auto simp del: btree_keys_upsert simp: btree_keys_upsert)
qed simp

lemma btree_get_upsert:
  "btree_inv m \<Longrightarrow> btree_get (btree_upsert k f v m) =
     (btree_get m)(k \<mapsto> (case btree_get m k of None \<Rightarrow> v | Some v' \<Rightarrow> f v'))"
proof (induction m)
  case (Cons e m)
  obtain k' v' where e: "e = (k', v')" by (cases e)
  have "map_of m k = None" if "k < k'"
    using Cons.prems e that by (force simp: map_of_eq_None_iff btree_keys_def)
  with Cons e show ?case by (auto simp: btree_get_def fun_eq_iff)
qed (simp add: btree_get_def fun_eq_iff)

lemma btree_get_remove: "btree_get (btree_remove k m) = (btree_get m)(k := None)"
  unfolding btree_get_def btree_remove_def by (induction m) (auto simp: fun_eq_iff)

lemma btree_first_least:
  "btree_inv m \<Longrightarrow> btree_first_key m =
     (if dom (btree_get m) = {} then None else Some (Min (dom (btree_get m))))"
proof (cases m)
  case (Cons e m')
  assume "btree_inv m"
  with Cons have "Min (btree_keys m) = fst e"
    by (intro Min_eqI) (auto intro: less_imp_le)
  with Cons show ?thesis by (simp add: dom_btree_get)
qed (simp add: dom_btree_get)

lemma btree_last_in: "m \<noteq> [] \<Longrightarrow> fst (last m) \<in> btree_keys m"
  by (simp add: btree_keys_def)

lemma btree_last_ge: "btree_inv m \<Longrightarrow> k \<in> btree_keys m \<Longrightarrow> k \<le> fst (last m)"
  by (induction m) (auto intro: less_imp_le btree_last_in)

lemma btree_last_greatest:
  "btree_inv m \<Longrightarrow> btree_last_key m =
     (if dom (btree_get m) = {} then None else Some (Max (dom (btree_get m))))"
proof (cases "m = []")
  case False
  assume "btree_inv m"
  with False have "Max (btree_keys m) = fst (last m)"
    by (intro Max_eqI) (auto intro: btree_last_ge btree_last_in)
  with False show ?thesis by (simp add: btree_last_key_def btree_next_back_def dom_btree_get)
qed (simp add: btree_last_key_def btree_next_back_def dom_btree_get)

lemma btree_range_back_None:
  "btree_range_back lo hi m = None \<longleftrightarrow> (\<forall>k \<in> dom (btree_get m). \<not> (lo < k \<and> k \<le> hi))"
  by (auto simp: btree_range_back_def btree_next_back_def btree_range_def dom_btree_get
      btree_keys_def filter_empty_conv)

lemma btree_range_back_Some:
  assumes "btree_inv m" and "btree_range_back lo hi m = Some (k, v)"
  shows "btree_get m k = Some v \<and> lo < k \<and> k \<le> hi \<and>
    (\<forall>k' \<in> dom (btree_get m). lo < k' \<and> k' \<le> hi \<longrightarrow> k' \<le> k)"
proof -
  let ?r = "btree_range lo hi m"
  from assms(2) have ne: "?r \<noteq> []" and last: "last ?r = (k, v)"
    by (auto simp: btree_range_back_def btree_next_back_def split: if_splits)
  then have "(k, v) \<in> set ?r" by (metis last_in_set)
  then have "(k, v) \<in> set m" "lo < k" "k \<le> hi" by (auto simp: btree_range_def)
  moreover have "k' \<le> k" if "k' \<in> btree_keys m" "lo < k'" "k' \<le> hi" for k'
  proof -
    from that have "k' \<in> btree_keys ?r" by (auto simp: btree_range_def btree_keys_def)
    moreover from assms(1) have "btree_inv ?r" by (simp add: btree_range_def btree_inv_filter)
    ultimately show ?thesis using btree_last_ge last by fastforce
  qed
  ultimately show ?thesis using assms(1) by (auto simp: dom_btree_get btree_get_Some_iff)
qed

interpretation bt: ordered_map btree_inv btree_get btree_upsert btree_remove
  btree_first_key btree_range_back btree_last_key
proof unfold_locales
  fix m :: "('a, 'b) btree_map"
  show "finite (dom (btree_get m))" by (simp add: dom_btree_get)
qed (auto simp: btree_remove_def btree_upsert_inv btree_inv_filter btree_get_upsert
    btree_first_least btree_last_greatest btree_range_back_None
    btree_get_remove[unfolded btree_remove_def] dest: btree_range_back_Some)

text \<open>Keys and contents after each operation, for the simplifier.\<close>

lemma btree_keys_remove [simp]: "btree_keys (btree_remove k m) = btree_keys m - {k}"
  by (auto simp: btree_remove_def btree_keys_def)

lemma btree_keys_btset_insert [simp]: "btree_keys (btset_insert k s) = insert k (btree_keys s)"
  by (simp add: btset_insert_def)

lemma btree_remove_inv: "btree_inv m \<Longrightarrow> btree_inv (btree_remove k m)"
  by (rule bt.remove_inv)

lemma btset_insert_inv: "btree_inv s \<Longrightarrow> btree_inv (btset_insert k s)"
  unfolding btset_insert_def by (rule bt.upsert_inv)

lemma btree_contains_key_iff: "btree_contains_key m k \<longleftrightarrow> k \<in> btree_keys m"
  by (simp add: btree_contains_key_def flip: dom_btree_get) (auto simp: dom_def)

lemma btree_get_None_iff: "btree_get m k = None \<longleftrightarrow> k \<notin> btree_keys m"
  by (simp add: btree_get_def btree_keys_def map_of_eq_None_iff)

lemma btree_get_key: "btree_get m k = Some v \<Longrightarrow> k \<in> btree_keys m"
  by (auto simp flip: dom_btree_get)

lemma btree_keysE:
  assumes "k \<in> btree_keys m"
  obtains v where "btree_get m k = Some v"
  using assms by (cases "btree_get m k") (auto simp: btree_get_None_iff)

lemma btree_remove_Nil_get: "btree_remove k m = [] \<Longrightarrow> k' \<noteq> k \<Longrightarrow> btree_get m k' = None"
  by (metis btree_keys_empty_iff btree_keys_remove btree_get_None_iff DiffI empty_iff singletonD)

lemma btree_remove_absent: "k \<notin> btree_keys m \<Longrightarrow> btree_remove k m = m"
  by (induction m) (auto simp: btree_remove_def)

lemma btree_remove_upsert [simp]: "btree_remove k (btree_upsert k f v m) = btree_remove k m"
proof (induction m)
  case (Cons e m)
  then show ?case by (cases e) (auto simp: btree_remove_def)
qed (simp add: btree_remove_def)

lemma btree_remove_btset_insert [simp]: "btree_remove k (btset_insert k s) = btree_remove k s"
  by (simp add: btset_insert_def)

lemmas btree_lems [btree_simps] =
  btree_upsert_inv btree_remove_inv btset_insert_inv btree_contains_key_iff btree_get_None_iff

end
