(* ===== verification/Transaction_Id.thy ===== *)
theory Transaction_Id
  imports Prelude
begin

text \<open>
  Transaction identifiers and their generator (tx-server/src/sharding/transaction_id.rs). An
  identifier is a nanosecond timestamp with the coordinator's node id as the tie-breaker; the
  derived \<open>Ord\<close> is lexicographic in field order, which is the \<open>linorder\<close> instance below. The
  system clock is an argument of \<open>next_id\<close>.
\<close>

section \<open>Identifiers\<close>

text \<open>
  \<open>NodeId\<close> is a Rust \<open>char\<close>. Both places that make one (the server's command line and the
  configuration file) accept one-byte names only, so node ids are ASCII characters here.
\<close>

type_synonym NodeId = char

datatype ClockTransactionId = ClockTransactionId (ts: u128) (coordinator: NodeId)

type_synonym TransactionId = ClockTransactionId

definition is_default :: "TransactionId \<Rightarrow> bool" where
  "is_default i \<longleftrightarrow> ts i = 0"

definition default_id :: "NodeId \<Rightarrow> TransactionId" where
  "default_id c = ClockTransactionId 0 c"

instantiation ClockTransactionId :: linorder
begin

definition less_eq_ClockTransactionId :: "ClockTransactionId \<Rightarrow> ClockTransactionId \<Rightarrow> bool" where
  "less_eq_ClockTransactionId a b \<longleftrightarrow> ts a < ts b \<or> ts a = ts b \<and> coordinator a \<le> coordinator b"

definition less_ClockTransactionId :: "ClockTransactionId \<Rightarrow> ClockTransactionId \<Rightarrow> bool" where
  "less_ClockTransactionId a b \<longleftrightarrow> ts a < ts b \<or> ts a = ts b \<and> coordinator a < coordinator b"

instance
proof
  fix a b c :: ClockTransactionId
  show "a < b \<longleftrightarrow> a \<le> b \<and> \<not> b \<le> a"
    by (auto simp: less_eq_ClockTransactionId_def less_ClockTransactionId_def)
  show "a \<le> a" by (simp add: less_eq_ClockTransactionId_def)
  show "a \<le> b \<Longrightarrow> b \<le> c \<Longrightarrow> a \<le> c" by (auto simp: less_eq_ClockTransactionId_def)
  show "a \<le> b \<Longrightarrow> b \<le> a \<Longrightarrow> a = b"
    by (auto simp: less_eq_ClockTransactionId_def ClockTransactionId.expand)
  show "a \<le> b \<or> b \<le> a" by (auto simp: less_eq_ClockTransactionId_def)
qed

end

lemmas txid_order = less_ClockTransactionId_def less_eq_ClockTransactionId_def

lemma less_txid_simp [simp]:
  "ClockTransactionId a c < ClockTransactionId b d \<longleftrightarrow> a < b \<or> a = b \<and> c < d"
  by (simp add: less_ClockTransactionId_def)

lemma less_eq_txid_simp [simp]:
  "ClockTransactionId a c \<le> ClockTransactionId b d \<longleftrightarrow> a < b \<or> a = b \<and> c \<le> d"
  by (simp add: less_eq_ClockTransactionId_def)

lemma is_default_default_id [simp]: "is_default (default_id c)"
  by (simp add: is_default_def default_id_def)

text \<open>An identifier with a non-zero timestamp is newer than every default identifier.\<close>

lemma default_id_less: "\<not> is_default i \<Longrightarrow> default_id c < i"
  by (simp add: is_default_def default_id_def less_ClockTransactionId_def word_neq_0_conv)

lemma not_default_mono: "c < t \<Longrightarrow> \<not> is_default c \<Longrightarrow> \<not> is_default t"
  by (auto simp: is_default_def txid_order)

section \<open>The generator\<close>

record ClockTransactionIdGenerator =
  node_id :: NodeId
  last_systime :: u128
  last_count :: usize

type_synonym TransactionIdGenerator = ClockTransactionIdGenerator

definition new_generator :: "NodeId \<Rightarrow> TransactionIdGenerator" where
  "new_generator n = \<lparr>node_id = n, last_systime = 0, last_count = 0\<rparr>"

definition next_id :: "u128 \<Rightarrow> TransactionIdGenerator \<Rightarrow> TransactionId \<times> TransactionIdGenerator" where
  "next_id now g =
     (if now \<le> last_systime g then
        let g' = g\<lparr>last_count := last_count g + 1\<rparr>
        in (ClockTransactionId (last_systime g' + ucast (last_count g')) (node_id g'), g')
      else
        let g' = g\<lparr>last_count := 0, last_systime := now\<rparr>
        in (ClockTransactionId now (node_id g'), g'))"

text \<open>Repeated calls, one for each reading of the clock.\<close>

fun next_ids :: "u128 list \<Rightarrow> TransactionIdGenerator \<Rightarrow> TransactionId list" where
  "next_ids [] g = []"
| "next_ids (now # nows) g = (let (i, g') = next_id now g in i # next_ids nows g')"

text \<open>
  What the generator has handed out last, read off its fields, and the two bounds under which its
  counters do not wrap.
\<close>

definition last_issued :: "TransactionIdGenerator \<Rightarrow> TransactionId" where
  "last_issued g = ClockTransactionId (last_systime g + ucast (last_count g)) (node_id g)"

definition no_wrap :: "TransactionIdGenerator \<Rightarrow> bool" where
  "no_wrap g \<longleftrightarrow> unat (last_count g) + 1 < 2 ^ 64 \<and>
     unat (last_systime g) + unat (last_count g) + 1 < 2 ^ 128"

text \<open>The clock readings the generator mishandles: past the last reading, not past the last id.\<close>

definition in_stale_window :: "u128 \<Rightarrow> TransactionIdGenerator \<Rightarrow> bool" where
  "in_stale_window now g \<longleftrightarrow>
     last_systime g < now \<and> now \<le> last_systime g + ucast (last_count g)"

lemma next_id_last_issued: "next_id now g = (i, g') \<Longrightarrow> last_issued g' = i"
  by (auto simp: next_id_def last_issued_def Let_def split: if_splits)

lemma next_id_node [simp]: "node_id (snd (next_id now g)) = node_id g"
  by (simp add: next_id_def Let_def)

lemma next_id_coordinator [simp]: "coordinator (fst (next_id now g)) = node_id g"
  by (simp add: next_id_def Let_def)


lemma unat_ucast_count [simp]: "unat (ucast (c :: usize) :: u128) = unat c"
  using unsigned_less[of c, where 'a = nat] by (simp add: unsigned_ucast_eq take_bit_nat_eq_self_iff)

lemma unat_last_issued:
  assumes "no_wrap g"
  shows "unat (ts (last_issued g)) = unat (last_systime g) + unat (last_count g)"
  using assms by (simp add: last_issued_def no_wrap_def unat_word_ariths)

lemma unat_bumped:
  assumes "no_wrap g"
  shows "unat (last_systime g + ucast (last_count g + 1)) =
    unat (last_systime g) + unat (last_count g) + 1"
proof -
  from assms have "unat (last_count g + 1) = unat (last_count g) + 1"
    by (simp add: no_wrap_def unat_word_ariths)
  with assms show ?thesis by (simp add: no_wrap_def unat_word_ariths)
qed

section \<open>What the identifiers guarantee\<close>

lemma next_id_stalled:
  "now \<le> last_systime g \<Longrightarrow> next_id now g =
     (ClockTransactionId (last_systime g + ucast (last_count g + 1)) (node_id g),
      g\<lparr>last_count := last_count g + 1\<rparr>)"
  by (simp add: next_id_def Let_def)

lemma next_id_advanced:
  "last_systime g < now \<Longrightarrow> next_id now g =
     (ClockTransactionId now (node_id g), g\<lparr>last_count := 0, last_systime := now\<rparr>)"
  by (auto simp: next_id_def Let_def)

text \<open>
  C25. A call of \<open>next\<close> returns an identifier above the one it returned last exactly when the
  clock reading is not in the window between the last clock reading and the last identifier
  (the counters not being at their limits).
\<close>

theorem next_id_increases_iff:
  assumes "no_wrap g"
  shows "last_issued g < fst (next_id now g) \<longleftrightarrow> \<not> in_stale_window now g"
proof (cases "now \<le> last_systime g")
  case True
  with assms have "last_issued g < fst (next_id now g)"
    using unat_last_issued[OF assms] unat_bumped[OF assms]
    by (simp add: next_id_stalled less_ClockTransactionId_def word_less_nat_alt)
  with True show ?thesis by (auto simp: in_stale_window_def)
next
  case False
  then show ?thesis
    by (auto simp: next_id_advanced in_stale_window_def last_issued_def)
qed

theorem next_id_increases_iff_witness:
  "last_issued \<lparr>node_id = CHR ''A'', last_systime = 100, last_count = 1\<rparr>
     < fst (next_id 102 \<lparr>node_id = CHR ''A'', last_systime = 100, last_count = 1\<rparr>)"
  by (subst next_id_increases_iff) (simp_all add: no_wrap_def in_stale_window_def)

lemma next_ids_advancing:
  assumes "sorted_wrt (<) (last_systime g # nows)"
  shows "next_ids nows g = map (\<lambda>t. ClockTransactionId t (node_id g)) nows"
  using assms
proof (induction nows arbitrary: g)
  case (Cons now nows)
  then show ?case by (simp add: next_id_advanced)
qed simp

text \<open>
  As long as the clock advances between calls, the identifiers of a node are the clock
  readings in order, so they are strictly increasing.
\<close>

theorem next_ids_increasing:
  assumes "sorted_wrt (<) (0 # nows)"
  shows "sorted_wrt (<) (next_ids nows (new_generator n))"
proof -
  from assms have "next_ids nows (new_generator n) = map (\<lambda>t. ClockTransactionId t n) nows"
    by (subst next_ids_advancing) (auto simp: new_generator_def)
  with assms show ?thesis by (simp add: sorted_wrt_map)
qed

theorem next_ids_increasing_witness:
  "sorted_wrt (<) (next_ids [5, 7, 12] (new_generator CHR ''B''))"
  by (rule next_ids_increasing) simp

text \<open>
  With a clock that never goes back but ticks slower than the requests arrive, a node hands
  out the same identifier twice: on the readings 100, 100, 101 the second and the third
  identifier are both 101.
\<close>

theorem next_ids_duplicate:
  "\<exists>nows. sorted nows \<and> \<not> distinct (next_ids nows (new_generator n))"
proof (intro exI conjI)
  show "sorted [100, 100, 101 :: u128]" by simp
  show "\<not> distinct (next_ids [100, 100, 101] (new_generator n))"
    by (simp add: next_id_def new_generator_def Let_def)
qed

lemma next_ids_coordinator: "i \<in> set (next_ids nows g) \<Longrightarrow> coordinator i = node_id g"
proof (induction nows arbitrary: g)
  case (Cons now nows)
  obtain j g' where n: "next_id now g = (j, g')" by (cases "next_id now g")
  with next_id_node[of now g] next_id_coordinator[of now g]
  have "node_id g' = node_id g" and "coordinator j = node_id g" by simp_all
  with Cons n show ?case by auto
qed simp

text \<open>Two coordinators never issue the same identifier, whatever their clocks read.\<close>

theorem next_ids_disjoint:
  assumes "node_id g \<noteq> node_id g'"
  shows "set (next_ids nows g) \<inter> set (next_ids nows' g') = {}"
proof (rule Int_emptyI)
  fix i
  assume "i \<in> set (next_ids nows g)" and "i \<in> set (next_ids nows' g')"
  then show False using assms next_ids_coordinator by metis
qed

theorem next_ids_disjoint_witness:
  "set (next_ids [9, 9] (new_generator CHR ''A'')) \<inter> set (next_ids [9, 9] (new_generator CHR ''B'')) = {}"
  by (rule next_ids_disjoint) (simp add: new_generator_def)

end
