(* ===== verification/Object.thy ===== *)
theory Object
  imports Std_Collections Transaction_Id
begin

text \<open>
  The timestamped object (tx-server/src/sharding/object.rs): a committed value with its timestamp,
  the set of read timestamps and the map of tentative writes, with the timestamp-ordering rules
  for reading, writing, checking, committing and aborting. The value type is a parameter, as in
  the source; its \<open>Checkable::check\<close> and \<open>Default::default\<close> are the arguments \<open>chk\<close> and
  \<open>dflt\<close>.
\<close>

section \<open>State and results\<close>

record 'v TentativeWrite =
  tw_value :: 'v

definition TentativeWrite_new :: "'v \<Rightarrow> 'v TentativeWrite" where
  "TentativeWrite_new v = \<lparr>tw_value = v\<rparr>"

definition TentativeWrite_update :: "'v \<Rightarrow> 'v TentativeWrite \<Rightarrow> 'v TentativeWrite" where
  "TentativeWrite_update v tw = tw\<lparr>tw_value := v\<rparr>"

record 'v TimestampedObject =
  obj_value :: 'v
  committed_timestamp :: TransactionId
  read_timestamps :: "TransactionId btree_set"
  tentative_writes :: "(TransactionId, 'v TentativeWrite) btree_map"

datatype RWFailure = WaitFor TransactionId | AbortedNotFound | Abort

datatype 'e CommitFailure = WaitFor TransactionId | ConsistencyCheckFailed 'e

datatype 'a CommitSuccess = ValueChanged 'a | NoChange 'a

datatype 'a CheckCommitSuccess = CommitValue 'a | NothingToCommit

section \<open>Operations\<close>

definition object_default :: "'v \<Rightarrow> NodeId \<Rightarrow> 'v TimestampedObject" where
  "object_default dflt owner_id =
     \<lparr>obj_value = dflt, committed_timestamp = default_id owner_id,
      read_timestamps = [], tentative_writes = []\<rparr>"

definition object_read ::
  "TransactionId \<Rightarrow> 'v TimestampedObject \<Rightarrow> ('v, RWFailure) result \<times> 'v TimestampedObject" where
  "object_read tid ob =
     (if tid > committed_timestamp ob then
        (case btree_range_back (committed_timestamp ob) tid (tentative_writes ob) of
           None \<Rightarrow>
             if is_default (committed_timestamp ob) then (Err AbortedNotFound, ob)
             else (Ok (obj_value ob),
                   ob\<lparr>read_timestamps := btset_insert tid (read_timestamps ob)\<rparr>)
         | Some (wts, tw) \<Rightarrow>
             if wts = tid then
               (Ok (tw_value tw), ob\<lparr>read_timestamps := btset_insert tid (read_timestamps ob)\<rparr>)
             else (Err (RWFailure.WaitFor wts), ob))
      else (Err Abort, ob))"

definition object_write ::
  "TransactionId \<Rightarrow> 'v \<Rightarrow> 'v TimestampedObject \<Rightarrow> (unit, RWFailure) result \<times> 'v TimestampedObject" where
  "object_write tid v ob =
     (let is_after_mrt = (case btree_last_key (read_timestamps ob) of
                            None \<Rightarrow> True | Some mrt \<Rightarrow> tid \<ge> mrt)
      in if is_after_mrt \<and> tid > committed_timestamp ob then
           (Ok (), ob\<lparr>tentative_writes := btree_upsert tid (TentativeWrite_update v)
                        (TentativeWrite_new v) (tentative_writes ob)\<rparr>)
         else (Err Abort, ob))"

text \<open>
  The branch \<open>unreachable!()\<close> (no first key although the key of the transaction is present) is
  \<open>None\<close>, as is a failed \<open>unwrap\<close>: a panic.
\<close>

definition object_check_commit ::
  "('v \<Rightarrow> (unit, 'e) result) \<Rightarrow> TransactionId \<Rightarrow> 'v TimestampedObject \<Rightarrow>
     (unit CheckCommitSuccess, 'e CommitFailure) result option" where
  "object_check_commit chk tid ob =
     (if \<not> btree_contains_key (tentative_writes ob) tid then Some (Ok NothingToCommit)
      else case btree_first_key (tentative_writes ob) of
        Some first \<Rightarrow>
          if tid = first then
            (case btree_get (tentative_writes ob) tid of
               Some tw \<Rightarrow> Some (map_err ConsistencyCheckFailed (map_ok CommitValue (chk (tw_value tw))))
             | None \<Rightarrow> None)
          else Some (Err (CommitFailure.WaitFor first))
      | None \<Rightarrow> None)"

definition object_commit ::
  "('v \<Rightarrow> (unit, 'e) result) \<Rightarrow> TransactionId \<Rightarrow> 'v TimestampedObject \<Rightarrow>
     (('v CommitSuccess, 'e CommitFailure) result \<times> 'v TimestampedObject) option" where
  "object_commit chk tid ob =
     (case object_check_commit chk tid ob of
        None \<Rightarrow> None
      | Some (Err e) \<Rightarrow> Some (Err e, ob)
      | Some (Ok (CommitValue _)) \<Rightarrow>
          (case btree_get (tentative_writes ob) tid of
             None \<Rightarrow> None
           | Some tw \<Rightarrow>
               let ob' = ob\<lparr>tentative_writes := btree_remove tid (tentative_writes ob),
                            committed_timestamp := tid, obj_value := tw_value tw\<rparr>
               in Some (Ok (ValueChanged (obj_value ob')), ob'))
      | Some (Ok NothingToCommit) \<Rightarrow> Some (Ok (NoChange (obj_value ob)), ob))"

definition object_can_reap :: "TransactionId \<Rightarrow> 'v TimestampedObject \<Rightarrow> bool" where
  "object_can_reap aborting_id ob =
     (let only_violation = (length (tentative_writes ob) = 1 \<and>
                            btree_contains_key (tentative_writes ob) aborting_id)
      in is_default (committed_timestamp ob) \<and> (tentative_writes ob = [] \<or> only_violation))"

definition object_abort :: "TransactionId \<Rightarrow> 'v TimestampedObject \<Rightarrow> 'v TimestampedObject" where
  "object_abort tid ob =
     ob\<lparr>tentative_writes := btree_remove tid (tentative_writes ob),
        read_timestamps := btree_remove tid (read_timestamps ob)\<rparr>"

section \<open>The invariant of an object\<close>

text \<open>
  The two trees are ordered, every tentative write is newer than the committed version, and the
  committed value passes the consistency check.
\<close>

definition object_inv :: "('v \<Rightarrow> (unit, 'e) result) \<Rightarrow> 'v TimestampedObject \<Rightarrow> bool" where
  "object_inv chk ob \<longleftrightarrow>
     btree_inv (tentative_writes ob) \<and> btree_inv (read_timestamps ob) \<and>
     (\<forall>k \<in> btree_keys (tentative_writes ob). committed_timestamp ob < k) \<and>
     chk (obj_value ob) = Ok ()"

lemma object_invD:
  assumes "object_inv chk ob"
  shows "btree_inv (tentative_writes ob)" and "btree_inv (read_timestamps ob)"
    and "k \<in> btree_keys (tentative_writes ob) \<Longrightarrow> committed_timestamp ob < k"
    and "chk (obj_value ob) = Ok ()"
  using assms by (auto simp: object_inv_def)


lemma object_default_simps [simp]:
  "obj_value (object_default dflt c) = dflt"
  "committed_timestamp (object_default dflt c) = default_id c"
  "read_timestamps (object_default dflt c) = []"
  "tentative_writes (object_default dflt c) = []"
  by (simp_all add: object_default_def)

lemma object_default_inv: "chk dflt = Ok () \<Longrightarrow> object_inv chk (object_default dflt c)"
  by (simp add: object_inv_def)

lemma object_read_inv [inv_intros]:
  "object_inv chk ob \<Longrightarrow> object_inv chk (snd (object_read tid ob))"
  by (auto simp: object_inv_def object_read_def btset_insert_inv split: option.splits)

lemma object_write_inv [inv_intros]:
  "object_inv chk ob \<Longrightarrow> object_inv chk (snd (object_write tid v ob))"
  by (auto simp: object_inv_def object_write_def Let_def btree_upsert_inv)

lemma object_abort_inv [inv_intros]:
  "object_inv chk ob \<Longrightarrow> object_inv chk (object_abort tid ob)"
  by (auto simp: object_inv_def object_abort_def btree_remove_inv)

section \<open>Checking and committing, case by case\<close>

text \<open>No branch of the check panics: the \<open>unreachable!\<close> and the \<open>unwrap\<close> are never reached.\<close>

lemma object_check_commit_cases:
  obtains (nothing) "tid \<notin> btree_keys (tentative_writes ob)"
      "object_check_commit chk tid ob = Some (Ok NothingToCommit)"
  | (first) tw where "btree_first_key (tentative_writes ob) = Some tid"
      "btree_get (tentative_writes ob) tid = Some tw"
      "object_check_commit chk tid ob =
         Some (map_err ConsistencyCheckFailed (map_ok CommitValue (chk (tw_value tw))))"
  | (wait) t where "btree_first_key (tentative_writes ob) = Some t" "t \<noteq> tid"
      "tid \<in> btree_keys (tentative_writes ob)"
      "object_check_commit chk tid ob = Some (Err (CommitFailure.WaitFor t))"
proof (cases "tid \<in> btree_keys (tentative_writes ob)")
  case True
  then obtain t where t: "btree_first_key (tentative_writes ob) = Some t"
    by (cases "tentative_writes ob") auto
  from True obtain tw where tw: "btree_get (tentative_writes ob) tid = Some tw"
    by (rule btree_keysE)
  show thesis
  proof (cases "t = tid")
    case eq: True
    show thesis
      by (rule first[OF t[unfolded eq] tw])
        (use True t tw eq in \<open>simp add: object_check_commit_def btree_contains_key_iff\<close>)
  next
    case False
    with True t show thesis
      by (intro wait) (auto simp: object_check_commit_def btree_contains_key_iff)
  qed
next
  case False
  show thesis
    by (rule nothing)
      (use False in \<open>simp_all add: object_check_commit_def btree_contains_key_iff\<close>)
qed

lemma object_commit_cases:
  obtains (nothing) "tid \<notin> btree_keys (tentative_writes ob)"
      "object_commit chk tid ob = Some (Ok (NoChange (obj_value ob)), ob)"
  | (commit) tw where "btree_first_key (tentative_writes ob) = Some tid"
      "btree_get (tentative_writes ob) tid = Some tw" "chk (tw_value tw) = Ok ()"
      "object_commit chk tid ob = Some (Ok (ValueChanged (tw_value tw)),
         ob\<lparr>tentative_writes := btree_remove tid (tentative_writes ob),
            committed_timestamp := tid, obj_value := tw_value tw\<rparr>)"
  | (failed) tw e where "btree_first_key (tentative_writes ob) = Some tid"
      "btree_get (tentative_writes ob) tid = Some tw" "chk (tw_value tw) = Err e"
      "object_commit chk tid ob = Some (Err (ConsistencyCheckFailed e), ob)"
  | (wait) t where "btree_first_key (tentative_writes ob) = Some t" "t \<noteq> tid"
      "tid \<in> btree_keys (tentative_writes ob)"
      "object_commit chk tid ob = Some (Err (CommitFailure.WaitFor t), ob)"
proof (rule object_check_commit_cases[of tid ob chk])
  fix tw
  assume f: "btree_first_key (tentative_writes ob) = Some tid"
    and g: "btree_get (tentative_writes ob) tid = Some tw"
    and c: "object_check_commit chk tid ob =
      Some (map_err ConsistencyCheckFailed (map_ok CommitValue (chk (tw_value tw))))"
  show thesis
  proof (cases "chk (tw_value tw)")
    case (Ok u)
    with f g c show thesis by (intro commit) (auto simp: object_commit_def Let_def)
  next
    case (Err e)
    with f g c show thesis by (intro failed) (auto simp: object_commit_def)
  qed
qed (auto simp: object_commit_def intro: nothing wait)

lemma object_commit_inv:
  assumes "object_inv chk ob" and "object_commit chk tid ob = Some (r, ob')"
  shows "object_inv chk ob'"
proof (rule object_commit_cases[of tid ob chk])
  fix tw
  assume f: "btree_first_key (tentative_writes ob) = Some tid"
    and ok: "chk (tw_value tw) = Ok ()"
    and c: "object_commit chk tid ob = Some (Ok (ValueChanged (tw_value tw)),
         ob\<lparr>tentative_writes := btree_remove tid (tentative_writes ob),
            committed_timestamp := tid, obj_value := tw_value tw\<rparr>)"
  note inv = object_invD[OF assms(1)]
  have "tid < k" if "k \<in> btree_keys (btree_remove tid (tentative_writes ob))" for k
    using bt.remove_first_gt[OF inv(1) f] that by (simp add: dom_btree_get)
  with c ok inv assms(2) show ?thesis
    by (auto simp: object_inv_def btree_remove_inv simp del: btree_keys_remove)
qed (use assms in auto)


section \<open>Reading and writing, case by case\<close>

lemma object_read_cases:
  assumes "object_inv chk ob"
  obtains (late) "tid \<le> committed_timestamp ob" "object_read tid ob = (Err Abort, ob)"
  | (own) tw where "committed_timestamp ob < tid" "btree_get (tentative_writes ob) tid = Some tw"
      "object_read tid ob =
         (Ok (tw_value tw), ob\<lparr>read_timestamps := btset_insert tid (read_timestamps ob)\<rparr>)"
  | (wait) t where "committed_timestamp ob < tid" "tid \<notin> btree_keys (tentative_writes ob)"
      "t < tid" "t \<in> btree_keys (tentative_writes ob)"
      "\<forall>k \<in> btree_keys (tentative_writes ob). k < tid \<longrightarrow> k \<le> t"
      "object_read tid ob = (Err (RWFailure.WaitFor t), ob)"
  | (missing) "committed_timestamp ob < tid" "\<forall>k \<in> btree_keys (tentative_writes ob). tid < k"
      "is_default (committed_timestamp ob)" "object_read tid ob = (Err AbortedNotFound, ob)"
  | (committed) "committed_timestamp ob < tid" "\<forall>k \<in> btree_keys (tentative_writes ob). tid < k"
      "\<not> is_default (committed_timestamp ob)"
      "object_read tid ob =
         (Ok (obj_value ob), ob\<lparr>read_timestamps := btset_insert tid (read_timestamps ob)\<rparr>)"
proof (cases "committed_timestamp ob < tid")
  case False
  show thesis by (rule late) (use False in \<open>auto simp: object_read_def\<close>)
next
  case lt: True
  note inv = object_invD[OF assms]
  let ?r = "btree_range_back (committed_timestamp ob) tid (tentative_writes ob)"
  show thesis
  proof (cases ?r)
    case None
    then have "\<forall>k \<in> btree_keys (tentative_writes ob). tid < k"
      using inv(1,3) by (auto simp: bt.range_back_None dom_btree_get not_le)
    with None lt show thesis
      by (cases "is_default (committed_timestamp ob)")
        (auto simp: object_read_def intro: missing committed)
  next
    case (Some e)
    obtain t tw where e: "e = (t, tw)" by (cases e)
    note r = bt.range_back_Some[OF inv(1) Some[unfolded e]]
    from r have t: "t \<in> btree_keys (tentative_writes ob)" by (auto simp flip: dom_btree_get)
    show thesis
    proof (cases "t = tid")
      case True
      show thesis by (rule own[OF lt, of tw]) (use r True Some e lt in \<open>auto simp: object_read_def\<close>)
    next
      case False
      have "tid \<notin> btree_keys (tentative_writes ob)"
        using r False lt by (auto simp: dom_btree_get)
      moreover have "\<forall>k \<in> btree_keys (tentative_writes ob). k < tid \<longrightarrow> k \<le> t"
        using r inv(3) by (auto simp: dom_btree_get)
      ultimately show thesis
        using r t False Some e lt by (intro wait[of t]) (auto simp: object_read_def)
    qed
  qed
qed

lemma object_write_cases:
  assumes "object_inv chk ob"
  obtains (late) "tid \<le> committed_timestamp ob \<or> (\<exists>r \<in> btree_keys (read_timestamps ob). tid < r)"
      "object_write tid v ob = (Err Abort, ob)"
  | (written) "committed_timestamp ob < tid" "\<forall>r \<in> btree_keys (read_timestamps ob). r \<le> tid"
      "object_write tid v ob = (Ok (), ob\<lparr>tentative_writes :=
         btree_upsert tid (TentativeWrite_update v) (TentativeWrite_new v) (tentative_writes ob)\<rparr>)"
proof -
  note inv = object_invD[OF assms]
  have mrt: "(case btree_last_key (read_timestamps ob) of None \<Rightarrow> True | Some mrt \<Rightarrow> mrt \<le> tid)
      \<longleftrightarrow> (\<forall>r \<in> btree_keys (read_timestamps ob). r \<le> tid)"
    using bt.last_key_ge[OF inv(2)] inv(2)
    by (auto simp: bt.last_greatest dom_btree_get split: option.splits if_splits)
  show thesis
  proof (cases "committed_timestamp ob < tid \<and> (\<forall>r \<in> btree_keys (read_timestamps ob). r \<le> tid)")
    case True
    with mrt show thesis by (intro written) (auto simp: object_write_def Let_def)
  next
    case False
    with mrt show thesis by (intro late) (auto simp: object_write_def Let_def not_le not_less)
  qed
qed

text \<open>What a successful write leaves for its transaction to read back.\<close>

lemma object_write_get:
  assumes "object_inv chk ob" and "object_write tid v ob = (Ok (), ob')"
  shows "btree_get (tentative_writes ob') = (btree_get (tentative_writes ob))(tid \<mapsto> \<lparr>tw_value = v\<rparr>)"
  using object_invD(1)[OF assms(1)] assms(2)
  by (rule_tac object_write_cases[OF assms(1), of tid v])
    (auto simp: bt.get_upsert TentativeWrite_update_def TentativeWrite_new_def fun_eq_iff
      split: option.splits)

end
