(* ===== verification/Common.thy ===== *)
theory Common
  imports Transaction_Id
begin

text \<open>
  The vocabulary shared by client and server (tx-common/src/lib.rs) and the consistency check of
  account balances (tx-server/src/lib.rs): requests, responses, their classification and printed
  form, and the \<open>Checkable\<close> instance of the amount type.
\<close>

section \<open>Amounts and their consistency check\<close>

type_synonym Amount = i64
type_synonym AccountId = string

datatype BalanceDiff = BalanceDiff (diff_amount: Amount)

datatype NegativeBalance = NegativeBalance Amount

definition check_amount :: "Amount \<Rightarrow> (unit, NegativeBalance) result" where
  "check_amount a = (if sint a \<ge> 0 then Ok () else Err (NegativeBalance a))"

lemma check_amount_zero [simp]: "check_amount 0 = Ok ()"
  by (simp add: check_amount_def)

lemma check_amount_Ok_iff: "check_amount a = Ok u \<longleftrightarrow> 0 \<le> sint a"
  by (simp add: check_amount_def)

section \<open>Requests and responses\<close>

datatype ClientRequest = WriteBalance AccountId BalanceDiff | ReadBalance AccountId | Commit | Abort

datatype ClientResponse = OkResponse | CommitOk | Aborted | AbortedNotFound | Value AccountId Amount

fun response_is_err :: "ClientResponse \<Rightarrow> bool" where
  "response_is_err Aborted = True"
| "response_is_err AbortedNotFound = True"
| "response_is_err _ = False"

fun response_is_ok :: "ClientResponse \<Rightarrow> bool" where
  "response_is_ok Aborted = False"
| "response_is_ok AbortedNotFound = False"
| "response_is_ok _ = True"

fun response_is_final :: "ClientResponse \<Rightarrow> bool" where
  "response_is_final CommitOk = True"
| "response_is_final Aborted = True"
| "response_is_final AbortedNotFound = True"
| "response_is_final _ = False"

section \<open>Printing\<close>

text \<open>\<open>Display\<close> of an unsigned number and of an \<open>i64\<close>: decimal digits, a minus sign when negative.\<close>

definition digit_char :: "nat \<Rightarrow> char" where
  "digit_char d = char_of (48 + d)"

fun show_nat :: "nat \<Rightarrow> string" where
  "show_nat n = (if n < 10 then [digit_char n] else show_nat (n div 10) @ [digit_char (n mod 10)])"

declare show_nat.simps [simp del]

lemma digit_char_eval:
  "digit_char 0 = CHR ''0''" "digit_char 1 = CHR ''1''" "digit_char 2 = CHR ''2''"
  "digit_char 3 = CHR ''3''" "digit_char 4 = CHR ''4''" "digit_char 5 = CHR ''5''"
  "digit_char 6 = CHR ''6''" "digit_char 7 = CHR ''7''" "digit_char 8 = CHR ''8''"
  "digit_char 9 = CHR ''9''" "digit_char (Suc 0) = CHR ''1''"
  by (simp_all add: digit_char_def char_of_def bit_iff_odd)

definition show_amount :: "Amount \<Rightarrow> string" where
  "show_amount a = (if sint a < 0 then CHR ''-'' # show_nat (nat (- sint a)) else show_nat (nat (sint a)))"

text \<open>The printed form of a transaction id.\<close>

definition format_transaction_id :: "TransactionId \<Rightarrow> string" where
  "format_transaction_id i = ''ID('' @ show_nat (unat (ts i)) @ '', '' @ [coordinator i] @ '')''"

fun format_response :: "ClientResponse \<Rightarrow> string" where
  "format_response OkResponse = ''OK''"
| "format_response (Value account_id balance) = account_id @ '' = '' @ show_amount balance"
| "format_response CommitOk = ''COMMIT OK''"
| "format_response Aborted = ''ABORTED''"
| "format_response AbortedNotFound = ''NOT FOUND, ABORTED''"

lemma response_is_ok_iff: "response_is_ok r \<longleftrightarrow> \<not> response_is_err r"
  by (cases r) auto

lemma response_err_final: "response_is_err r \<Longrightarrow> response_is_final r"
  by (cases r) auto

end
