(* ===== verification/Object_History.thy ===== *)
theory Object_History
  imports Object Common
begin

text \<open>
  Whole histories of a timestamped object: any sequence of reads, writes, commits and aborts by any
  transactions, with the log of the versions it commits. The locale \<open>timestamp_ordered\<close> is the
  contract of timestamp ordering, stated on an abstract state; the properties of histories are
  proved in it once and reach the object through its interpretation.
\<close>

section \<open>Runs and their logs\<close>

type_synonym 'v version = "TransactionId \<times> 'v"

primrec run_ops :: "('op \<Rightarrow> 's \<Rightarrow> 's) \<Rightarrow> 'op list \<Rightarrow> 's \<Rightarrow> 's" where
  "run_ops ex [] s = s"
| "run_ops ex (p # ps) s = run_ops ex ps (ex p s)"

primrec run_log :: "('op \<Rightarrow> 's \<Rightarrow> 's) \<Rightarrow> ('op \<Rightarrow> 's \<Rightarrow> 'v version list) \<Rightarrow> 'op list \<Rightarrow> 's \<Rightarrow>
    'v version list" where
  "run_log ex cm [] s = []"
| "run_log ex cm (p # ps) s = cm p s @ run_log ex cm ps (ex p s)"

lemma run_ops_append: "run_ops ex (ps @ qs) s = run_ops ex qs (run_ops ex ps s)"
  by (induction ps arbitrary: s) auto

lemma run_log_append: "run_log ex cm (ps @ qs) s = run_log ex cm ps s @ run_log ex cm qs (run_ops ex ps s)"
  by (induction ps arbitrary: s) auto

text \<open>
  The version a transaction must see in an execution that is serial in timestamp order: the one
  with the greatest timestamp below its own.
\<close>

definition version_before :: "TransactionId \<Rightarrow> 'v version list \<Rightarrow> 'v \<Rightarrow> bool" where
  "version_before tid vs v \<longleftrightarrow>
     (\<exists>e \<in> set vs. snd e = v \<and> fst e < tid \<and> (\<forall>e' \<in> set vs. fst e' < tid \<longrightarrow> fst e' \<le> fst e))"

section \<open>The contract of timestamp ordering\<close>

locale timestamp_ordered =
  fixes inv :: "'s \<Rightarrow> bool"
    and ex :: "'op \<Rightarrow> 's \<Rightarrow> 's"
    and cm :: "'op \<Rightarrow> 's \<Rightarrow> 'v version list"
    and version :: "'s \<Rightarrow> 'v version"
    and pending :: "'s \<Rightarrow> TransactionId set"
    and readers :: "'s \<Rightarrow> TransactionId set"
    and aborts :: "'op \<Rightarrow> TransactionId set"
  assumes inv_ex: "inv s \<Longrightarrow> inv (ex p s)"
    and pending_newer: "inv s \<Longrightarrow> t \<in> pending s \<Longrightarrow> fst (version s) < t"
    and write_after_readers: "inv s \<Longrightarrow> t \<in> pending (ex p s) \<Longrightarrow> t \<notin> pending s \<Longrightarrow>
          r \<in> readers s \<Longrightarrow> r \<le> t"
    and commit_cases: "inv s \<Longrightarrow>
          cm p s = [] \<and> version (ex p s) = version s \<or>
          (\<exists>e. cm p s = [e] \<and> version (ex p s) = e \<and> fst e \<in> pending s)"
    and readers_kept: "inv s \<Longrightarrow> t \<in> readers s \<Longrightarrow> t \<notin> aborts p \<Longrightarrow> t \<in> readers (ex p s)"
begin

lemma run_inv: "inv s \<Longrightarrow> inv (run_ops ex ps s)"
  by (induction ps arbitrary: s) (auto intro: inv_ex)

text \<open>Versions are committed in timestamp order, each above the version it replaces.\<close>

lemma log_sorted: "inv s \<Longrightarrow> sorted_wrt (<) (fst (version s) # map fst (run_log ex cm ps s))"
proof (induction ps arbitrary: s)
  case (Cons p ps)
  from Cons.IH[OF inv_ex[OF Cons.prems]] commit_cases[OF Cons.prems, of p]
  show ?case using pending_newer[OF Cons.prems] by fastforce
qed simp

text \<open>The current version is the last one committed.\<close>

lemma log_last: "inv s \<Longrightarrow> version (run_ops ex ps s) = last (version s # run_log ex cm ps s)"
proof (induction ps arbitrary: s)
  case (Cons p ps)
  from Cons.IH[OF inv_ex[OF Cons.prems]] commit_cases[OF Cons.prems, of p] show ?case by auto
qed simp

text \<open>
  A registered reader with no older write pending stays so, hence no version below it is ever
  committed after the read.
\<close>

lemma settled_step:
  assumes "inv s" and "tid \<in> readers s" and "\<forall>t \<in> pending s. tid \<le> t" and "tid \<notin> aborts p"
  shows "tid \<in> readers (ex p s) \<and> (\<forall>t \<in> pending (ex p s). tid \<le> t)"
  using assms readers_kept write_after_readers by blast

lemma settled_log:
  assumes "inv s" and "tid \<in> readers s" and "\<forall>t \<in> pending s. tid \<le> t"
    and "\<forall>p \<in> set ps. tid \<notin> aborts p" and "e \<in> set (run_log ex cm ps s)"
  shows "tid \<le> fst e"
  using assms
proof (induction ps arbitrary: s)
  case (Cons p ps)
  have "tid \<le> fst e" if "e \<in> set (cm p s)"
    using commit_cases[OF Cons.prems(1), of p] that Cons.prems(3) by auto
  moreover have "tid \<le> fst e" if "e \<in> set (run_log ex cm ps (ex p s))"
    using Cons.IH[OF inv_ex[OF Cons.prems(1)] _ _ _ that] settled_step[OF Cons.prems(1-3)]
      Cons.prems(4) by auto
  ultimately show ?case using Cons.prems(5) by auto
qed simp

text \<open>
  So the version current at the read is, in the log of the whole history, the one right below the
  reader's timestamp.
\<close>

lemma read_sees_version_before:
  assumes "inv s0" and "run_log ex cm ps s0 \<noteq> []"
    and s: "s = run_ops ex ps s0" and v: "version s = (c, v)" and "c < tid"
    and s': "inv s'" "tid \<in> readers s'" "\<forall>t \<in> pending s'. tid \<le> t"
    and "\<forall>p \<in> set qs. tid \<notin> aborts p"
  shows "version_before tid (run_log ex cm ps s0 @ run_log ex cm qs s') v"
proof -
  let ?log = "run_log ex cm ps s0"
  from log_last[OF assms(1), of ps] assms(2) s v have last: "last ?log = (c, v)" by simp
  then have cv: "(c, v) \<in> set ?log" using assms(2) by (metis last_in_set)
  have "fst e \<le> c" if e: "e \<in> set ?log" for e
  proof -
    obtain pre post where "?log = pre @ e # post" using split_list[OF e] by blast
    with log_sorted[OF assms(1), of ps] last last_in_set[of post] show ?thesis
      by (cases "post = []") (force simp: sorted_wrt_append intro: less_imp_le)+
  qed
  moreover have "tid \<le> fst e" if "e \<in> set (run_log ex cm qs s')" for e
    using settled_log[OF s' assms(9) that] .
  ultimately show ?thesis
    unfolding version_before_def using cv \<open>c < tid\<close>
    by (intro bexI[of _ "(c, v)"]) (auto simp: not_less[symmetric])
qed

end

section \<open>The object keeps it\<close>

datatype 'v object_op = OpRead TransactionId | OpWrite TransactionId 'v
  | OpCommit TransactionId | OpAbort TransactionId

fun object_exec :: "('v \<Rightarrow> (unit, 'e) result) \<Rightarrow> 'v object_op \<Rightarrow> 'v TimestampedObject \<Rightarrow>
    'v TimestampedObject" where
  "object_exec chk (OpRead t) ob = snd (object_read t ob)"
| "object_exec chk (OpWrite t v) ob = snd (object_write t v ob)"
| "object_exec chk (OpCommit t) ob =
     (case object_commit chk t ob of Some (_, ob') \<Rightarrow> ob' | None \<Rightarrow> ob)"
| "object_exec chk (OpAbort t) ob = object_abort t ob"

fun object_committed :: "('v \<Rightarrow> (unit, 'e) result) \<Rightarrow> 'v object_op \<Rightarrow> 'v TimestampedObject \<Rightarrow>
    'v version list" where
  "object_committed chk (OpCommit t) ob =
     (case object_commit chk t ob of Some (Ok (ValueChanged v), _) \<Rightarrow> [(t, v)] | _ \<Rightarrow> [])"
| "object_committed chk _ ob = []"

fun object_aborts :: "'v object_op \<Rightarrow> TransactionId set" where
  "object_aborts (OpAbort t) = {t}"
| "object_aborts _ = {}"

lemma object_aborts_iff [simp]: "t \<in> object_aborts p \<longleftrightarrow> p = OpAbort t"
  by (cases p) auto

lemma object_exec_inv [inv_intros]:
  assumes "object_inv chk ob"
  shows "object_inv chk (object_exec chk p ob)"
  using assms object_commit_inv[OF assms]
  by (cases p) (auto intro: inv_intros split: option.split)

lemma object_read_frame [simp]:
  "tentative_writes (snd (object_read t ob)) = tentative_writes ob"
  "committed_timestamp (snd (object_read t ob)) = committed_timestamp ob"
  "obj_value (snd (object_read t ob)) = obj_value ob"
  by (auto simp: object_read_def split: option.split)

lemma object_write_frame [simp]:
  "read_timestamps (snd (object_write t v ob)) = read_timestamps ob"
  "committed_timestamp (snd (object_write t v ob)) = committed_timestamp ob"
  "obj_value (snd (object_write t v ob)) = obj_value ob"
  by (auto simp: object_write_def Let_def)

lemma object_abort_frame [simp]:
  "tentative_writes (object_abort t ob) = btree_remove t (tentative_writes ob)"
  "read_timestamps (object_abort t ob) = btree_remove t (read_timestamps ob)"
  "committed_timestamp (object_abort t ob) = committed_timestamp ob"
  "obj_value (object_abort t ob) = obj_value ob"
  by (auto simp: object_abort_def)

interpretation obj: timestamp_ordered "object_inv chk" "object_exec chk" "object_committed chk"
  "\<lambda>ob. (committed_timestamp ob, obj_value ob)" "\<lambda>ob. btree_keys (tentative_writes ob)"
  "\<lambda>ob. btree_keys (read_timestamps ob)" object_aborts
  for chk :: "'v \<Rightarrow> (unit, 'e) result"
proof unfold_locales
  fix ob :: "'v TimestampedObject" and p
  assume inv: "object_inv chk ob"
  show "object_inv chk (object_exec chk p ob)" using inv by (rule object_exec_inv)
  show "fst (committed_timestamp ob, obj_value ob) < t"
    if "t \<in> btree_keys (tentative_writes ob)" for t
    using object_invD(3)[OF inv that] by simp
  show "r \<le> t" if "t \<in> btree_keys (tentative_writes (object_exec chk p ob))"
      "t \<notin> btree_keys (tentative_writes ob)" "r \<in> btree_keys (read_timestamps ob)" for t r
  proof (cases p)
    case (OpWrite u v)
    with that show ?thesis
      by (rule_tac object_write_cases[OF inv, of u v]) auto
  next
    case (OpCommit u)
    with that show ?thesis by (rule_tac object_commit_cases[of u ob chk]) auto
  qed (use that in auto)
  show "object_committed chk p ob = [] \<and>
      (committed_timestamp (object_exec chk p ob), obj_value (object_exec chk p ob)) =
      (committed_timestamp ob, obj_value ob) \<or>
      (\<exists>e. object_committed chk p ob = [e] \<and>
        (committed_timestamp (object_exec chk p ob), obj_value (object_exec chk p ob)) = e \<and>
        fst e \<in> btree_keys (tentative_writes ob))"
  proof (cases p)
    case (OpCommit u)
    then show ?thesis
      by (rule_tac object_commit_cases[of u ob chk])
        (auto simp flip: dom_btree_get)
  qed auto
  show "t \<in> btree_keys (read_timestamps (object_exec chk p ob))"
    if "t \<in> btree_keys (read_timestamps ob)" "t \<notin> object_aborts p" for t
  proof (cases p)
    case (OpRead u)
    with that show ?thesis by (auto simp: object_read_def split: option.split)
  next
    case (OpCommit u)
    with that show ?thesis by (rule_tac object_commit_cases[of u ob chk]) auto
  qed (use that in auto)
qed


section \<open>What the histories of an object satisfy\<close>

text \<open>C24. Versions of an object are committed in strictly increasing timestamp order.\<close>

theorem object_commits_in_order:
  assumes "chk dflt = Ok ()"
  shows "sorted_wrt (<) (map fst (run_log (object_exec chk) (object_committed chk) ps
           (object_default dflt c)))"
  using obj.log_sorted[OF object_default_inv[of chk dflt, OF assms]] by (simp del: run_log.simps)

text \<open>
  C12. Timestamp-order reads. If a transaction reads an object it has not written and is not aborted
  afterwards, then the value it got is the version with the greatest timestamp below its own in
  the log of the whole history, the versions committed after the read included: the read is
  what a serial execution in timestamp order would return.
\<close>

theorem object_read_timestamp_order:
  assumes "chk dflt = Ok ()"
    and ob: "ob = run_ops (object_exec chk) ps (object_default dflt c)"
    and read: "object_read tid ob = (Ok v, ob')"
    and "tid \<notin> btree_keys (tentative_writes ob)"
    and "OpAbort tid \<notin> set qs"
  shows "version_before tid
    (run_log (object_exec chk) (object_committed chk) ps (object_default dflt c) @
     run_log (object_exec chk) (object_committed chk) qs ob') v"
proof -
  let ?d = "object_default dflt c"
  let ?log = "run_log (object_exec chk) (object_committed chk)"
  note d = object_default_inv[of chk dflt c, OF assms(1)]
  have inv: "object_inv chk ob" unfolding ob using d by (rule obj.run_inv)
  have later: "committed_timestamp ob < tid" "\<forall>k \<in> btree_keys (tentative_writes ob). tid < k"
    "\<not> is_default (committed_timestamp ob)" "v = obj_value ob"
    "ob' = ob\<lparr>read_timestamps := btset_insert tid (read_timestamps ob)\<rparr>"
    using read assms(4) by (rule_tac object_read_cases[OF inv, of tid];
      force simp flip: dom_btree_get)+
  have "?log ps ?d \<noteq> []"
    using obj.log_last[OF d, of ps] later(3) by (auto simp flip: ob)
  moreover have "object_inv chk ob'" using object_read_inv[OF inv, of tid] read by simp
  ultimately show ?thesis
    using later assms(5)
    by (intro obj.read_sees_version_before[OF d _ ob, where c = "committed_timestamp ob"])
      (auto intro: less_imp_le)
qed


abbreviation tx_at :: "nat \<Rightarrow> TransactionId" where
  "tx_at n \<equiv> ClockTransactionId (of_nat n) CHR ''B''"

lemmas object_eval = object_read_def object_write_def object_commit_def object_check_commit_def
  object_abort_def object_can_reap_def object_default_def default_id_def is_default_def
  TentativeWrite_new_def TentativeWrite_update_def btree_range_back_def btree_next_back_def
  btree_range_def btree_last_key_def btset_insert_def btree_contains_key_def btree_get_def
  btree_remove_def check_amount_def Let_def

theorem object_commits_in_order_witness:
  "sorted_wrt (<) (map fst (run_log (object_exec check_amount) (object_committed check_amount)
     [OpWrite (tx_at 5) 20, OpWrite (tx_at 3) 7, OpCommit (tx_at 5), OpCommit (tx_at 3), OpCommit (tx_at 5)]
     (object_default 0 CHR ''A'')))"
  by (rule object_commits_in_order) simp

theorem object_read_timestamp_order_witness:
  "version_before (tx_at 7)
     (run_log (object_exec check_amount) (object_committed check_amount)
        [OpWrite (tx_at 5) 20, OpCommit (tx_at 5)] (object_default 0 CHR ''A'') @
      run_log (object_exec check_amount) (object_committed check_amount)
        [OpWrite (tx_at 6) 30, OpCommit (tx_at 6), OpWrite (tx_at 8) 50, OpCommit (tx_at 8)]
        (snd (object_read (tx_at 7) (run_ops (object_exec check_amount)
           [OpWrite (tx_at 5) 20, OpCommit (tx_at 5)] (object_default 0 CHR ''A''))))) 20"
  by (rule object_read_timestamp_order[OF _ refl]) (simp_all add: object_eval)

section \<open>Undoing\<close>

lemma object_abort_read [simp]: "object_abort t (snd (object_read t ob)) = object_abort t ob"
  by (auto simp: object_read_def object_abort_def split: option.splits)

lemma object_abort_write [simp]: "object_abort t (snd (object_write t v ob)) = object_abort t ob"
  by (simp add: object_write_def object_abort_def Let_def)

text \<open>The reads and writes of one transaction.\<close>

fun rw_of :: "TransactionId \<Rightarrow> 'v object_op \<Rightarrow> bool" where
  "rw_of t (OpRead u) \<longleftrightarrow> u = t"
| "rw_of t (OpWrite u v) \<longleftrightarrow> u = t"
| "rw_of t _ \<longleftrightarrow> False"

lemma object_abort_exec: "rw_of t p \<Longrightarrow> object_abort t (object_exec chk p ob) = object_abort t ob"
  by (cases p) auto

text \<open>
  Aborting undoes a transaction completely: after any sequence of its reads and writes on an
  object it had not touched before, whether they succeeded or failed, \<open>abort\<close> gives the
  object back exactly as it was.
\<close>

theorem abort_undoes:
  assumes "t \<notin> btree_keys (tentative_writes ob)" and "t \<notin> btree_keys (read_timestamps ob)"
    and "list_all (rw_of t) ps"
  shows "object_abort t (run_ops (object_exec chk) ps ob) = ob"
proof -
  have "object_abort t (run_ops (object_exec chk) ps ob) = object_abort t ob"
    using assms(3) by (induction ps arbitrary: ob) (simp_all add: object_abort_exec)
  with assms(1,2) show ?thesis by (simp add: object_abort_def btree_remove_absent)
qed

theorem abort_undoes_witness:
  "object_abort (tx_at 7) (run_ops (object_exec check_amount) [OpRead (tx_at 7), OpWrite (tx_at 7) 3]
     \<lparr>obj_value = 10, committed_timestamp = tx_at 1, read_timestamps = [(tx_at 5, ())], tentative_writes = []\<rparr>) =
   \<lparr>obj_value = 10, committed_timestamp = tx_at 1, read_timestamps = [(tx_at 5, ())], tentative_writes = []\<rparr>"
  by (rule abort_undoes) simp_all

end
