(* ===== verification/Shard.thy ===== *)
theory Shard
  imports Object_History
begin

text \<open>
  A shard (tx-server/src/sharding/shard.rs): the map from keys to shared objects, the notification
  map, and the operations every transaction goes through. Each \<open>Arc<Mutex<..>>\<close> is an address
  into the store \<open>cells\<close>, so that two holders of an \<open>Arc\<close> see each other's updates and an
  object can outlive its map entry. One pass through the body of a method's loop is a function on
  the shard whose result says whether the method returned or is suspended in
  \<open>notified().await\<close>; \<open>await_loop\<close> puts the passes together, with whatever the other tasks
  did in between. A \<open>HashMap\<close> has no order: the operations that walk the object map take the
  order of the walk, an enumeration of the map, as an argument.
\<close>

section \<open>State\<close>

type_synonym addr = nat
type_synonym notify = nat

datatype Abort = ConsistencyCheckFailed | OrderViolation | ObjectNotFound | ObjectNotFoundSpecialCase

record ('k, 'v) Shard =
  shard_id :: NodeId
  objects :: "'k \<rightharpoonup> addr"
  notifications :: "TransactionId \<rightharpoonup> notify"
  cells :: "'v TimestampedObject list"
  next_notify :: notify
  notify_calls :: "notify list"

text \<open>
  \<open>cells\<close> holds the objects behind the \<open>Arc\<close>s, \<open>next_notify\<close> numbers the \<open>Notify\<close>
  instances created so far, and \<open>notify_calls\<close> is the trace of the \<open>notify_waiters\<close> calls.
\<close>

definition shard_new :: "NodeId \<Rightarrow> ('k, 'v) Shard" where
  "shard_new n = \<lparr>shard_id = n, objects = Map.empty, notifications = Map.empty,
     cells = [], next_notify = 0, notify_calls = []\<rparr>"

definition set_cell :: "addr \<Rightarrow> 'v TimestampedObject \<Rightarrow> ('k, 'v) Shard \<Rightarrow> ('k, 'v) Shard" where
  "set_cell a ob sh = sh\<lparr>cells := (cells sh)[a := ob]\<rparr>"

definition enumerates :: "('k \<times> addr) list \<Rightarrow> ('k, 'v) Shard \<Rightarrow> bool" where
  "enumerates es sh \<longleftrightarrow> distinct (map fst es) \<and> map_of es = objects sh"

section \<open>The maps\<close>

definition get_object :: "'k \<Rightarrow> ('k, 'v) Shard \<Rightarrow> addr option" where
  "get_object k sh = objects sh k"

definition get_object_or_insert_if_valid ::
  "('v \<Rightarrow> (unit, 'e) result) \<Rightarrow> 'v \<Rightarrow> 'k \<Rightarrow> 'v \<Rightarrow> ('k, 'v) Shard \<Rightarrow> addr option \<times> ('k, 'v) Shard" where
  "get_object_or_insert_if_valid chk dflt k v sh =
     (case objects sh k of
        Some a \<Rightarrow> (Some a, sh)
      | None \<Rightarrow>
          if result_is_ok (chk v) then
            let a = length (cells sh);
                sh' = sh\<lparr>cells := cells sh @ [object_default dflt (shard_id sh)],
                         objects := (objects sh)(k \<mapsto> a)\<rparr>
            in (objects sh' k, sh')
          else (None, sh))"

definition get_notification :: "TransactionId \<Rightarrow> ('k, 'v) Shard \<Rightarrow> notify \<times> ('k, 'v) Shard" where
  "get_notification t sh =
     (case notifications sh t of
        Some n \<Rightarrow> (n, sh)
      | None \<Rightarrow> (next_notify sh, sh\<lparr>notifications := (notifications sh)(t \<mapsto> next_notify sh),
                                    next_notify := next_notify sh + 1\<rparr>))"

definition notify_and_remove :: "TransactionId \<Rightarrow> ('k, 'v) Shard \<Rightarrow> ('k, 'v) Shard" where
  "notify_and_remove t sh =
     (case notifications sh t of
        None \<Rightarrow> sh
      | Some n \<Rightarrow> sh\<lparr>notifications := (notifications sh)(t := None),
                     notify_calls := notify_calls sh @ [n]\<rparr>)"

section \<open>Passes, suspension and resumption\<close>

datatype 'r pass = Return 'r | Suspended notify

definition suspend :: "TransactionId \<Rightarrow> ('k, 'v) Shard \<Rightarrow> 'r pass \<times> ('k, 'v) Shard" where
  "suspend t sh = (let (n, sh') = get_notification t sh in (Suspended n, sh'))"

text \<open>
  A task waiting on a \<open>Notify\<close> goes on once \<open>notify_waiters\<close> has been called on that
  instance; an instance is taken out of the map when it is fired, so it fires once.
\<close>

definition resumed :: "notify option \<Rightarrow> ('k, 'v) Shard \<Rightarrow> bool" where
  "resumed w sh \<longleftrightarrow> (case w of None \<Rightarrow> True | Some n \<Rightarrow> n \<in> set (notify_calls sh))"

lemma resumed_None [simp]: "resumed None sh"
  by (simp add: resumed_def)

text \<open>
  A loop that suspends between its passes. Each element of the list is one step of another task;
  the loop makes its next pass when the notification it is suspended on has been fired, and sleeps
  through the steps of the others until then.
\<close>

fun await_loop :: "(('k, 'v) Shard \<Rightarrow> 'r pass \<times> ('k, 'v) Shard) \<Rightarrow> notify option \<Rightarrow>
    (('k, 'v) Shard \<Rightarrow> ('k, 'v) Shard) list \<Rightarrow> ('k, 'v) Shard \<Rightarrow> 'r pass \<times> ('k, 'v) Shard" where
  "await_loop body w [] sh = (if resumed w sh then body sh else (Suspended (the w), sh))"
| "await_loop body w (other # rest) sh =
     (if resumed w sh then
        (case body sh of
           (Return r, sh') \<Rightarrow> (Return r, sh')
         | (Suspended n, sh') \<Rightarrow> await_loop body (Some n) rest (other sh'))
      else await_loop body w rest (other sh))"

section \<open>Reading and writing\<close>

definition shard_read_pass ::
  "TransactionId \<Rightarrow> 'k \<Rightarrow> ('k, 'v) Shard \<Rightarrow> ('v, Abort) result pass \<times> ('k, 'v) Shard" where
  "shard_read_pass tid k sh =
     (case get_object k sh of
        None \<Rightarrow> (Return (Err ObjectNotFound), sh)
      | Some a \<Rightarrow>
          let (r, ob') = object_read tid (cells sh ! a); sh' = set_cell a ob' sh
          in case r of
               Ok v \<Rightarrow> (Return (Ok v), sh')
             | Err RWFailure.Abort \<Rightarrow> (Return (Err OrderViolation), sh')
             | Err RWFailure.AbortedNotFound \<Rightarrow> (Return (Err ObjectNotFoundSpecialCase), sh')
             | Err (RWFailure.WaitFor waiting_on) \<Rightarrow> suspend waiting_on sh')"

definition shard_read :: "(('k, 'v) Shard \<Rightarrow> ('k, 'v) Shard) list \<Rightarrow> TransactionId \<Rightarrow> 'k \<Rightarrow>
    ('k, 'v) Shard \<Rightarrow> ('v, Abort) result pass \<times> ('k, 'v) Shard" where
  "shard_read others tid k sh = await_loop (shard_read_pass tid k) None others sh"

definition shard_write_pass ::
  "('v \<Rightarrow> (unit, 'e) result) \<Rightarrow> 'v \<Rightarrow> TransactionId \<Rightarrow> 'k \<Rightarrow> 'v \<Rightarrow> ('k, 'v) Shard \<Rightarrow>
     (unit, Abort) result pass \<times> ('k, 'v) Shard" where
  "shard_write_pass chk dflt tid k v sh =
     (case get_object_or_insert_if_valid chk dflt k v sh of
        (None, sh') \<Rightarrow> (Return (Err ObjectNotFound), sh')
      | (Some a, sh') \<Rightarrow>
          let (r, ob') = object_write tid v (cells sh' ! a); sh'' = set_cell a ob' sh'
          in case r of
               Ok _ \<Rightarrow> (Return (Ok ()), sh'')
             | Err RWFailure.Abort \<Rightarrow> (Return (Err OrderViolation), sh'')
             | Err RWFailure.AbortedNotFound \<Rightarrow> (Return (Err ObjectNotFoundSpecialCase), sh'')
             | Err (RWFailure.WaitFor waiting_on) \<Rightarrow> suspend waiting_on sh'')"

definition shard_write :: "('v \<Rightarrow> (unit, 'e) result) \<Rightarrow> 'v \<Rightarrow> (('k, 'v) Shard \<Rightarrow> ('k, 'v) Shard) list \<Rightarrow>
    TransactionId \<Rightarrow> 'k \<Rightarrow> 'v \<Rightarrow> ('k, 'v) Shard \<Rightarrow> (unit, Abort) result pass \<times> ('k, 'v) Shard" where
  "shard_write chk dflt others tid k v sh = await_loop (shard_write_pass chk dflt tid k v) None others sh"

section \<open>Checking and committing\<close>

text \<open>What the loop over the joined results does: return an error, wait, or go on.\<close>

datatype 'a scan = ScanFailed | ScanWait TransactionId | ScanDone 'a

fun scan_checks :: "(unit CheckCommitSuccess, 'e CommitFailure) result list \<Rightarrow> unit scan" where
  "scan_checks [] = ScanDone ()"
| "scan_checks (Err (CommitFailure.ConsistencyCheckFailed e) # rs) = ScanFailed"
| "scan_checks (Err (CommitFailure.WaitFor t) # rs) = ScanWait t"
| "scan_checks (Ok _ # rs) = scan_checks rs"

text \<open>The outer option of both is a panic of a spawned task, which \<open>fut.unwrap()\<close> passes on.\<close>

definition shard_check_commit_pass ::
  "('v \<Rightarrow> (unit, 'e) result) \<Rightarrow> ('k \<times> addr) list \<Rightarrow> TransactionId \<Rightarrow> ('k, 'v) Shard \<Rightarrow>
     ((unit, Abort) result pass \<times> ('k, 'v) Shard) option" where
  "shard_check_commit_pass chk es tid sh =
     (let rs = map (\<lambda>(k, a). object_check_commit chk tid (cells sh ! a)) es
      in if None \<in> set rs then None
         else Some (case scan_checks (map the rs) of
                ScanFailed \<Rightarrow> (Return (Err ConsistencyCheckFailed), sh)
              | ScanWait t \<Rightarrow> suspend t sh
              | ScanDone _ \<Rightarrow> (Return (Ok ()), sh)))"

fun commit_cells ::
  "('v \<Rightarrow> (unit, 'e) result) \<Rightarrow> ('k \<times> addr) list \<Rightarrow> TransactionId \<Rightarrow> ('k, 'v) Shard \<Rightarrow>
     (('k \<times> ('v CommitSuccess, 'e CommitFailure) result) list \<times> ('k, 'v) Shard) option" where
  "commit_cells chk [] tid sh = Some ([], sh)"
| "commit_cells chk ((k, a) # es) tid sh =
     (case object_commit chk tid (cells sh ! a) of
        None \<Rightarrow> None
      | Some (r, ob') \<Rightarrow>
          (case commit_cells chk es tid (set_cell a ob' sh) of
             None \<Rightarrow> None
           | Some (rs, sh') \<Rightarrow> Some ((k, r) # rs, sh')))"

fun scan_commits :: "('k \<times> ('v CommitSuccess, 'e CommitFailure) result) list \<Rightarrow>
    ('k \<times> 'v CommitSuccess) list scan" where
  "scan_commits [] = ScanDone []"
| "scan_commits ((k, Ok v) # rs) =
     (case scan_commits rs of ScanDone vs \<Rightarrow> ScanDone ((k, v) # vs) | other \<Rightarrow> other)"
| "scan_commits ((k, Err (CommitFailure.ConsistencyCheckFailed e)) # rs) = ScanFailed"
| "scan_commits ((k, Err (CommitFailure.WaitFor t)) # rs) = ScanWait t"

fun success_value :: "'a CommitSuccess \<Rightarrow> 'a" where
  "success_value (ValueChanged v) = v"
| "success_value (NoChange v) = v"

fun value_changed :: "'a CommitSuccess \<Rightarrow> bool" where
  "value_changed (ValueChanged _) = True"
| "value_changed (NoChange _) = False"

definition shard_commit_pass ::
  "('v \<Rightarrow> (unit, 'e) result) \<Rightarrow> ('k \<times> addr) list \<Rightarrow> TransactionId \<Rightarrow> ('k, 'v) Shard \<Rightarrow>
     ((('k \<times> 'v) list CommitSuccess, Abort) result pass \<times> ('k, 'v) Shard) option" where
  "shard_commit_pass chk es tid sh =
     (case commit_cells chk es tid sh of
        None \<Rightarrow> None
      | Some (rs, sh') \<Rightarrow> Some
          (case scan_commits rs of
             ScanFailed \<Rightarrow> (Return (Err ConsistencyCheckFailed), notify_and_remove tid sh')
           | ScanWait t \<Rightarrow> suspend t sh'
           | ScanDone vs \<Rightarrow>
               let sh'' = notify_and_remove tid sh';
                   did_change = list_ex (\<lambda>(_, cr). value_changed cr) vs;
                   inner = map (\<lambda>(k, cr). (k, success_value cr)) vs
               in (Return (Ok (if did_change then ValueChanged inner else NoChange inner)), sh'')))"

section \<open>Aborting\<close>

fun abort_cells :: "('k \<times> addr) list \<Rightarrow> TransactionId \<Rightarrow> ('k, 'v) Shard \<Rightarrow>
    ('k \<times> bool) list \<times> ('k, 'v) Shard" where
  "abort_cells [] tid sh = ([], sh)"
| "abort_cells ((k, a) # es) tid sh =
     (let ob' = object_abort tid (cells sh ! a);
          (rs, sh') = abort_cells es tid (set_cell a ob' sh)
      in ((k, object_can_reap tid ob') # rs, sh'))"

definition reap :: "('k \<times> bool) list \<Rightarrow> ('k, 'v) Shard \<Rightarrow> ('k, 'v) Shard" where
  "reap rs sh = sh\<lparr>objects := fold (\<lambda>(k, can_reap) m. if can_reap then m(k := None) else m) rs (objects sh)\<rparr>"

definition shard_abort :: "('k \<times> addr) list \<Rightarrow> TransactionId \<Rightarrow> ('k, 'v) Shard \<Rightarrow> ('k, 'v) Shard" where
  "shard_abort es tid sh =
     (let (rs, sh') = abort_cells es tid sh in notify_and_remove tid (reap rs sh'))"


section \<open>The invariant of a shard\<close>

text \<open>
  Map entries point at existing cells, no two keys share a cell, the map is finite, and every cell
  satisfies the invariant of an object. The notifications in the map are distinct instances that
  have been created and not yet fired.
\<close>

definition shard_inv :: "('v \<Rightarrow> (unit, 'e) result) \<Rightarrow> ('k, 'v) Shard \<Rightarrow> bool" where
  "shard_inv chk sh \<longleftrightarrow>
     list_all (object_inv chk) (cells sh) \<and>
     finite (dom (objects sh)) \<and> ran (objects sh) \<subseteq> {..<length (cells sh)} \<and>
     inj_on (objects sh) (dom (objects sh)) \<and>
     ran (notifications sh) \<subseteq> {..<next_notify sh} \<and>
     inj_on (notifications sh) (dom (notifications sh)) \<and>
     set (notify_calls sh) \<subseteq> {..<next_notify sh} - ran (notifications sh)"

lemma shard_inv_cell: "shard_inv chk sh \<Longrightarrow> a < length (cells sh) \<Longrightarrow> object_inv chk (cells sh ! a)"
  by (simp add: shard_inv_def list_all_length)

lemma shard_inv_addr: "shard_inv chk sh \<Longrightarrow> objects sh k = Some a \<Longrightarrow> a < length (cells sh)"
  by (auto simp: shard_inv_def ran_def)

lemma shard_inv_inj:
  "shard_inv chk sh \<Longrightarrow> objects sh k = Some a \<Longrightarrow> objects sh k' = Some a \<Longrightarrow> k = k'"
  by (auto simp: shard_inv_def inj_on_def dom_def)

lemma shard_new_inv [inv_intros]: "shard_inv chk (shard_new n)"
  by (simp add: shard_inv_def shard_new_def)

lemma set_cell_inv [inv_intros]:
  "shard_inv chk sh \<Longrightarrow> object_inv chk ob \<Longrightarrow> shard_inv chk (set_cell a ob sh)"
  by (simp add: shard_inv_def set_cell_def list_all_update)

lemma get_notification_inv [inv_intros]:
  assumes "shard_inv chk sh"
  shows "shard_inv chk (snd (get_notification t sh))"
proof (cases "notifications sh t")
  case None
  have "next_notify sh \<notin> ran (notifications sh)" "next_notify sh \<notin> set (notify_calls sh)"
    using assms by (auto simp: shard_inv_def)
  with None assms show ?thesis
    by (auto simp: shard_inv_def get_notification_def ran_map_upd inj_on_def dom_def ran_def
        subset_iff less_Suc_eq)
qed (use assms in \<open>simp add: get_notification_def\<close>)

lemma notify_and_remove_inv [inv_intros]:
  assumes "shard_inv chk sh"
  shows "shard_inv chk (notify_and_remove t sh)"
proof (cases "notifications sh t")
  case (Some n)
  have "t' = t" if "notifications sh t' = Some n" for t'
    using assms Some that by (auto simp: shard_inv_def inj_on_def dom_def)
  with Some assms show ?thesis
    by (auto simp: shard_inv_def notify_and_remove_def inj_on_def dom_def ran_def subset_iff)
qed (use assms in \<open>simp add: notify_and_remove_def\<close>)

lemma suspend_inv [inv_intros]: "shard_inv chk sh \<Longrightarrow> shard_inv chk (snd (suspend t sh))"
  using get_notification_inv[of chk sh t] by (simp add: suspend_def case_prod_beta)

lemma get_or_insert_inv [inv_intros]:
  assumes "shard_inv chk sh" and "chk dflt = Ok ()"
  shows "shard_inv chk (snd (get_object_or_insert_if_valid chk dflt k v sh))"
proof (cases "objects sh k = None \<and> result_is_ok (chk v)")
  case True
  let ?m = "(objects sh)(k \<mapsto> length (cells sh))"
  have "ran ?m \<subseteq> {..<Suc (length (cells sh))}" "inj_on ?m (dom ?m)"
    using assms(1) by (auto simp: shard_inv_def inj_on_def dom_def ran_def subset_iff less_Suc_eq)
  moreover have "finite (dom ?m)" using assms(1) by (simp add: shard_inv_def)
  ultimately show ?thesis
    using True assms object_default_inv[of chk dflt "shard_id sh"]
    by (simp add: shard_inv_def get_object_or_insert_if_valid_def Let_def)
qed (use assms in \<open>auto simp: get_object_or_insert_if_valid_def split: option.split\<close>)

lemma get_or_insert_addr:
  assumes "shard_inv chk sh" and "get_object_or_insert_if_valid chk dflt k v sh = (Some a, sh')"
  shows "objects sh' k = Some a" and "a < length (cells sh')"
  using assms shard_inv_addr[OF assms(1), of k]
  by (auto simp: get_object_or_insert_if_valid_def Let_def split: option.splits if_splits)

lemma shard_read_pass_inv [inv_intros]:
  assumes "shard_inv chk sh"
  shows "shard_inv chk (snd (shard_read_pass tid k sh))"
proof (cases "objects sh k")
  case (Some a)
  obtain r ob' where r: "object_read tid (cells sh ! a) = (r, ob')" by (cases "object_read tid (cells sh ! a)")
  have "object_inv chk ob'"
    using object_read_inv[OF shard_inv_cell[OF assms shard_inv_addr[OF assms Some]], of tid] r by simp
  with Some assms r show ?thesis
    by (auto simp: shard_read_pass_def get_object_def Let_def intro: inv_intros
        split: result.split RWFailure.split)
qed (use assms in \<open>simp add: shard_read_pass_def get_object_def\<close>)

lemma shard_write_pass_inv [inv_intros]:
  assumes "shard_inv chk sh" and "chk dflt = Ok ()"
  shows "shard_inv chk (snd (shard_write_pass chk dflt tid k v sh))"
proof -
  obtain q sh' where q: "get_object_or_insert_if_valid chk dflt k v sh = (q, sh')"
    by (cases "get_object_or_insert_if_valid chk dflt k v sh")
  have inv': "shard_inv chk sh'" using get_or_insert_inv[OF assms, of k v] q by simp
  show ?thesis
  proof (cases q)
    case (Some a)
    obtain r ob' where r: "object_write tid v (cells sh' ! a) = (r, ob')"
      by (cases "object_write tid v (cells sh' ! a)")
    have "a < length (cells sh')" using get_or_insert_addr[OF assms(1)] q Some by blast
    then have "object_inv chk ob'"
      using object_write_inv[OF shard_inv_cell[OF inv'], of a tid v] r by simp
    with Some q r inv' show ?thesis
      by (auto simp: shard_write_pass_def Let_def intro: inv_intros split: result.split RWFailure.split)
  qed (use q inv' in \<open>simp add: shard_write_pass_def\<close>)
qed


section \<open>Walking the object map\<close>

text \<open>Both walks that change objects apply one function to each cell they visit.\<close>

definition update_cells :: "('v TimestampedObject \<Rightarrow> 'v TimestampedObject) \<Rightarrow> addr set \<Rightarrow>
    ('k, 'v) Shard \<Rightarrow> ('k, 'v) Shard" where
  "update_cells f A sh = sh\<lparr>cells :=
     map (\<lambda>a. if a \<in> A then f (cells sh ! a) else cells sh ! a) [0..<length (cells sh)]\<rparr>"

lemma update_cells_sel [simp]:
  "shard_id (update_cells f A sh) = shard_id sh"
  "objects (update_cells f A sh) = objects sh"
  "notifications (update_cells f A sh) = notifications sh"
  "next_notify (update_cells f A sh) = next_notify sh"
  "notify_calls (update_cells f A sh) = notify_calls sh"
  "length (cells (update_cells f A sh)) = length (cells sh)"
  by (simp_all add: update_cells_def)

lemma update_cells_nth [simp]:
  "a < length (cells sh) \<Longrightarrow>
     cells (update_cells f A sh) ! a = (if a \<in> A then f (cells sh ! a) else cells sh ! a)"
  by (simp add: update_cells_def)

lemma update_cells_empty [simp]: "update_cells f {} sh = sh"
  by (simp add: update_cells_def map_nth)

lemma update_cells_set_cell:
  assumes "a < length (cells sh)" and "a \<notin> A"
  shows "update_cells f A (set_cell a (f (cells sh ! a)) sh) = update_cells f (insert a A) sh"
proof -
  have "cells (update_cells f A (set_cell a (f (cells sh ! a)) sh)) =
      cells (update_cells f (insert a A) sh)"
    using assms by (intro nth_equalityI) (auto simp: set_cell_def update_cells_def nth_list_update)
  then show ?thesis
    by (intro Shard.equality) (simp_all add: set_cell_def update_cells_def)
qed

lemma update_cells_inv [inv_intros]:
  assumes "shard_inv chk sh" and "\<And>ob. object_inv chk ob \<Longrightarrow> object_inv chk (f ob)"
  shows "shard_inv chk (update_cells f A sh)"
proof -
  have "list_all (object_inv chk) (cells (update_cells f A sh))"
    using assms shard_inv_cell[OF assms(1)] by (simp add: list_all_length)
  with assms(1) show ?thesis by (simp add: shard_inv_def)
qed

text \<open>Committing and aborting one object as functions of the object (neither ever panics).\<close>

definition commit_obj :: "('v \<Rightarrow> (unit, 'e) result) \<Rightarrow> TransactionId \<Rightarrow> 'v TimestampedObject \<Rightarrow> 'v TimestampedObject" where
  "commit_obj chk tid ob = snd (the (object_commit chk tid ob))"

definition commit_res :: "('v \<Rightarrow> (unit, 'e) result) \<Rightarrow> TransactionId \<Rightarrow> 'v TimestampedObject \<Rightarrow>
    ('v CommitSuccess, 'e CommitFailure) result" where
  "commit_res chk tid ob = fst (the (object_commit chk tid ob))"

lemma object_commit_total: "object_commit chk tid ob = Some (commit_res chk tid ob, commit_obj chk tid ob)"
  by (rule object_commit_cases[of tid ob chk]) (simp_all add: commit_res_def commit_obj_def)

lemma commit_obj_inv [inv_intros]: "object_inv chk ob \<Longrightarrow> object_inv chk (commit_obj chk tid ob)"
  using object_commit_inv[OF _ object_commit_total] .

lemma commit_cells_eq:
  assumes "distinct (map snd es)" and "snd ` set es \<subseteq> {..<length (cells sh)}"
  shows "commit_cells chk es tid sh =
    Some (map (\<lambda>(k, a). (k, commit_res chk tid (cells sh ! a))) es,
          update_cells (commit_obj chk tid) (snd ` set es) sh)"
  using assms
proof (induction es arbitrary: sh)
  case (Cons e es)
  obtain k a where e: "e = (k, a)" by (cases e)
  let ?sh = "set_cell a (commit_obj chk tid (cells sh ! a)) sh"
  have a: "a < length (cells sh)" "a \<notin> snd ` set es" using Cons.prems e by auto
  have "map (\<lambda>(k, a). (k, commit_res chk tid (cells ?sh ! a))) es =
      map (\<lambda>(k, a). (k, commit_res chk tid (cells sh ! a))) es"
    using a by (auto simp: set_cell_def nth_list_update image_iff)
  with Cons.IH[of ?sh] Cons.prems e a update_cells_set_cell[OF a, of "commit_obj chk tid"]
  show ?case by (simp add: object_commit_total) (simp add: set_cell_def)
qed simp

lemma abort_cells_eq:
  assumes "distinct (map snd es)" and "snd ` set es \<subseteq> {..<length (cells sh)}"
  shows "abort_cells es tid sh =
    (map (\<lambda>(k, a). (k, object_can_reap tid (object_abort tid (cells sh ! a)))) es,
     update_cells (object_abort tid) (snd ` set es) sh)"
  using assms
proof (induction es arbitrary: sh)
  case (Cons e es)
  obtain k a where e: "e = (k, a)" by (cases e)
  let ?sh = "set_cell a (object_abort tid (cells sh ! a)) sh"
  have a: "a < length (cells sh)" "a \<notin> snd ` set es" using Cons.prems e by auto
  have "map (\<lambda>(k, a). (k, object_can_reap tid (object_abort tid (cells ?sh ! a)))) es =
      map (\<lambda>(k, a). (k, object_can_reap tid (object_abort tid (cells sh ! a)))) es"
    using a by (auto simp: set_cell_def nth_list_update image_iff)
  with Cons.IH[of ?sh] Cons.prems e a update_cells_set_cell[OF a, of "object_abort tid"]
  show ?case by (simp add: Let_def) (simp add: set_cell_def)
qed simp

lemma enumerates_exists:
  assumes "shard_inv chk sh"
  obtains es where "enumerates es sh"
proof -
  from assms obtain ks where ks: "set ks = dom (objects sh)" "distinct ks"
    using finite_distinct_list[of "dom (objects sh)"] by (auto simp: shard_inv_def)
  have "enumerates (map (\<lambda>k. (k, the (objects sh k))) ks) sh"
    using ks by (auto simp: enumerates_def map_of_map_restrict comp_def restrict_map_def fun_eq_iff domIff)
  then show thesis by (rule that)
qed

lemma enumerates_addrs:
  assumes "shard_inv chk sh" and "enumerates es sh"
  shows "distinct (map snd es)" and "snd ` set es \<subseteq> {..<length (cells sh)}"
    and "a \<in> snd ` set es \<longleftrightarrow> a \<in> ran (objects sh)"
proof -
  have mem: "(k, a) \<in> set es \<longleftrightarrow> objects sh k = Some a" for k a
    using assms(2) unfolding enumerates_def by (metis map_of_eq_Some_iff)
  have "inj_on snd (set es)"
    using mem shard_inv_inj[OF assms(1)] by (auto simp: inj_on_def)
  with assms(2) show "distinct (map snd es)"
    by (auto simp: enumerates_def distinct_map)
  show "snd ` set es \<subseteq> {..<length (cells sh)}" using mem shard_inv_addr[OF assms(1)] by auto
  show "a \<in> snd ` set es \<longleftrightarrow> a \<in> ran (objects sh)" using mem by (force simp: ran_def)
qed

lemma fold_reap:
  assumes "distinct (map fst rs)"
  shows "fold (\<lambda>(k, can_reap) m. if can_reap then m(k := None) else m) rs m k =
    (if map_of rs k = Some True then None else m k)"
  using assms
proof (induction rs arbitrary: m)
  case (Cons r rs)
  obtain k' b where r: "r = (k', b)" by (cases r)
  with Cons.prems have "map_of rs k' = None" by (simp add: map_of_eq_None_iff)
  with Cons r show ?case by (cases b) auto
qed simp

end
