(* ===== verification/Shard_Spec.thy ===== *)
theory Shard_Spec
  imports Shard
begin

text \<open>
  What a shard promises, as a transactional store: the committed value of every key, and for each
  transaction the values it has written and not yet committed. Reading, writing, committing and
  aborting on the shard implement the operations of the store; the object map, the trees and the
  timestamps are implementation. The second half is the shard's side of two-phase commit: what a
  successful check promises about the commit that follows it.
\<close>

section \<open>The transactional store\<close>

record ('k, 'v) store =
  committed :: "'k \<rightharpoonup> 'v"
  pending :: "TransactionId \<Rightarrow> 'k \<rightharpoonup> 'v"

definition store_read :: "TransactionId \<Rightarrow> 'k \<Rightarrow> ('k, 'v) store \<Rightarrow> 'v option" where
  "store_read tid k st = (case pending st tid k of Some v \<Rightarrow> Some v | None \<Rightarrow> committed st k)"

definition store_write :: "TransactionId \<Rightarrow> 'k \<Rightarrow> 'v \<Rightarrow> ('k, 'v) store \<Rightarrow> ('k, 'v) store" where
  "store_write tid k v st = st\<lparr>pending := (pending st)(tid := (pending st tid)(k \<mapsto> v))\<rparr>"

definition store_commit :: "TransactionId \<Rightarrow> ('k, 'v) store \<Rightarrow> ('k, 'v) store" where
  "store_commit tid st = \<lparr>committed = committed st ++ pending st tid,
     pending = (pending st)(tid := Map.empty)\<rparr>"

definition store_abort :: "TransactionId \<Rightarrow> ('k, 'v) store \<Rightarrow> ('k, 'v) store" where
  "store_abort tid st = st\<lparr>pending := (pending st)(tid := Map.empty)\<rparr>"

section \<open>Abstraction\<close>

definition object_map :: "('k, 'v) Shard \<Rightarrow> 'k \<rightharpoonup> 'v TimestampedObject" where
  "object_map sh k = map_option (\<lambda>a. cells sh ! a) (objects sh k)"

definition object_committed_value :: "'v TimestampedObject \<Rightarrow> 'v option" where
  "object_committed_value ob = (if is_default (committed_timestamp ob) then None else Some (obj_value ob))"

definition object_pending_value :: "TransactionId \<Rightarrow> 'v TimestampedObject \<Rightarrow> 'v option" where
  "object_pending_value tid ob = map_option tw_value (btree_get (tentative_writes ob) tid)"

definition store_of_map :: "('k \<rightharpoonup> 'v TimestampedObject) \<Rightarrow> ('k, 'v) store" where
  "store_of_map m = \<lparr>committed = (\<lambda>k. Option.bind (m k) object_committed_value),
     pending = (\<lambda>tid k. Option.bind (m k) (object_pending_value tid))\<rparr>"

abbreviation store_of :: "('k, 'v) Shard \<Rightarrow> ('k, 'v) store" where
  "store_of sh \<equiv> store_of_map (object_map sh)"

lemma object_map_update_sel [simp]:
  "object_map (sh\<lparr>notifications := a\<rparr>) = object_map sh"
  "object_map (sh\<lparr>next_notify := b\<rparr>) = object_map sh"
  "object_map (sh\<lparr>notify_calls := c\<rparr>) = object_map sh"
  by (simp_all add: object_map_def fun_eq_iff)

lemma object_map_notification [simp]:
  "object_map (snd (get_notification t sh)) = object_map sh"
  "object_map (notify_and_remove t sh) = object_map sh"
  "object_map (snd (suspend t sh)) = object_map sh"
  by (simp_all add: get_notification_def notify_and_remove_def suspend_def case_prod_beta
      split: option.split)

lemma object_map_suspend: "suspend t sh = (p, sh') \<Longrightarrow> object_map sh' = object_map sh"
  by (auto simp: suspend_def case_prod_beta)

lemma object_map_set_cell:
  assumes "shard_inv chk sh" and "objects sh k = Some a"
  shows "object_map (set_cell a ob sh) = (object_map sh)(k \<mapsto> ob)"
proof
  fix k'
  have a: "a < length (cells sh)" using assms by (rule shard_inv_addr)
  show "object_map (set_cell a ob sh) k' = ((object_map sh)(k \<mapsto> ob)) k'"
  proof (cases "k' = k")
    case True
    with a assms(2) show ?thesis by (simp add: object_map_def set_cell_def)
  next
    case False
    then have "objects sh k' \<noteq> Some a" using shard_inv_inj[OF assms, of k'] by auto
    with False show ?thesis
      by (cases "objects sh k'") (auto simp: object_map_def set_cell_def nth_list_update)
  qed
qed

lemma object_map_inv:
  "shard_inv chk sh \<Longrightarrow> object_map sh k = Some ob \<Longrightarrow> object_inv chk ob"
  by (auto simp: object_map_def intro: shard_inv_cell shard_inv_addr)

lemma object_map_insert:
  assumes "shard_inv chk sh"
  shows "object_map (snd (get_object_or_insert_if_valid chk dflt k v sh)) =
    (if object_map sh k = None \<and> result_is_ok (chk v)
     then (object_map sh)(k \<mapsto> object_default dflt (shard_id sh)) else object_map sh)"
proof (cases "objects sh k = None \<and> result_is_ok (chk v)")
  case True
  let ?sh = "snd (get_object_or_insert_if_valid chk dflt k v sh)"
  have "object_map ?sh k' = ((object_map sh)(k \<mapsto> object_default dflt (shard_id sh))) k'" for k'
    using True shard_inv_addr[OF assms, of k']
    by (cases "objects sh k'")
      (auto simp: object_map_def get_object_or_insert_if_valid_def Let_def nth_append)
  with True show ?thesis by (auto simp: object_map_def)
next
  case False
  then have "snd (get_object_or_insert_if_valid chk dflt k v sh) = sh"
    by (auto simp: get_object_or_insert_if_valid_def split: option.split)
  with False show ?thesis by (auto simp: object_map_def)
qed

lemma object_map_update_cells:
  assumes "shard_inv chk sh" and "ran (objects sh) \<subseteq> A"
  shows "object_map (update_cells f A sh) k = map_option f (object_map sh k)"
  using assms shard_inv_addr[OF assms(1)]
  by (cases "objects sh k") (auto simp: object_map_def ran_def)

lemma object_map_commit:
  assumes "shard_inv chk sh" and "enumerates es sh" and "commit_cells chk es tid sh = Some (rs, sh')"
  shows "object_map sh' k = map_option (commit_obj chk tid) (object_map sh k)"
    and "map_of rs k = map_option (commit_res chk tid) (object_map sh k)"
    and "map fst rs = map fst es" and "shard_inv chk sh'"
proof -
  note addrs = enumerates_addrs[OF assms(1,2)]
  from commit_cells_eq[OF addrs(1,2), of chk tid] assms(3)
  have rs: "rs = map (\<lambda>(k, a). (k, commit_res chk tid (cells sh ! a))) es"
    and sh': "sh' = update_cells (commit_obj chk tid) (snd ` set es) sh" by auto
  show "object_map sh' k = map_option (commit_obj chk tid) (object_map sh k)"
    unfolding sh' using addrs(3) by (intro object_map_update_cells[OF assms(1)]) auto
  show "map fst rs = map fst es" unfolding rs by (simp add: case_prod_beta comp_def)
  show "shard_inv chk sh'" unfolding sh' by (intro inv_intros assms(1))
  have "map_of rs k = map_option (\<lambda>a. commit_res chk tid (cells sh ! a)) (map_of es k)"
    unfolding rs by (simp add: map_of_map)
  with assms(2) show "map_of rs k = map_option (commit_res chk tid) (object_map sh k)"
    by (simp add: enumerates_def object_map_def option.map_comp comp_def)
qed

lemma commit_cells_some:
  assumes "shard_inv chk sh" and "enumerates es sh"
  obtains rs sh' where "commit_cells chk es tid sh = Some (rs, sh')"
  using commit_cells_eq[OF enumerates_addrs(1,2)[OF assms]] by blast

lemma object_map_abort:
  assumes "shard_inv chk sh" and "enumerates es sh"
  shows "object_map (shard_abort es tid sh) k =
    (case object_map sh k of
       None \<Rightarrow> None
     | Some ob \<Rightarrow> if object_can_reap tid (object_abort tid ob) then None else Some (object_abort tid ob))"
proof -
  note addrs = enumerates_addrs[OF assms]
  let ?rs = "map (\<lambda>(k, a). (k, object_can_reap tid (object_abort tid (cells sh ! a)))) es"
  let ?sh = "update_cells (object_abort tid) (snd ` set es) sh"
  have d: "distinct (map fst ?rs)"
    using assms(2) by (simp add: enumerates_def case_prod_beta comp_def)
  have r: "map_of ?rs k = map_option (\<lambda>ob. object_can_reap tid (object_abort tid ob)) (object_map sh k)"
    using assms(2)
    by (simp add: map_of_map enumerates_def object_map_def option.map_comp comp_def)
  have "objects (shard_abort es tid sh) k = (if map_of ?rs k = Some True then None else objects sh k)"
    by (simp add: shard_abort_def abort_cells_eq[OF addrs(1,2)] notify_and_remove_def reap_def
        fold_reap[OF d] split: option.split)
  moreover have "cells (shard_abort es tid sh) = cells ?sh"
    by (simp add: shard_abort_def abort_cells_eq[OF addrs(1,2)] notify_and_remove_def reap_def
        split: option.split)
  moreover have "object_map ?sh k = map_option (object_abort tid) (object_map sh k)"
    using addrs(3) by (intro object_map_update_cells[OF assms(1)]) auto
  ultimately show ?thesis
    using r by (cases "objects sh k") (auto simp: object_map_def)
qed

lemma shard_inv_submap:
  assumes "shard_inv chk sh" and "m \<subseteq>\<^sub>m objects sh"
  shows "shard_inv chk (sh\<lparr>objects := m\<rparr>)"
proof -
  have "dom m \<subseteq> dom (objects sh)" using assms(2) by (rule map_le_implies_dom_le)
  then have "finite (dom m)" using assms(1) by (auto simp: shard_inv_def intro: finite_subset)
  moreover have "ran m \<subseteq> ran (objects sh)"
    using assms(2) by (force simp: map_le_def ran_def dom_def)
  moreover have "inj_on m (dom m)"
    using assms by (auto simp: shard_inv_def map_le_def inj_on_def dom_def)
  ultimately show ?thesis using assms(1) by (auto simp: shard_inv_def)
qed

lemma shard_abort_inv [inv_intros]:
  assumes "shard_inv chk sh" and "enumerates es sh"
  shows "shard_inv chk (shard_abort es tid sh)"
proof -
  note addrs = enumerates_addrs[OF assms]
  let ?sh = "update_cells (object_abort tid) (snd ` set es) sh"
  let ?rs = "map (\<lambda>(k, a). (k, object_can_reap tid (object_abort tid (cells sh ! a)))) es"
  have inv: "shard_inv chk ?sh" by (intro inv_intros assms)
  have d: "distinct (map fst ?rs)"
    using assms(2) by (simp add: enumerates_def case_prod_beta comp_def)
  have "shard_inv chk (reap ?rs ?sh)"
    unfolding reap_def by (rule shard_inv_submap[OF inv])
      (auto simp: map_le_def dom_def fold_reap[OF d] split: if_splits)
  then show ?thesis
    by (simp add: shard_abort_def abort_cells_eq[OF addrs(1,2)] notify_and_remove_inv)
qed


section \<open>The operations on the object map\<close>

lemma shard_read_pass_missing:
  "object_map sh k = None \<Longrightarrow> shard_read_pass tid k sh = (Return (Err ObjectNotFound), sh)"
  by (simp add: object_map_def shard_read_pass_def get_object_def)

lemma shard_read_pass_present:
  assumes "shard_inv chk sh" and "object_map sh k = Some ob" and "object_read tid ob = (r, ob')"
    and "shard_read_pass tid k sh = (p, sh')"
  shows "object_map sh' = (object_map sh)(k \<mapsto> ob')"
    and "case r of Ok v \<Rightarrow> p = Return (Ok v)
      | Err RWFailure.Abort \<Rightarrow> p = Return (Err OrderViolation)
      | Err RWFailure.AbortedNotFound \<Rightarrow> p = Return (Err ObjectNotFoundSpecialCase)
      | Err (RWFailure.WaitFor t) \<Rightarrow> (\<exists>n. p = Suspended n \<and> notifications sh' t = Some n)"
proof -
  from assms(2) obtain a where a: "objects sh k = Some a" "cells sh ! a = ob"
    by (auto simp: object_map_def)
  note m = object_map_set_cell[OF assms(1) a(1), of ob']
  show "object_map sh' = (object_map sh)(k \<mapsto> ob')"
    using assms(3,4) a m
    by (auto simp: shard_read_pass_def get_object_def Let_def
        split: result.splits RWFailure.splits dest!: object_map_suspend)
  show "case r of Ok v \<Rightarrow> p = Return (Ok v)
      | Err RWFailure.Abort \<Rightarrow> p = Return (Err OrderViolation)
      | Err RWFailure.AbortedNotFound \<Rightarrow> p = Return (Err ObjectNotFoundSpecialCase)
      | Err (RWFailure.WaitFor t) \<Rightarrow> (\<exists>n. p = Suspended n \<and> notifications sh' t = Some n)"
    using assms(3,4) a
    by (auto simp: shard_read_pass_def get_object_def Let_def suspend_def get_notification_def
        split: result.splits RWFailure.splits option.splits prod.splits)
qed

text \<open>A write never suspends: the object's write rule either succeeds or aborts.\<close>

lemma shard_write_pass_rejected:
  "object_map sh k = None \<Longrightarrow> \<not> result_is_ok (chk v) \<Longrightarrow>
     shard_write_pass chk dflt tid k v sh = (Return (Err ObjectNotFound), sh)"
  by (simp add: object_map_def shard_write_pass_def get_object_or_insert_if_valid_def)

lemma shard_write_pass_present:
  assumes "shard_inv chk sh" and "chk dflt = Ok ()"
    and "ob = (case object_map sh k of Some ob \<Rightarrow> ob | None \<Rightarrow> object_default dflt (shard_id sh))"
    and "object_map sh k \<noteq> None \<or> result_is_ok (chk v)"
    and "object_write tid v ob = (r, ob')"
    and "shard_write_pass chk dflt tid k v sh = (p, sh')"
  shows "object_map sh' = (object_map sh)(k \<mapsto> ob')"
    and "p = Return (case r of Ok _ \<Rightarrow> Ok () | Err _ \<Rightarrow> Err OrderViolation)"
proof -
  obtain q sh1 where q: "get_object_or_insert_if_valid chk dflt k v sh = (q, sh1)"
    by (cases "get_object_or_insert_if_valid chk dflt k v sh")
  have m1: "object_map sh1 = (object_map sh)(k \<mapsto> ob)"
    using object_map_insert[OF assms(1), of dflt k v] q assms(3,4)
    by (auto split: option.splits)
  have inv1: "shard_inv chk sh1" using get_or_insert_inv[OF assms(1,2), of k v] q by simp
  have "q \<noteq> None"
    using arg_cong[where f = fst, OF q] assms(4) by (cases "objects sh k")
      (auto simp: get_object_or_insert_if_valid_def object_map_def Let_def)
  then obtain a where "q = Some a" by blast
  note q = q[unfolded this]
  note a = get_or_insert_addr[OF assms(1) q]
  have ob: "cells sh1 ! a = ob" using m1 a(1) by (auto simp: object_map_def dest: fun_cong[where x = k])
  note m = object_map_set_cell[OF inv1 a(1), of ob', unfolded m1]
  have r: "r = Ok () \<or> r = Err RWFailure.Abort"
    using assms(5) by (auto simp: object_write_def Let_def split: if_splits)
  with assms(5,6) q ob m show "object_map sh' = (object_map sh)(k \<mapsto> ob')"
    and "p = Return (case r of Ok _ \<Rightarrow> Ok () | Err _ \<Rightarrow> Err OrderViolation)"
    by (auto simp: shard_write_pass_def Let_def)
qed

section \<open>The shard implements the store\<close>

lemma store_of_map_upd:
  "store_of_map (m(k \<mapsto> ob)) =
    \<lparr>committed = (committed (store_of_map m))(k := object_committed_value ob),
     pending = (\<lambda>t. (pending (store_of_map m) t)(k := object_pending_value t ob))\<rparr>"
  by (auto simp: store_of_map_def fun_eq_iff)

lemma store_sel:
  "committed (store_of_map m) k = Option.bind (m k) object_committed_value"
  "pending (store_of_map m) t k = Option.bind (m k) (object_pending_value t)"
  by (simp_all add: store_of_map_def)

lemma object_value_read [simp]:
  "object_committed_value (snd (object_read tid ob)) = object_committed_value ob"
  "object_pending_value t (snd (object_read tid ob)) = object_pending_value t ob"
  by (simp_all add: object_committed_value_def object_pending_value_def)

lemma object_read_value:
  assumes "object_inv chk ob" and "object_read tid ob = (Ok v, ob')"
  shows "(case object_pending_value tid ob of Some v \<Rightarrow> Some v | None \<Rightarrow> object_committed_value ob) = Some v"
proof (rule object_read_cases[OF assms(1), of tid])
  assume later: "\<forall>k \<in> btree_keys (tentative_writes ob). tid < k"
    and "\<not> is_default (committed_timestamp ob)"
    and "object_read tid ob =
      (Ok (obj_value ob), ob\<lparr>read_timestamps := btset_insert tid (read_timestamps ob)\<rparr>)"
  moreover have "btree_get (tentative_writes ob) tid = None"
    using later by (auto simp: btree_get_None_iff)
  ultimately show ?thesis
    using assms(2) by (simp add: object_pending_value_def object_committed_value_def)
qed (use assms(2) in \<open>auto simp: object_pending_value_def\<close>)

lemma shard_read_store:
  assumes "shard_inv chk sh" and "shard_read_pass tid k sh = (p, sh')"
  shows "store_of sh' = store_of sh \<and>
    (\<forall>v. p = Return (Ok v) \<longrightarrow> store_read tid k (store_of sh) = Some v)"
proof (cases "object_map sh k")
  case None
  with assms(2) show ?thesis by (auto simp: shard_read_pass_missing)
next
  case (Some ob)
  obtain r ob' where r: "object_read tid ob = (r, ob')" by (cases "object_read tid ob")
  note read = shard_read_pass_present[OF assms(1) Some r assms(2)]
  from object_value_read(1)[of tid ob] object_value_read(2)[of _ tid ob] r
  have "object_committed_value ob' = object_committed_value ob"
    "object_pending_value t ob' = object_pending_value t ob" for t by simp_all
  with Some have "store_of sh' = store_of sh"
    unfolding read(1) store_of_map_upd
    by (intro store.equality) (simp_all add: fun_eq_iff store_sel)
  moreover have "r = Ok v" if "p = Return (Ok v)" for v
    using read(2) that by (auto split: result.splits RWFailure.splits)
  ultimately show ?thesis
    using object_read_value[OF object_map_inv[OF assms(1) Some], of tid _ ob'] r Some
    by (auto simp: store_read_def store_sel split: option.splits)
qed

text \<open>
  C19. A read implements the store's read: when it returns a value, that is the transaction's own
  pending write if there is one and the committed value otherwise; in every case, an error or a
  suspension included, the contents of the store are unchanged.
\<close>

theorem shard_read_refines:
  assumes "shard_inv chk sh" and "shard_read_pass tid k sh = (p, sh')"
  shows "store_of sh' = store_of sh \<and>
    (\<forall>v. p = Return (Ok v) \<longrightarrow> store_read tid k (store_of sh) = Some v)"
  using assms by (rule shard_read_store)

lemma shard_write_store:
  assumes "shard_inv chk sh" and "chk dflt = Ok ()" and "shard_id sh = n" and "default_id n < tid"
    and "shard_write_pass chk dflt tid k v sh = (p, sh')"
  shows "(p = Return (Ok ()) \<and> store_of sh' = store_write tid k v (store_of sh) \<and>
            (case object_map sh k of None \<Rightarrow> chk v = Ok ()
             | Some ob \<Rightarrow> committed_timestamp ob < tid \<and>
                 (\<forall>r \<in> btree_keys (read_timestamps ob). r \<le> tid))) \<or>
         (p = Return (Err OrderViolation) \<and> store_of sh' = store_of sh \<and>
            (\<exists>ob. object_map sh k = Some ob \<and> (tid \<le> committed_timestamp ob \<or>
                 (\<exists>r \<in> btree_keys (read_timestamps ob). tid < r)))) \<or>
         (p = Return (Err ObjectNotFound) \<and> store_of sh' = store_of sh \<and>
            object_map sh k = None \<and> chk v \<noteq> Ok ())"
proof (cases "object_map sh k = None \<and> chk v \<noteq> Ok ()")
  case True
  with assms(5) shard_write_pass_rejected[of sh k chk v dflt tid] show ?thesis
    by (auto simp: result_is_ok_iff)
next
  case False
  define ob where "ob = (case object_map sh k of Some ob \<Rightarrow> ob | None \<Rightarrow> object_default dflt (shard_id sh))"
  obtain r ob' where r: "object_write tid v ob = (r, ob')" by (cases "object_write tid v ob")
  have "object_map sh k \<noteq> None \<or> result_is_ok (chk v)" using False by (auto simp: result_is_ok_iff)
  note wr = shard_write_pass_present[OF assms(1,2) ob_def this r assms(5)]
  have inv: "object_inv chk ob"
    using object_map_inv[OF assms(1)] object_default_inv[of chk dflt, OF assms(2)]
    by (auto simp: ob_def split: option.split)
  have view: "committed (store_of sh) k = object_committed_value ob"
    "pending (store_of sh) t k = object_pending_value t ob" for t
    by (auto simp: store_sel ob_def object_committed_value_def object_pending_value_def btree_get_def
        split: option.split)
  show ?thesis
  proof (rule object_write_cases[OF inv, of tid v])
    assume late: "tid \<le> committed_timestamp ob \<or> (\<exists>r \<in> btree_keys (read_timestamps ob). tid < r)"
      and "object_write tid v ob = (Err RWFailure.Abort, ob)"
    with r wr have p: "p = Return (Err OrderViolation)" and "ob' = ob" by auto
    have "store_of sh' = store_of sh"
      unfolding wr(1) \<open>ob' = ob\<close>
      by (intro store.equality) (auto simp: store_of_map_upd fun_eq_iff view)
    moreover have "object_map sh k = Some ob"
      using late assms(3,4) by (auto simp: ob_def split: option.splits)
    ultimately show ?thesis using late p by blast
  next
    assume ok: "committed_timestamp ob < tid" "\<forall>r \<in> btree_keys (read_timestamps ob). r \<le> tid"
      and w: "object_write tid v ob = (Ok (), ob\<lparr>tentative_writes :=
         btree_upsert tid (TentativeWrite_update v) (TentativeWrite_new v) (tentative_writes ob)\<rparr>)"
    from r w have "object_write tid v ob = (Ok (), ob')" by simp
    note get = object_write_get[OF inv this]
    have "object_committed_value ob' = object_committed_value ob"
      using r w by (auto simp: object_committed_value_def)
    moreover have "object_pending_value t ob' = (if t = tid then Some v else object_pending_value t ob)" for t
      by (simp add: object_pending_value_def get)
    ultimately have "store_of sh' = store_write tid k v (store_of sh)"
      unfolding wr(1) by (intro store.equality) (auto simp: store_of_map_upd store_write_def fun_eq_iff view)
    moreover have "case object_map sh k of None \<Rightarrow> chk v = Ok ()
             | Some ob \<Rightarrow> committed_timestamp ob < tid \<and> (\<forall>r \<in> btree_keys (read_timestamps ob). r \<le> tid)"
      using ok False by (auto simp: ob_def split: option.splits)
    ultimately show ?thesis using r w wr(2) by auto
  qed
qed

text \<open>
  C18. A write implements the store's write when it succeeds and leaves the store alone when it does
  not. It succeeds exactly when the write is newer than the committed version and not older
  than any registered reader, creating the object first if the key is new and the value passes
  the consistency check; it never suspends.
\<close>

theorem shard_write_refines:
  assumes "shard_inv chk sh" and "chk dflt = Ok ()" and "shard_id sh = n" and "default_id n < tid"
    and "shard_write_pass chk dflt tid k v sh = (p, sh')"
  shows "(p = Return (Ok ()) \<and> store_of sh' = store_write tid k v (store_of sh) \<and>
            (case object_map sh k of None \<Rightarrow> chk v = Ok ()
             | Some ob \<Rightarrow> committed_timestamp ob < tid \<and>
                 (\<forall>r \<in> btree_keys (read_timestamps ob). r \<le> tid))) \<or>
         (p = Return (Err OrderViolation) \<and> store_of sh' = store_of sh \<and>
            (\<exists>ob. object_map sh k = Some ob \<and> (tid \<le> committed_timestamp ob \<or>
                 (\<exists>r \<in> btree_keys (read_timestamps ob). tid < r)))) \<or>
         (p = Return (Err ObjectNotFound) \<and> store_of sh' = store_of sh \<and>
            object_map sh k = None \<and> chk v \<noteq> Ok ())"
  using assms by (rule shard_write_store)

text \<open>The scans, as statements about the set of results: their success does not depend on the order.\<close>

lemma scan_commits_done: "scan_commits rs = ScanDone vs \<Longrightarrow> rs = map (\<lambda>(k, v). (k, Ok v)) vs"
  by (induction rs arbitrary: vs rule: scan_commits.induct) (auto split: scan.splits)

lemma scan_commits_all_ok:
  "(\<forall>r \<in> set rs. result_is_ok (snd r)) \<Longrightarrow> \<exists>vs. scan_commits rs = ScanDone vs"
  by (induction rs rule: scan_commits.induct) auto

lemma scan_checks_done: "scan_checks rs = ScanDone () \<longleftrightarrow> (\<forall>r \<in> set rs. result_is_ok r)"
  by (induction rs rule: scan_checks.induct) auto

lemma commit_obj_value:
  assumes "object_inv chk ob" and "commit_res chk tid ob = Ok w" and "\<not> is_default tid"
  shows "object_committed_value (commit_obj chk tid ob) =
      (case object_pending_value tid ob of Some v \<Rightarrow> Some v | None \<Rightarrow> object_committed_value ob) \<and>
    object_pending_value t (commit_obj chk tid ob) = (if t = tid then None else object_pending_value t ob) \<and>
    success_value w = obj_value (commit_obj chk tid ob) \<and>
    value_changed w = (object_pending_value tid ob \<noteq> None)"
proof (rule object_commit_cases[of tid ob chk])
  assume "tid \<notin> btree_keys (tentative_writes ob)"
    and c: "object_commit chk tid ob = Some (Ok (NoChange (obj_value ob)), ob)"
  then have "btree_get (tentative_writes ob) tid = None" by (simp add: btree_get_None_iff)
  with c assms(2) show ?thesis by (auto simp: object_commit_total object_pending_value_def)
qed (use assms in \<open>auto simp: object_commit_total object_pending_value_def object_committed_value_def
      btree_get_remove\<close>)

lemma shard_commit_store:
  assumes "shard_inv chk sh" and "enumerates es sh" and "\<not> is_default tid"
    and "shard_commit_pass chk es tid sh = Some (Return (Ok r), sh')"
  shows "store_of sh' = store_commit tid (store_of sh) \<and>
    (value_changed r \<longleftrightarrow> pending (store_of sh) tid \<noteq> Map.empty) \<and>
    (\<forall>k. map_of (success_value r) k = map_option obj_value (object_map sh' k))"
proof -
  obtain rs sh1 where c: "commit_cells chk es tid sh = Some (rs, sh1)"
    by (rule commit_cells_some[OF assms(1,2)])
  note m = object_map_commit[OF assms(1,2) c]
  from assms(4) c obtain vs where fin: "scan_commits rs = ScanDone vs"
    and sh': "sh' = notify_and_remove tid sh1"
    and r: "r = (if list_ex (\<lambda>(_, cr). value_changed cr) vs
        then ValueChanged (map (\<lambda>(k, cr). (k, success_value cr)) vs)
        else NoChange (map (\<lambda>(k, cr). (k, success_value cr)) vs))"
    by (auto simp: shard_commit_pass_def Let_def suspend_def split: scan.splits prod.splits)
  have rs: "rs = map (\<lambda>(k, v). (k, Ok v)) vs" using fin by (rule scan_commits_done)
  have vs: "map_of rs k = map_option Ok (map_of vs k)" for k unfolding rs by (simp add: map_of_map)
  have d: "distinct (map fst vs)"
    using m(3) assms(2) by (simp add: rs enumerates_def case_prod_beta comp_def)
  have obj: "\<exists>w. map_of vs k = Some w \<and> commit_res chk tid ob = Ok w" if "object_map sh k = Some ob" for k ob
    using m(2)[of k] vs[of k] that by auto
  note val = commit_obj_value[OF object_map_inv[OF assms(1)] _ assms(3), THEN conjunct1]
    commit_obj_value[OF object_map_inv[OF assms(1)] _ assms(3), THEN conjunct2, THEN conjunct1]
    commit_obj_value[OF object_map_inv[OF assms(1)] _ assms(3), THEN conjunct2, THEN conjunct2, THEN conjunct1]
    commit_obj_value[OF object_map_inv[OF assms(1)] _ assms(3), THEN conjunct2, THEN conjunct2, THEN conjunct2]
  have m': "object_map sh' k = map_option (commit_obj chk tid) (object_map sh k)" for k
    using m(1) by (simp add: sh')
  have "store_of sh' = store_commit tid (store_of sh)"
  proof (intro store.equality ext)
    show "committed (store_of sh') k = committed (store_commit tid (store_of sh)) k" for k
      using obj[of k] val(1)[of k] by (cases "object_map sh k")
        (auto simp: m' store_sel store_commit_def map_add_def split: option.split)
    show "pending (store_of sh') t k = pending (store_commit tid (store_of sh)) t k" for t k
      using obj[of k] val(2)[of k] by (cases "object_map sh k")
        (auto simp: m' store_sel store_commit_def)
  qed simp
  have changed: "(\<exists>w. map_of vs k = Some w \<and> value_changed w) \<longleftrightarrow> pending (store_of sh) tid k \<noteq> None" for k
    using obj[of k] val(4)[of k] vs[of k] m(2)[of k]
    by (cases "object_map sh k") (auto simp: store_sel)
  have "list_ex (\<lambda>(_, cr). value_changed cr) vs \<longleftrightarrow> (\<exists>k w. map_of vs k = Some w \<and> value_changed w)"
    using d by (force simp: list_ex_iff)
  also have "\<dots> \<longleftrightarrow> (\<exists>k. pending (store_of sh) tid k \<noteq> None)"
    using changed by simp
  finally have "value_changed r \<longleftrightarrow> pending (store_of sh) tid \<noteq> Map.empty"
    by (auto simp: r fun_eq_iff)
  moreover have "map_of (success_value r) k = map_option obj_value (object_map sh' k)" for k
    using obj[of k] val(3)[of k] vs[of k] m(2)[of k]
    by (cases "object_map sh k") (auto simp: r map_of_map m')
  ultimately show ?thesis using \<open>store_of sh' = _\<close> by blast
qed

text \<open>
  C16. A commit that returns successfully implements the store's commit: it publishes every pending
  write of the transaction at once and nothing else, for every order in which the object map
  is walked. It reports a change exactly when the transaction had written something here, and
  lists every object of the shard with its value.
\<close>

theorem shard_commit_refines:
  assumes "shard_inv chk sh" and "enumerates es sh" and "\<not> is_default tid"
    and "shard_commit_pass chk es tid sh = Some (Return (Ok r), sh')"
  shows "store_of sh' = store_commit tid (store_of sh) \<and>
    (value_changed r \<longleftrightarrow> pending (store_of sh) tid \<noteq> Map.empty) \<and>
    (\<forall>k. map_of (success_value r) k = map_option obj_value (object_map sh' k))"
  using assms by (rule shard_commit_store)

lemma object_can_reap_after_abort:
  "object_can_reap tid (object_abort tid ob) \<longleftrightarrow>
     is_default (committed_timestamp ob) \<and> btree_remove tid (tentative_writes ob) = []"
  by (auto simp: object_can_reap_def object_abort_def Let_def btree_contains_key_iff)

lemma shard_abort_store:
  assumes "shard_inv chk sh" and "enumerates es sh"
  shows "store_of (shard_abort es tid sh) = store_abort tid (store_of sh) \<and>
    (\<forall>k ob. object_map (shard_abort es tid sh) k = Some ob \<longrightarrow>
       tid \<notin> btree_keys (tentative_writes ob) \<and> tid \<notin> btree_keys (read_timestamps ob) \<and>
       (is_default (committed_timestamp ob) \<longrightarrow> tentative_writes ob \<noteq> []))"
proof -
  note m = object_map_abort[OF assms, of tid]
  have "store_of (shard_abort es tid sh) = store_abort tid (store_of sh)"
  proof (intro store.equality ext)
    fix k t
    show "committed (store_of (shard_abort es tid sh)) k = committed (store_abort tid (store_of sh)) k"
      by (cases "object_map sh k")
        (auto simp: store_sel m store_abort_def object_committed_value_def object_can_reap_after_abort)
    show "pending (store_of (shard_abort es tid sh)) t k = pending (store_abort tid (store_of sh)) t k"
      by (cases "object_map sh k")
        (auto simp: store_sel m store_abort_def object_pending_value_def object_can_reap_after_abort
          btree_get_remove btree_remove_Nil_get)
  qed simp
  then show ?thesis
    by (auto simp: m object_can_reap_after_abort split: option.splits if_splits)
qed

text \<open>
  C17. Aborting implements the store's abort: the committed values stay, the transaction's pending
  writes are gone from every object, it is nobody's registered reader any more, and no object
  that was never committed is left without a pending write.
\<close>

theorem shard_abort_refines:
  assumes "shard_inv chk sh" and "enumerates es sh"
  shows "store_of (shard_abort es tid sh) = store_abort tid (store_of sh) \<and>
    (\<forall>k ob. object_map (shard_abort es tid sh) k = Some ob \<longrightarrow>
       tid \<notin> btree_keys (tentative_writes ob) \<and> tid \<notin> btree_keys (read_timestamps ob) \<and>
       (is_default (committed_timestamp ob) \<longrightarrow> tentative_writes ob \<noteq> []))"
  using assms by (rule shard_abort_store)

section \<open>Interleaved passes\<close>

text \<open>
  The operations as steps of a shard that many transactions use at once, one pass at a time, each
  labelled with the transaction it serves; a suspended operation goes on with another pass.
\<close>

inductive shard_step ::
  "('v \<Rightarrow> (unit, 'e) result) \<Rightarrow> 'v \<Rightarrow> TransactionId \<Rightarrow> ('k, 'v) Shard \<Rightarrow> ('k, 'v) Shard \<Rightarrow> bool"
  for chk :: "'v \<Rightarrow> (unit, 'e) result" and dflt :: 'v
where
  step_read: "shard_read_pass tid k sh = (p, sh') \<Longrightarrow> shard_step chk dflt tid sh sh'"
| step_write: "shard_write_pass chk dflt tid k v sh = (p, sh') \<Longrightarrow> shard_step chk dflt tid sh sh'"
| step_check: "enumerates es sh \<Longrightarrow> shard_check_commit_pass chk es tid sh = Some (p, sh') \<Longrightarrow>
    shard_step chk dflt tid sh sh'"
| step_commit: "enumerates es sh \<Longrightarrow> shard_commit_pass chk es tid sh = Some (p, sh') \<Longrightarrow>
    shard_step chk dflt tid sh sh'"
| step_abort: "enumerates es sh \<Longrightarrow> shard_step chk dflt tid sh (shard_abort es tid sh)"

lemma committed_not_negative:
  assumes "shard_inv check_amount sh" and "committed (store_of sh) k = Some v"
  shows "0 \<le> sint v"
proof -
  from assms(2) obtain ob where ob: "object_map sh k = Some ob" "v = obj_value ob"
    by (cases "object_map sh k") (auto simp: store_sel object_committed_value_def split: if_splits)
  from object_invD(4)[OF object_map_inv[OF assms(1) ob(1)]] ob(2) show ?thesis
    by (simp add: check_amount_Ok_iff)
qed

lemma shard_check_state:
  "shard_check_commit_pass chk es tid sh = Some (p, sh') \<Longrightarrow>
     sh' = sh \<or> (\<exists>t. sh' = snd (get_notification t sh))"
  by (auto simp: shard_check_commit_pass_def Let_def suspend_def case_prod_beta
      split: if_splits scan.splits)

lemma shard_commit_state:
  assumes "shard_commit_pass chk es tid sh = Some (p, sh')"
  obtains rs sh1 where "commit_cells chk es tid sh = Some (rs, sh1)"
    and "sh' = notify_and_remove tid sh1 \<or> (\<exists>t. sh' = snd (get_notification t sh1))"
proof (cases "commit_cells chk es tid sh")
  case (Some q)
  have "sh' = notify_and_remove tid (snd q) \<or> (\<exists>t. sh' = snd (get_notification t (snd q)))"
    using assms Some by (auto simp: shard_commit_pass_def Let_def suspend_def case_prod_beta
        split: scan.splits)
  then show thesis using that[of "fst q" "snd q"] Some by simp
qed (use assms in \<open>simp add: shard_commit_pass_def\<close>)

lemma shard_step_inv:
  assumes "chk dflt = Ok ()" and "shard_step chk dflt tid sh sh'" and "shard_inv chk sh"
  shows "shard_inv chk sh'"
  using assms(2)
proof cases
  case (step_read k p)
  then show ?thesis using shard_read_pass_inv[OF assms(3), of tid k] by simp
next
  case (step_write k v p)
  then show ?thesis using shard_write_pass_inv[OF assms(3,1), of tid k v] by simp
next
  case (step_check es p)
  with shard_check_state[OF step_check(2)] assms(3) show ?thesis by (auto intro: inv_intros)
next
  case (step_commit es p)
  obtain rs sh1 where "commit_cells chk es tid sh = Some (rs, sh1)"
    and "sh' = notify_and_remove tid sh1 \<or> (\<exists>t. sh' = snd (get_notification t sh1))"
    by (rule shard_commit_state[OF step_commit(2)])
  with object_map_commit(4)[OF assms(3) step_commit(1)] show ?thesis by (auto intro: inv_intros)
next
  case (step_abort es)
  with assms(3) show ?thesis by (auto intro: inv_intros)
qed

interpretation shard_run: step_invariant "\<lambda>s. \<exists>n. s = shard_new n"
  "\<lambda>s t. \<exists>tid. shard_step check_amount 0 tid s t" "shard_inv check_amount"
  by unfold_locales (auto intro: inv_intros shard_step_inv[of check_amount 0, rotated])


section \<open>The shard's side of two-phase commit\<close>

definition prepared :: "('v \<Rightarrow> (unit, 'e) result) \<Rightarrow> TransactionId \<Rightarrow> ('k, 'v) Shard \<Rightarrow> bool" where
  "prepared chk tid sh \<longleftrightarrow>
     (\<forall>k ob tw. object_map sh k = Some ob \<longrightarrow> btree_get (tentative_writes ob) tid = Some tw \<longrightarrow>
        btree_first_key (tentative_writes ob) = Some tid \<and> chk (tw_value tw) = Ok ())"

text \<open>
  Firmly prepared: besides, the transaction is a registered reader of everything it has written,
  as it is of every object that existed when it first touched it.
\<close>

definition firmly_prepared :: "('v \<Rightarrow> (unit, 'e) result) \<Rightarrow> TransactionId \<Rightarrow> ('k, 'v) Shard \<Rightarrow> bool" where
  "firmly_prepared chk tid sh \<longleftrightarrow> prepared chk tid sh \<and>
     (\<forall>k ob. object_map sh k = Some ob \<longrightarrow> tid \<in> btree_keys (tentative_writes ob) \<longrightarrow>
        tid \<in> btree_keys (read_timestamps ob))"

lemma object_check_ok_iff:
  "(\<exists>r. object_check_commit chk tid ob = Some (Ok r)) \<longleftrightarrow>
     (\<forall>tw. btree_get (tentative_writes ob) tid = Some tw \<longrightarrow>
        btree_first_key (tentative_writes ob) = Some tid \<and> chk (tw_value tw) = Ok ())"
proof (rule object_check_commit_cases[of tid ob chk])
  assume "tid \<notin> btree_keys (tentative_writes ob)"
    and "object_check_commit chk tid ob = Some (Ok NothingToCommit)"
  then show ?thesis by (simp flip: btree_get_None_iff)
qed (auto elim!: btree_keysE)

lemma object_commit_ok_iff:
  "result_is_ok (commit_res chk tid ob) \<longleftrightarrow> (\<exists>r. object_check_commit chk tid ob = Some (Ok r))"
  by (rule object_check_commit_cases[of tid ob chk])
    (auto simp: commit_res_def object_commit_def Let_def result_is_ok_iff split: result.split)

lemma object_check_total: "object_check_commit chk tid ob \<noteq> None"
  by (rule object_check_commit_cases[of tid ob chk]) auto

lemma enumerates_mem:
  "enumerates es sh \<Longrightarrow> (k, a) \<in> set es \<longleftrightarrow> objects sh k = Some a"
  unfolding enumerates_def by (metis map_of_eq_Some_iff)

lemma check_ok_iff_prepared:
  assumes "enumerates es sh"
  shows "shard_check_commit_pass chk es tid sh = Some (Return (Ok ()), sh') \<longleftrightarrow>
    prepared chk tid sh \<and> sh' = sh"
proof -
  let ?rs = "map (\<lambda>(k, a). object_check_commit chk tid (cells sh ! a)) es"
  have "None \<notin> set ?rs"
  proof
    assume "None \<in> set ?rs"
    then obtain a where "object_check_commit chk tid (cells sh ! a) = None"
      by (auto dest: sym)
    then show False using object_check_total by blast
  qed
  moreover have "scan_checks (map the ?rs) = ScanDone () \<longleftrightarrow> prepared chk tid sh"
  proof -
    have ok: "result_is_ok (the (object_check_commit chk tid ob)) \<longleftrightarrow>
        (\<exists>r. object_check_commit chk tid ob = Some (Ok r))" for ob
      using object_check_total[of chk tid ob] by (auto simp: result_is_ok_iff)
    have "scan_checks (map the ?rs) = ScanDone () \<longleftrightarrow>
        (\<forall>k a. objects sh k = Some a \<longrightarrow>
           result_is_ok (the (object_check_commit chk tid (cells sh ! a))))"
      unfolding scan_checks_done enumerates_mem[OF assms, symmetric] by force
    also have "\<dots> \<longleftrightarrow> (\<forall>k ob. object_map sh k = Some ob \<longrightarrow>
        result_is_ok (the (object_check_commit chk tid ob)))"
      by (auto simp: object_map_def)
    also have "\<dots> \<longleftrightarrow> prepared chk tid sh"
      unfolding ok object_check_ok_iff prepared_def by blast
    finally show ?thesis .
  qed
  ultimately show ?thesis
    by (auto simp: shard_check_commit_pass_def Let_def suspend_def simp del: map_map split: scan.splits prod.splits)
qed

lemma prepared_commits:
  assumes "shard_inv chk sh" and "enumerates es sh" and "prepared chk tid sh"
  obtains r sh' where "shard_commit_pass chk es tid sh = Some (Return (Ok r), sh')"
proof -
  obtain rs sh1 where c: "commit_cells chk es tid sh = Some (rs, sh1)"
    by (rule commit_cells_some[OF assms(1,2)])
  note m = object_map_commit[OF assms(1,2) c]
  have "result_is_ok r" if "(k, r) \<in> set rs" for k r
  proof -
    have "map_of rs k = Some r"
      using that m(3) assms(2) by (auto simp: enumerates_def intro!: map_of_is_SomeI)
    then obtain ob where "object_map sh k = Some ob" "r = commit_res chk tid ob" using m(2) by auto
    with assms(3) show ?thesis
      by (auto simp: object_commit_ok_iff object_check_ok_iff prepared_def)
  qed
  then have "\<forall>r \<in> set rs. result_is_ok (snd r)" by auto
  then obtain vs where "scan_commits rs = ScanDone vs" using scan_commits_all_ok by blast
  with c show thesis using that by (auto simp: shard_commit_pass_def Let_def)
qed


text \<open>
  A successful check and an immediately following commit agree: for every two orders in which
  the map is walked, once the check has returned Ok the commit returns Ok as well; it neither
  fails nor suspends.
\<close>

theorem commit_after_check:
  assumes "shard_inv chk sh" and "enumerates es sh"
    and "shard_check_commit_pass chk es tid sh = Some (Return (Ok ()), sh')"
    and "enumerates es' sh'"
  shows "\<exists>r sh''. shard_commit_pass chk es' tid sh' = Some (Return (Ok r), sh'')"
proof -
  from assms(3) have "prepared chk tid sh" and "sh' = sh"
    unfolding check_ok_iff_prepared[OF assms(2)] by simp_all
  with assms(1,4) show ?thesis using prepared_commits by metis
qed

text \<open>How one object moves under a step of another transaction.\<close>

definition obj_firm :: "('v \<Rightarrow> (unit, 'e) result) \<Rightarrow> TransactionId \<Rightarrow> 'v TimestampedObject \<Rightarrow> bool" where
  "obj_firm chk tid ob \<longleftrightarrow>
     (\<forall>tw. btree_get (tentative_writes ob) tid = Some tw \<longrightarrow>
        btree_first_key (tentative_writes ob) = Some tid \<and> chk (tw_value tw) = Ok () \<and>
        tid \<in> btree_keys (read_timestamps ob))"

lemma firmly_prepared_iff:
  "firmly_prepared chk tid sh \<longleftrightarrow> (\<forall>k ob. object_map sh k = Some ob \<longrightarrow> obj_firm chk tid ob)"
  unfolding firmly_prepared_def prepared_def obj_firm_def
  by (fastforce elim: btree_keysE simp flip: btree_get_None_iff)

lemma first_key_eqI:
  assumes "btree_inv m" and "k \<in> btree_keys m" and "\<And>k'. k' \<in> btree_keys m \<Longrightarrow> k \<le> k'"
  shows "btree_first_key m = Some k"
proof -
  have "Min (btree_keys m) = k" using assms by (intro Min_eqI) auto
  with assms show ?thesis by (auto simp: bt.first_least dom_btree_get)
qed

lemma btree_first_key_le:
  "btree_inv m \<Longrightarrow> btree_first_key m = Some k \<Longrightarrow> k' \<in> btree_keys m \<Longrightarrow> k \<le> k'"
  using bt.first_key_le by (auto elim!: btree_keysE)

lemma obj_firm_read:
  assumes "obj_firm chk tid ob"
  shows "obj_firm chk tid (snd (object_read t ob))"
proof -
  have "btree_keys (read_timestamps ob) \<subseteq> btree_keys (read_timestamps (snd (object_read t ob)))"
    by (auto simp: object_read_def split: option.split)
  with assms show ?thesis by (auto simp: obj_firm_def)
qed

lemma obj_firm_write:
  assumes "object_inv chk ob" and "obj_firm chk tid ob" and "t \<noteq> tid"
  shows "obj_firm chk tid (snd (object_write t v ob))"
proof (rule object_write_cases[OF assms(1), of t v])
  assume late: "\<forall>r \<in> btree_keys (read_timestamps ob). r \<le> t"
    and w: "object_write t v ob = (Ok (), ob\<lparr>tentative_writes :=
         btree_upsert t (TentativeWrite_update v) (TentativeWrite_new v) (tentative_writes ob)\<rparr>)"
  note inv = object_invD(1)[OF assms(1)]
  show ?thesis unfolding obj_firm_def
  proof (intro allI impI)
    fix tw
    assume "btree_get (tentative_writes (snd (object_write t v ob))) tid = Some tw"
    with w inv assms(3) have g: "btree_get (tentative_writes ob) tid = Some tw"
      by (simp add: bt.get_upsert)
    with assms(2) have f: "btree_first_key (tentative_writes ob) = Some tid" "chk (tw_value tw) = Ok ()"
      "tid \<in> btree_keys (read_timestamps ob)" by (auto simp: obj_firm_def)
    from g have "tid \<in> btree_keys (tentative_writes ob)" by (auto simp flip: dom_btree_get)
    then have "btree_first_key (tentative_writes (snd (object_write t v ob))) = Some tid"
      using f late inv btree_first_key_le[OF inv f(1)]
      by (intro first_key_eqI) (auto simp: w btree_upsert_inv)
    with f w show "btree_first_key (tentative_writes (snd (object_write t v ob))) = Some tid \<and>
        chk (tw_value tw) = Ok () \<and> tid \<in> btree_keys (read_timestamps (snd (object_write t v ob)))"
      by simp
  qed
qed (use assms in simp)

lemma obj_firm_remove:
  assumes "object_inv chk ob" and "obj_firm chk tid ob" and "t \<noteq> tid"
    and "tentative_writes ob' = btree_remove t (tentative_writes ob)"
    and "btree_keys (read_timestamps ob) - {t} \<subseteq> btree_keys (read_timestamps ob')"
  shows "obj_firm chk tid ob'"
  unfolding obj_firm_def
proof (intro allI impI)
  fix tw
  note inv = object_invD(1)[OF assms(1)]
  assume "btree_get (tentative_writes ob') tid = Some tw"
  with assms(3,4) have g: "btree_get (tentative_writes ob) tid = Some tw"
    by (simp add: btree_get_remove)
  with assms(2) have f: "btree_first_key (tentative_writes ob) = Some tid" "chk (tw_value tw) = Ok ()"
    "tid \<in> btree_keys (read_timestamps ob)" by (auto simp: obj_firm_def)
  from g have "tid \<in> btree_keys (tentative_writes ob)" by (auto simp flip: dom_btree_get)
  then have "btree_first_key (tentative_writes ob') = Some tid"
    using assms(3,4) inv btree_first_key_le[OF inv f(1)]
    by (intro first_key_eqI) (auto simp: btree_remove_inv)
  with f assms(3,5) show "btree_first_key (tentative_writes ob') = Some tid \<and>
      chk (tw_value tw) = Ok () \<and> tid \<in> btree_keys (read_timestamps ob')" by auto
qed

lemma obj_firm_abort:
  "object_inv chk ob \<Longrightarrow> obj_firm chk tid ob \<Longrightarrow> t \<noteq> tid \<Longrightarrow> obj_firm chk tid (object_abort t ob)"
  by (rule obj_firm_remove) auto

lemma obj_firm_commit:
  assumes "object_inv chk ob" and "obj_firm chk tid ob" and "t \<noteq> tid"
  shows "obj_firm chk tid (commit_obj chk t ob)"
proof (rule object_commit_cases[of t ob chk])
  fix tw
  assume "object_commit chk t ob = Some (Ok (ValueChanged (tw_value tw)),
         ob\<lparr>tentative_writes := btree_remove t (tentative_writes ob),
            committed_timestamp := t, obj_value := tw_value tw\<rparr>)"
  then show ?thesis by (intro obj_firm_remove[OF assms]) (auto simp: commit_obj_def)
qed (use assms in \<open>auto simp: commit_obj_def\<close>)


lemma firm_step:
  assumes "chk dflt = Ok ()" and "shard_step chk dflt t sh sh'" and "t \<noteq> tid"
    and "shard_inv chk sh" and "firmly_prepared chk tid sh"
  shows "firmly_prepared chk tid sh'"
  using assms(2)
proof cases
  case (step_read k p)
  show ?thesis
  proof (cases "object_map sh k")
    case None
    with step_read assms(5) show ?thesis by (simp add: shard_read_pass_missing)
  next
    case (Some ob)
    obtain r ob' where r: "object_read t ob = (r, ob')" by (cases "object_read t ob")
    have "obj_firm chk tid ob'"
      using obj_firm_read[of chk tid ob t] assms(5) Some r by (auto simp: firmly_prepared_iff)
    with shard_read_pass_present(1)[OF assms(4) Some r step_read] assms(5) show ?thesis
      by (auto simp: firmly_prepared_iff)
  qed
next
  case (step_write k v p)
  show ?thesis
  proof (cases "object_map sh k \<noteq> None \<or> result_is_ok (chk v)")
    case True
    define ob where "ob = (case object_map sh k of Some ob \<Rightarrow> ob | None \<Rightarrow> object_default dflt (shard_id sh))"
    obtain r ob' where r: "object_write t v ob = (r, ob')" by (cases "object_write t v ob")
    have "object_inv chk ob" "obj_firm chk tid ob"
      using object_map_inv[OF assms(4)] object_default_inv[of chk dflt, OF assms(1)] assms(5)
      by (auto simp: ob_def firmly_prepared_iff obj_firm_def btree_get_def split: option.split)
    then have "obj_firm chk tid ob'" using obj_firm_write[of chk ob tid t v] assms(3) r by simp
    with shard_write_pass_present(1)[OF assms(4,1) ob_def True r step_write] assms(5) show ?thesis
      by (auto simp: firmly_prepared_iff)
  next
    case False
    with step_write assms(5) shard_write_pass_rejected[of sh k chk v dflt t] show ?thesis by auto
  qed
next
  case (step_check es p)
  with shard_check_state[OF step_check(2)] assms(5) show ?thesis by (auto simp: firmly_prepared_iff)
next
  case (step_commit es p)
  obtain rs sh1 where c: "commit_cells chk es t sh = Some (rs, sh1)"
    and "sh' = notify_and_remove t sh1 \<or> (\<exists>t. sh' = snd (get_notification t sh1))"
    by (rule shard_commit_state[OF step_commit(2)])
  then have "object_map sh' k = map_option (commit_obj chk t) (object_map sh k)" for k
    using object_map_commit(1)[OF assms(4) step_commit(1) c] by auto
  with assms(3-5) show ?thesis
    by (auto simp: firmly_prepared_iff intro!: obj_firm_commit object_map_inv)
next
  case (step_abort es)
  with assms(3-5) object_map_abort[OF assms(4) step_abort(2)] show ?thesis
    by (auto simp: firmly_prepared_iff intro!: obj_firm_abort object_map_inv
        split: option.splits if_splits)
qed

text \<open>
  C13. The promise of a participant. Once the check of a transaction has returned Ok, in whatever
  order it walked the objects, and the transaction is registered as a reader of everything it
  wrote (as it is when it read each account before writing it), no interleaving of reads, writes, checks, commits and aborts of
  other transactions can take the promise back: when the commit comes, it succeeds.
\<close>

theorem check_promise_kept:
  assumes "shard_inv check_amount sh" and "enumerates es sh"
    and "shard_check_commit_pass check_amount es tid sh = Some (Return (Ok ()), sh0)"
    and "\<forall>k ob. object_map sh k = Some ob \<longrightarrow> tid \<in> btree_keys (tentative_writes ob) \<longrightarrow>
      tid \<in> btree_keys (read_timestamps ob)"
    and "(\<lambda>s s'. \<exists>t. t \<noteq> tid \<and> shard_step check_amount 0 t s s')\<^sup>*\<^sup>* sh0 sh'"
    and "enumerates es' sh'"
  shows "\<exists>r sh''. shard_commit_pass check_amount es' tid sh' = Some (Return (Ok r), sh'')"
proof -
  have firm: "firmly_prepared check_amount tid sh" and sh0: "sh0 = sh"
    using assms(3)[unfolded check_ok_iff_prepared[OF assms(2)]] assms(4) by (auto simp: firmly_prepared_def)
  from assms(5) have "shard_inv check_amount sh' \<and> firmly_prepared check_amount tid sh'"
  proof (induction rule: rtranclp_induct)
    case base
    from assms(1) firm sh0 show ?case by simp
  next
    case (step s s')
    then show ?case
      using shard_step_inv[of check_amount 0] firm_step[of check_amount 0] by auto
  qed
  then show ?thesis
    using assms(6) prepared_commits unfolding firmly_prepared_def by metis
qed

section \<open>A shard to evaluate on\<close>

text \<open>
  Account A.x holds 10, committed by a first transaction; transaction 5 has read it and written 20.
\<close>

definition demo_shard :: "(string, Amount) Shard" where
  "demo_shard =
     \<lparr>shard_id = CHR ''A'', objects = [''A.x'' \<mapsto> 0], notifications = Map.empty,
      cells = [\<lparr>obj_value = 10, committed_timestamp = tx_at 1, read_timestamps = [(tx_at 5, ())],
                tentative_writes = [(tx_at 5, TentativeWrite_new 20)]\<rparr>],
      next_notify = 0, notify_calls = []\<rparr>"

abbreviation demo_entries :: "(string \<times> addr) list" where
  "demo_entries \<equiv> [(''A.x'', 0)]"

lemmas shard_eval = shard_new_def get_object_or_insert_if_valid_def get_object_def set_cell_def
  shard_read_pass_def shard_write_pass_def shard_check_commit_pass_def shard_commit_pass_def
  shard_abort_def reap_def notify_and_remove_def get_notification_def suspend_def object_eval

lemma demo_facts:
  shows "shard_inv check_amount demo_shard" and "enumerates demo_entries demo_shard"
    and "firmly_prepared check_amount (tx_at 5) demo_shard"
  by (simp_all add: demo_shard_def shard_inv_def object_inv_def btree_inv_def btree_keys_def
      check_amount_def TentativeWrite_new_def enumerates_def firmly_prepared_def prepared_def
      object_map_def btree_get_def)

lemma demo_passes:
  shows "shard_read_pass (tx_at 5) ''A.x'' demo_shard = (Return (Ok 20), demo_shard)"
    and "fst (shard_write_pass check_amount 0 (tx_at 4) ''A.x'' 30 demo_shard) = Return (Err OrderViolation)"
    and "shard_check_commit_pass check_amount demo_entries (tx_at 5) demo_shard =
      Some (Return (Ok ()), demo_shard)"
    and "map_option fst (shard_commit_pass check_amount demo_entries (tx_at 5) demo_shard) =
      Some (Return (Ok (ValueChanged [(''A.x'', 20)])))"
  by (simp_all add: demo_shard_def shard_eval)

theorem shard_read_refines_witness: "store_read (tx_at 5) ''A.x'' (store_of demo_shard) = Some 20"
  using shard_read_refines[OF demo_facts(1) demo_passes(1)] by simp

theorem shard_write_refines_witness:
  "store_of (snd (shard_write_pass check_amount 0 (tx_at 4) ''A.x'' 30 demo_shard)) = store_of demo_shard"
proof -
  obtain p sh' where r: "shard_write_pass check_amount 0 (tx_at 4) ''A.x'' 30 demo_shard = (p, sh')"
    by (cases "shard_write_pass check_amount 0 (tx_at 4) ''A.x'' 30 demo_shard")
  have "default_id CHR ''A'' < tx_at 4" by (simp add: default_id_def)
  from shard_write_refines[OF demo_facts(1) check_amount_zero _ this r] demo_passes(2) r show ?thesis
    by (auto simp: demo_shard_def)
qed

theorem shard_commit_refines_witness:
  "committed (store_commit (tx_at 5) (store_of demo_shard)) ''A.x'' = Some 20"
proof -
  obtain sh' where r: "shard_commit_pass check_amount demo_entries (tx_at 5) demo_shard =
      Some (Return (Ok (ValueChanged [(''A.x'', 20)])), sh')"
    using demo_passes(4) by auto
  then have sh': "object_map sh' ''A.x'' = Some \<lparr>obj_value = 20, committed_timestamp = tx_at 5,
      read_timestamps = [(tx_at 5, ())], tentative_writes = []\<rparr>"
    by (simp add: demo_shard_def shard_eval) (auto simp: object_map_def)
  have "\<not> is_default (tx_at 5)" by (simp add: is_default_def)
  from shard_commit_refines[OF demo_facts(1,2) this r] sh' show ?thesis
    by (auto simp: store_sel object_committed_value_def is_default_def simp flip: store_of_map_def dest: sym)
qed

theorem shard_abort_refines_witness:
  "pending (store_of (shard_abort demo_entries (tx_at 5) demo_shard)) (tx_at 5) = Map.empty"
  using shard_abort_refines[OF demo_facts(1,2), of "tx_at 5"] by (simp add: store_abort_def)

theorem commit_after_check_witness:
  "\<exists>r sh''. shard_commit_pass check_amount demo_entries (tx_at 5) demo_shard = Some (Return (Ok r), sh'')"
  by (rule commit_after_check[OF demo_facts(1,2) demo_passes(3) demo_facts(2)])

text \<open>The promise outlives a newer transaction that writes the same account.\<close>

theorem check_promise_kept_witness:
  "\<exists>r sh''. shard_commit_pass check_amount demo_entries (tx_at 5)
     (snd (shard_write_pass check_amount 0 (tx_at 7) ''A.x'' 99 demo_shard)) = Some (Return (Ok r), sh'')"
proof (rule check_promise_kept[OF demo_facts(1,2) demo_passes(3)])
  let ?sh = "snd (shard_write_pass check_amount 0 (tx_at 7) ''A.x'' 99 demo_shard)"
  have "shard_step check_amount 0 (tx_at 7) demo_shard ?sh"
    by (rule shard_step.step_write[of _ _ _ "''A.x''" 99 _ "fst (shard_write_pass check_amount 0 (tx_at 7) ''A.x'' 99 demo_shard)"]) simp
  then show "(\<lambda>s s'. \<exists>t. t \<noteq> tx_at 5 \<and> shard_step check_amount 0 t s s')\<^sup>*\<^sup>* demo_shard ?sh"
    by (intro r_into_rtranclp exI[of _ "tx_at 7"]) simp
  show "enumerates demo_entries ?sh"
    by (simp add: demo_shard_def shard_eval enumerates_def)
  show "\<forall>k ob. object_map demo_shard k = Some ob \<longrightarrow> tx_at 5 \<in> btree_keys (tentative_writes ob) \<longrightarrow>
      tx_at 5 \<in> btree_keys (read_timestamps ob)"
    using demo_facts(3) by (simp add: firmly_prepared_def)
qed

end
