(* ===== verification/Shard_Waiting.thy ===== *)
theory Shard_Waiting
  imports Shard_Spec
begin

text \<open>
  Waiting on a shard: whom a suspended operation waits for, who wakes it up, and that waiting ends.
  Every wait points from a transaction to an older one that still has a pending write, so no
  set of transactions waits in a circle; a commit or an abort fires the notification of its
  transaction; and a sleeping task is woken or still has an older transaction to wait for,
  whatever anybody does on the shard, so that a read returns once those have finished.
\<close>

section \<open>Waits point to older transactions\<close>

lemma suspend_eq:
  assumes "suspend t sh = (Suspended n, sh')"
  shows "notifications sh' t = Some n \<and> object_map sh' = object_map sh"
  using assms object_map_suspend[OF assms]
  by (auto simp: suspend_def get_notification_def split: option.splits prod.splits)

lemma pending_iff:
  "pending (store_of sh) t k \<noteq> None \<longleftrightarrow>
     (\<exists>ob. object_map sh k = Some ob \<and> t \<in> btree_keys (tentative_writes ob))"
  by (cases "object_map sh k") (auto simp: store_sel object_pending_value_def btree_get_None_iff)

lemma read_suspended:
  assumes "shard_inv chk sh" and "shard_read_pass tid k sh = (Suspended n, sh')"
  shows "\<exists>t. t < tid \<and> notifications sh' t = Some n \<and> pending (store_of sh') t k \<noteq> None"
proof (cases "object_map sh k")
  case None
  with assms(2) show ?thesis by (simp add: shard_read_pass_missing)
next
  case (Some ob)
  obtain r ob' where r: "object_read tid ob = (r, ob')" by (cases "object_read tid ob")
  note rd = shard_read_pass_present[OF assms(1) Some r assms(2)]
  from rd(2) obtain t where t: "r = Err (RWFailure.WaitFor t)" "notifications sh' t = Some n"
    by (auto split: result.splits RWFailure.splits)
  then have "t < tid \<and> t \<in> btree_keys (tentative_writes ob')"
    using r object_map_inv[OF assms(1) Some] by (rule_tac object_read_cases[of chk ob tid]) auto
  with t rd(1) show ?thesis unfolding pending_iff by auto
qed

lemma scan_checks_wait: "scan_checks rs = ScanWait t \<Longrightarrow> Err (CommitFailure.WaitFor t) \<in> set rs"
  by (induction rs rule: scan_checks.induct) auto

lemma scan_commits_wait:
  "scan_commits rs = ScanWait t \<Longrightarrow> \<exists>k. (k, Err (CommitFailure.WaitFor t)) \<in> set rs"
  by (induction rs rule: scan_commits.induct) (auto split: scan.splits)

lemma check_wait_older:
  assumes "object_inv chk ob" and "object_check_commit chk tid ob = Some (Err (CommitFailure.WaitFor t))"
  shows "t < tid \<and> t \<in> btree_keys (tentative_writes ob)"
  using assms(2)
proof (rule_tac object_check_commit_cases[of tid ob chk])
  fix u
  assume u: "btree_first_key (tentative_writes ob) = Some u" "u \<noteq> tid"
    "tid \<in> btree_keys (tentative_writes ob)"
    "object_check_commit chk tid ob = Some (Err (CommitFailure.WaitFor u))"
  from u(1) have "u \<in> btree_keys (tentative_writes ob)" by (cases "tentative_writes ob") auto
  with u btree_first_key_le[OF object_invD(1)[OF assms(1)] u(1) u(3)] assms(2) show ?thesis by auto
qed (auto split: result.splits elim: map_err.elims map_ok.elims)

lemma check_suspended:
  assumes "shard_inv chk sh" and "enumerates es sh"
    and "shard_check_commit_pass chk es tid sh = Some (Suspended n, sh')"
  shows "\<exists>t k. t < tid \<and> notifications sh' t = Some n \<and> pending (store_of sh') t k \<noteq> None"
proof -
  let ?rs = "map (\<lambda>(k, a). object_check_commit chk tid (cells sh ! a)) es"
  from assms(3) obtain t where "scan_checks (map the ?rs) = ScanWait t"
    and s: "notifications sh' t = Some n" "object_map sh' = object_map sh"
    by (auto simp: shard_check_commit_pass_def Let_def split: if_splits scan.splits dest!: suspend_eq)
  from scan_checks_wait[OF this(1)] obtain k a where ka: "(k, a) \<in> set es"
    and w: "the (object_check_commit chk tid (cells sh ! a)) = Err (CommitFailure.WaitFor t)" by auto
  from w have w: "object_check_commit chk tid (cells sh ! a) = Some (Err (CommitFailure.WaitFor t))"
    using object_check_total[of chk tid "cells sh ! a"] by auto
  have ob: "object_map sh k = Some (cells sh ! a)"
    using ka assms(2) by (auto simp: object_map_def enumerates_def dest!: map_of_is_SomeI)
  from check_wait_older[OF object_map_inv[OF assms(1) ob] w] ob
  have "t < tid" "pending (store_of sh) t k \<noteq> None" unfolding pending_iff by auto
  with s show ?thesis by auto
qed

lemma commit_suspended:
  assumes "shard_inv chk sh" and "enumerates es sh"
    and "shard_commit_pass chk es tid sh = Some (Suspended n, sh')"
  shows "\<exists>t k. t < tid \<and> notifications sh' t = Some n \<and> pending (store_of sh') t k \<noteq> None"
proof -
  obtain rs sh1 where c: "commit_cells chk es tid sh = Some (rs, sh1)"
    by (rule commit_cells_some[OF assms(1,2)])
  note m = object_map_commit[OF assms(1,2) c]
  from assms(3) c obtain t where "scan_commits rs = ScanWait t"
    and s: "notifications sh' t = Some n" "object_map sh' = object_map sh1"
    by (auto simp: shard_commit_pass_def Let_def split: scan.splits dest!: suspend_eq)
  from scan_commits_wait[OF this(1)] obtain k where "(k, Err (CommitFailure.WaitFor t)) \<in> set rs" by blast
  then have "map_of rs k = Some (Err (CommitFailure.WaitFor t))"
    using m(3) assms(2) by (auto simp: enumerates_def intro!: map_of_is_SomeI)
  with m(2)[of k] obtain ob where ob: "object_map sh k = Some ob"
    and w: "commit_res chk tid ob = Err (CommitFailure.WaitFor t)"
    by (cases "object_map sh k") auto
  have "object_check_commit chk tid ob = Some (Err (CommitFailure.WaitFor t)) \<and> commit_obj chk tid ob = ob"
    using w by (rule_tac object_check_commit_cases[of tid ob chk])
      (auto simp: commit_res_def commit_obj_def object_commit_def Let_def split: result.splits)
  with check_wait_older[OF object_map_inv[OF assms(1) ob]] ob m(1)[of k]
  have "t < tid" "pending (store_of sh1) t k \<noteq> None" unfolding pending_iff by auto
  with s show ?thesis by auto
qed

text \<open>
  C20. No deadlock among transactions: whenever a read, a check or a commit is suspended, it is on
  the notification of a strictly older transaction that has a pending write on the shard, so
  waits cannot form a cycle and the oldest transaction with pending writes never waits.
\<close>

theorem waits_for_older:
  assumes "shard_inv chk sh" and "enumerates es sh"
    and "shard_read_pass tid k sh = (Suspended n, sh') \<or>
      shard_check_commit_pass chk es tid sh = Some (Suspended n, sh') \<or>
      shard_commit_pass chk es tid sh = Some (Suspended n, sh')"
  shows "\<exists>t k'. t < tid \<and> notifications sh' t = Some n \<and> pending (store_of sh') t k' \<noteq> None"
  using assms(3) read_suspended[OF assms(1)] check_suspended[OF assms(1,2)] commit_suspended[OF assms(1,2)]
  by blast

lemma demo_read_suspended:
  "\<exists>sh'. shard_read_pass (tx_at 6) ''A.x'' demo_shard = (Suspended 0, sh')"
  by (simp add: demo_shard_def shard_eval)

theorem waits_for_older_witness:
  "\<exists>t k'. t < tx_at 6 \<and> pending (store_of (snd (shard_read_pass (tx_at 6) ''A.x'' demo_shard))) t k' \<noteq> None"
proof -
  from demo_read_suspended obtain sh' where
    r: "shard_read_pass (tx_at 6) ''A.x'' demo_shard = (Suspended 0, sh')" ..
  from waits_for_older[OF demo_facts(1,2) disjI1, OF r] r show ?thesis by auto
qed

section \<open>Finishing wakes up the waiters\<close>

lemma notify_and_remove_wakes:
  "notifications sh t = Some n \<Longrightarrow> n \<in> set (notify_calls (notify_and_remove t sh)) \<and>
     notifications (notify_and_remove t sh) t = None"
  by (simp add: notify_and_remove_def)

lemma abort_cells_frame:
  assumes "abort_cells es tid sh = (rs, sh')"
  shows "notifications sh' = notifications sh" and "notify_calls sh' = notify_calls sh"
  using assms by (induction es tid sh arbitrary: rs rule: abort_cells.induct)
    (auto simp: set_cell_def Let_def split: prod.splits)

text \<open>
  C21. Finishing wakes the waiters: an abort, and a commit that succeeds, fire the notification
  other transactions wait on, remove it so that it fires once, and leave no pending write of
  the transaction behind, so that whoever is woken does not wait for it again.
\<close>

theorem finish_wakes_waiters:
  assumes "shard_inv chk sh" and "enumerates es sh" and "\<not> is_default t" and "notifications sh t = Some n"
    and "sh' = shard_abort es t sh \<or> (\<exists>r. shard_commit_pass chk es t sh = Some (Return (Ok r), sh'))"
  shows "n \<in> set (notify_calls sh') \<and> notifications sh' t = None \<and> pending (store_of sh') t = Map.empty"
  using assms(5)
proof
  assume sh': "sh' = shard_abort es t sh"
  obtain rs sh1 where a: "abort_cells es t sh = (rs, sh1)" by (cases "abort_cells es t sh")
  have "sh' = notify_and_remove t (reap rs sh1)" by (simp add: sh' shard_abort_def a)
  moreover have "notifications (reap rs sh1) t = Some n"
    using abort_cells_frame[OF a] assms(4) by (simp add: reap_def)
  ultimately show ?thesis
    using notify_and_remove_wakes[of "reap rs sh1" t n] shard_abort_store[OF assms(1,2), of t] sh'
    by (simp add: store_abort_def)
next
  assume "\<exists>r. shard_commit_pass chk es t sh = Some (Return (Ok r), sh')"
  then obtain r where r: "shard_commit_pass chk es t sh = Some (Return (Ok r), sh')" ..
  obtain rs sh1 where c: "commit_cells chk es t sh = Some (rs, sh1)"
    by (rule commit_cells_some[OF assms(1,2)])
  with r have sh': "sh' = notify_and_remove t sh1"
    by (auto simp: shard_commit_pass_def Let_def suspend_def split: scan.splits prod.splits)
  have "notifications sh1 = notifications sh"
    using commit_cells_eq[OF enumerates_addrs(1,2)[OF assms(1,2)], of chk t] c by auto
  with assms(4) sh' shard_commit_store[OF assms(1-3) r] show ?thesis
    using notify_and_remove_wakes[of sh1 t n] by (simp add: store_commit_def)
qed

lemma demo_waited_on:
  "let sh = snd (shard_read_pass (tx_at 6) ''A.x'' demo_shard)
   in shard_inv check_amount sh \<and> enumerates demo_entries sh \<and> notifications sh (tx_at 5) = Some 0"
proof -
  have "shard_inv check_amount (snd (shard_read_pass (tx_at 6) ''A.x'' demo_shard))"
    using shard_read_pass_inv[OF demo_facts(1)] .
  then show ?thesis by (simp add: Let_def) (simp add: demo_shard_def shard_eval enumerates_def)
qed

theorem finish_wakes_waiters_witness:
  "0 \<in> set (notify_calls (shard_abort demo_entries (tx_at 5)
     (snd (shard_read_pass (tx_at 6) ''A.x'' demo_shard))))"
proof -
  let ?sh = "snd (shard_read_pass (tx_at 6) ''A.x'' demo_shard)"
  note d = demo_waited_on[unfolded Let_def]
  have "\<not> is_default (tx_at 5)" by (simp add: is_default_def)
  from finish_wakes_waiters[OF conjunct1[OF d] conjunct1[OF conjunct2[OF d]] this
      conjunct2[OF conjunct2[OF d]] disjI1[OF refl]]
  show ?thesis by simp
qed

section \<open>Sleepers\<close>

definition has_pending :: "TransactionId \<Rightarrow> ('k, 'v) Shard \<Rightarrow> bool" where
  "has_pending t sh \<longleftrightarrow> (\<exists>k. pending (store_of sh) t k \<noteq> None)"

text \<open>
  What a task of transaction \<open>tid\<close> asleep on \<open>n\<close> can rely on: the notification has been fired,
  or it is the one an older transaction with a pending write will fire.
\<close>

definition waits :: "TransactionId \<Rightarrow> notify \<Rightarrow> ('k, 'v) Shard \<Rightarrow> bool" where
  "waits tid n sh \<longleftrightarrow> n \<in> set (notify_calls sh) \<or>
     (\<exists>t. t < tid \<and> notifications sh t = Some n \<and> has_pending t sh)"

lemma has_pending_iff:
  "has_pending t sh \<longleftrightarrow> (\<exists>k ob. object_map sh k = Some ob \<and> t \<in> btree_keys (tentative_writes ob))"
  by (simp only: has_pending_def pending_iff)

lemma has_pending_cong: "object_map sh' = object_map sh \<Longrightarrow> has_pending t sh' = has_pending t sh"
  by (simp add: has_pending_def)

text \<open>A pass that fires nothing and takes no pending write away keeps the sleepers safe.\<close>

definition keeps :: "('k, 'v) Shard \<Rightarrow> ('k, 'v) Shard \<Rightarrow> bool" where
  "keeps sh sh' \<longleftrightarrow> notify_calls sh' = notify_calls sh \<and>
     (\<forall>t n. notifications sh t = Some n \<longrightarrow> notifications sh' t = Some n)"

lemma keeps_refl [simp]: "keeps sh sh"
  by (simp add: keeps_def)

lemma keeps_notification: "keeps sh sh1 \<Longrightarrow> keeps sh (snd (get_notification t sh1))"
  by (auto simp: keeps_def get_notification_def split: option.splits)

lemma keeps_suspend: "suspend t sh1 = (p, sh') \<Longrightarrow> keeps sh sh1 \<Longrightarrow> keeps sh sh'"
  using keeps_notification[of sh sh1 t] by (auto simp: suspend_def case_prod_beta)

lemma keeps_set_cell [simp]: "keeps sh (set_cell a ob sh1) \<longleftrightarrow> keeps sh sh1"
  by (simp add: keeps_def set_cell_def)

lemma read_keeps: "shard_read_pass tid k sh = (p, sh') \<Longrightarrow> keeps sh sh'"
  by (auto simp: shard_read_pass_def Let_def
      split: option.splits prod.splits result.splits RWFailure.splits intro: keeps_suspend)

lemma insert_keeps: "get_object_or_insert_if_valid chk dflt k v sh = (q, sh') \<Longrightarrow> keeps sh sh'"
  by (auto simp: get_object_or_insert_if_valid_def keeps_def Let_def split: option.splits if_splits)

lemma write_keeps: "shard_write_pass chk dflt tid k v sh = (p, sh') \<Longrightarrow> keeps sh sh'"
  by (auto simp: shard_write_pass_def Let_def dest!: insert_keeps
      split: option.splits prod.splits result.splits RWFailure.splits intro: keeps_suspend)

lemma waits_keeps:
  assumes "waits tid n sh" and "keeps sh sh'" and "\<And>t. has_pending t sh \<Longrightarrow> has_pending t sh'"
  shows "waits tid n sh'"
  using assms by (auto simp: waits_def keeps_def)

lemma write_pending:
  assumes "shard_inv chk sh" and "chk dflt = Ok ()" and "shard_write_pass chk dflt tid k v sh = (p, sh')"
    and "has_pending t sh"
  shows "has_pending t sh'"
proof (cases "object_map sh k \<noteq> None \<or> result_is_ok (chk v)")
  case True
  define ob where "ob = (case object_map sh k of Some ob \<Rightarrow> ob | None \<Rightarrow> object_default dflt (shard_id sh))"
  obtain r ob' where r: "object_write tid v ob = (r, ob')" by (cases "object_write tid v ob")
  have inv: "object_inv chk ob"
    using object_map_inv[OF assms(1)] object_default_inv[of chk dflt, OF assms(2)]
    by (auto simp: ob_def split: option.split)
  have "btree_keys (tentative_writes ob) \<subseteq> btree_keys (tentative_writes ob')"
    using r by (rule_tac object_write_cases[OF inv, of tid v]) auto
  note keys = this and m = shard_write_pass_present(1)[OF assms(1,2) ob_def True r assms(3)]
  from assms(4) obtain k' ob1 where "object_map sh k' = Some ob1" "t \<in> btree_keys (tentative_writes ob1)"
    unfolding has_pending_iff by blast
  with keys m show ?thesis unfolding has_pending_iff by (intro exI[of _ k']) (auto simp: ob_def)
next
  case False
  with shard_write_pass_rejected[of sh k chk v dflt tid] assms(3,4) show ?thesis by simp
qed

lemma commit_obj_keys:
  assumes "object_inv chk ob" and "t \<in> btree_keys (tentative_writes ob)" and "t \<noteq> tid"
  shows "t \<in> btree_keys (tentative_writes (commit_obj chk tid ob))"
  using assms by (rule_tac object_commit_cases[of tid ob chk]) (auto simp: commit_obj_def)

lemma waits_notify:
  assumes "waits tid n sh" and "notify_calls sh1 = notify_calls sh" and "notifications sh1 = notifications sh"
    and "\<And>t'. t' \<noteq> t \<Longrightarrow> has_pending t' sh \<Longrightarrow> has_pending t' sh1"
  shows "waits tid n (notify_and_remove t sh1)"
proof (cases "notifications sh t = Some n")
  case True
  then show ?thesis using assms(3) by (simp add: waits_def notify_and_remove_def)
next
  case False
  have "has_pending t' (notify_and_remove t sh1) = has_pending t' sh1" for t' by (rule has_pending_cong) simp
  moreover have "notifications (notify_and_remove t sh1) t' = notifications sh t'" if "t' \<noteq> t" for t'
    using that assms(3) by (simp add: notify_and_remove_def split: option.split)
  moreover have "set (notify_calls sh) \<subseteq> set (notify_calls (notify_and_remove t sh1))"
    using assms(2) by (auto simp: notify_and_remove_def split: option.split)
  ultimately show ?thesis using False assms(1,4) unfolding waits_def by (metis subsetD)
qed

lemma commit_waits:
  assumes "shard_inv chk sh" and "enumerates es sh" and "shard_commit_pass chk es t sh = Some (p, sh')"
    and "waits tid n sh"
  shows "waits tid n sh'"
proof -
  obtain rs sh1 where c: "commit_cells chk es t sh = Some (rs, sh1)"
    by (rule commit_cells_some[OF assms(1,2)])
  note m = object_map_commit[OF assms(1,2) c]
  have same: "notify_calls sh1 = notify_calls sh" "notifications sh1 = notifications sh"
    using commit_cells_eq[OF enumerates_addrs(1,2)[OF assms(1,2)], of chk t] c by auto
  have other: "has_pending t' sh1" if "t' \<noteq> t" "has_pending t' sh" for t'
    using that m(1) commit_obj_keys[OF object_map_inv[OF assms(1)]] by (fastforce simp: has_pending_iff)
  show ?thesis
  proof (cases "\<exists>u. scan_commits rs = ScanWait u")
    case True
    then obtain u where u: "scan_commits rs = ScanWait u" ..
    from scan_commits_wait[OF this] obtain k where "(k, Err (CommitFailure.WaitFor u)) \<in> set rs" by blast
    then have "map_of rs k = Some (Err (CommitFailure.WaitFor u))"
      using m(3) assms(2) by (auto simp: enumerates_def intro!: map_of_is_SomeI)
    with m(2)[of k] obtain ob where ob: "object_map sh k = Some ob" "commit_res chk t ob = Err (CommitFailure.WaitFor u)"
      by (cases "object_map sh k") auto
    then have "t \<in> btree_keys (tentative_writes (commit_obj chk t ob))"
      by (rule_tac object_commit_cases[of t ob chk]) (auto simp: commit_res_def commit_obj_def)
    with ob(1) m(1)[of k] have own: "has_pending t sh1" by (auto simp: has_pending_iff)
    from assms(3) c u have "suspend u sh1 = (p, sh')" by (simp add: shard_commit_pass_def)
    have "keeps sh sh1" using same by (simp add: keeps_def)
    from keeps_suspend[OF \<open>suspend u sh1 = (p, sh')\<close> this] have k: "keeps sh sh'" .
    have "has_pending t' sh'" if "has_pending t' sh" for t'
      using that own other[of t'] has_pending_cong[OF object_map_suspend[OF \<open>suspend u sh1 = (p, sh')\<close>], of t']
      by (cases "t' = t") auto
    with waits_keeps[OF assms(4) k] show ?thesis by blast
  next
    case False
    then have "sh' = notify_and_remove t sh1"
      using assms(3) c by (cases "scan_commits rs") (auto simp: shard_commit_pass_def Let_def)
    with waits_notify[OF assms(4) same other] show ?thesis by simp
  qed
qed

lemma abort_waits:
  assumes "shard_inv chk sh" and "enumerates es sh" and "waits tid n sh"
  shows "waits tid n (shard_abort es t sh)"
proof -
  obtain rs sh1 where a: "abort_cells es t sh = (rs, sh1)" by (cases "abort_cells es t sh")
  have sh': "shard_abort es t sh = notify_and_remove t (reap rs sh1)" by (simp add: shard_abort_def a)
  have "has_pending t' (reap rs sh1)" if "t' \<noteq> t" "has_pending t' sh" for t'
  proof -
    have "has_pending t' (shard_abort es t sh)"
      using that shard_abort_store[OF assms(1,2), of t] by (simp add: has_pending_def store_abort_def)
    then show ?thesis by (simp add: sh' has_pending_iff)
  qed
  with abort_cells_frame[OF a] show ?thesis unfolding sh' by (intro waits_notify[OF assms(3)]) (auto simp: reap_def)
qed

text \<open>Whatever anybody does on the shard, a sleeper is woken or still has someone to wait for.\<close>

lemma waits_step:
  assumes "chk dflt = Ok ()" and "shard_inv chk sh" and "shard_step chk dflt t sh sh'" and "waits tid n sh"
  shows "waits tid n sh'"
  using assms(3)
proof cases
  case (step_read k p)
  with shard_read_store[OF assms(2) step_read] show ?thesis
    by (intro waits_keeps[OF assms(4) read_keeps[OF step_read]]) (simp add: has_pending_def)
next
  case (step_write k v p)
  show ?thesis
    by (rule waits_keeps[OF assms(4) write_keeps[OF step_write] write_pending[OF assms(2,1) step_write]])
next
  case (step_check es p)
  from shard_check_state[OF step_check(2)] keeps_notification[OF keeps_refl, of sh] have "keeps sh sh'" by auto
  moreover from shard_check_state[OF step_check(2)] have "object_map sh' = object_map sh" by auto
  ultimately show ?thesis by (intro waits_keeps[OF assms(4)]) (auto simp: has_pending_def)
next
  case (step_commit es p)
  from commit_waits[OF assms(2) step_commit assms(4)] show ?thesis .
next
  case (step_abort es)
  with abort_waits[OF assms(2) step_abort(2) assms(4)] show ?thesis by simp
qed

text \<open>A pass that ends suspended starts a wait of that kind.\<close>

lemma suspended_waits:
  assumes "shard_inv chk sh"
  shows "shard_read_pass tid k sh = (Suspended n, sh') \<Longrightarrow> waits tid n sh'"
    and "enumerates es sh \<Longrightarrow> shard_check_commit_pass chk es tid sh = Some (Suspended n, sh') \<Longrightarrow> waits tid n sh'"
    and "enumerates es sh \<Longrightarrow> shard_commit_pass chk es tid sh = Some (Suspended n, sh') \<Longrightarrow> waits tid n sh'"
    and "chk dflt = Ok () \<Longrightarrow> shard_write_pass chk dflt tid k v sh \<noteq> (Suspended n, sh')"
proof -
  show "waits tid n sh'" if "shard_read_pass tid k sh = (Suspended n, sh')"
    using read_suspended[OF assms that] unfolding waits_def has_pending_def by blast
  show "waits tid n sh'" if "enumerates es sh" "shard_check_commit_pass chk es tid sh = Some (Suspended n, sh')"
    using check_suspended[OF assms that] unfolding waits_def has_pending_def by blast
  show "waits tid n sh'" if "enumerates es sh" "shard_commit_pass chk es tid sh = Some (Suspended n, sh')"
    using commit_suspended[OF assms that] unfolding waits_def has_pending_def by blast
  show "shard_write_pass chk dflt tid k v sh \<noteq> (Suspended n, sh')" if "chk dflt = Ok ()"
  proof
    assume w: "shard_write_pass chk dflt tid k v sh = (Suspended n, sh')"
    show False
    proof (cases "object_map sh k \<noteq> None \<or> result_is_ok (chk v)")
      case True
      from shard_write_pass_present(2)[OF assms that refl True surjective_pairing w] show False by simp
    next
      case False
      with w shard_write_pass_rejected[of sh k chk v dflt tid] show False by simp
    qed
  qed
qed

section \<open>Waiting ends\<close>

text \<open>
  While the read runs, the other tasks make passes of the shard, of any transactions and in any
  order.
\<close>

fun others_step :: "TransactionId \<Rightarrow> 'k \<Rightarrow> notify option \<Rightarrow> (('k, Amount) Shard \<Rightarrow> ('k, Amount) Shard) list \<Rightarrow>
    ('k, Amount) Shard \<Rightarrow> bool" where
  "others_step tid k w [] sh \<longleftrightarrow> True"
| "others_step tid k w (other # rest) sh \<longleftrightarrow>
     (if resumed w sh then
        (case shard_read_pass tid k sh of
           (Return r, sh') \<Rightarrow> True
         | (Suspended n, sh') \<Rightarrow> (\<exists>t. shard_step check_amount 0 t sh' (other sh')) \<and>
             others_step tid k (Some n) rest (other sh'))
      else (\<exists>t. shard_step check_amount 0 t sh (other sh)) \<and> others_step tid k w rest (other sh))"

lemma read_loop_waits:
  assumes "shard_inv check_amount sh" and "case w of None \<Rightarrow> True | Some n \<Rightarrow> waits tid n sh"
    and "others_step tid k w others sh" and "await_loop (shard_read_pass tid k) w others sh = (Suspended n, sh')"
  shows "\<exists>t. t < tid \<and> has_pending t sh'"
  using assms
proof (induction others arbitrary: w sh)
  case Nil
  show ?case
  proof (cases "resumed w sh")
    case True
    with Nil.prems(4) have "shard_read_pass tid k sh = (Suspended n, sh')" by simp
    from read_suspended[OF Nil.prems(1) this] show ?thesis unfolding has_pending_def by blast
  next
    case False
    with Nil.prems show ?thesis by (auto simp: resumed_def waits_def split: option.splits)
  qed
next
  case (Cons f others)
  have step: "shard_inv check_amount (f s)" "waits tid m (f s)"
    if "shard_step check_amount 0 t s (f s)" "shard_inv check_amount s" "waits tid m s" for s t m
    using shard_step_inv[OF check_amount_zero that(1,2)] waits_step[OF check_amount_zero that(2,1,3)] by auto
  show ?case
  proof (cases "resumed w sh")
    case True
    with Cons.prems(4) obtain m sh1 where p: "shard_read_pass tid k sh = (Suspended m, sh1)"
      by (auto split: prod.splits pass.splits)
    have inv: "shard_inv check_amount sh1" using shard_read_pass_inv[OF Cons.prems(1), of tid k] p by simp
    from Cons.prems(3) True p obtain t where "shard_step check_amount 0 t sh1 (f sh1)"
      and rest: "others_step tid k (Some m) others (f sh1)" by auto
    from step[OF this(1) inv suspended_waits(1)[OF Cons.prems(1) p]] rest Cons.prems(4) True p
    show ?thesis by (intro Cons.IH[where w = "Some m" and sh = "f sh1"]) auto
  next
    case False
    then obtain m where m: "w = Some m" by (auto simp: resumed_def split: option.splits)
    from Cons.prems(3) False obtain t where "shard_step check_amount 0 t sh (f sh)"
      and rest: "others_step tid k w others (f sh)" by auto
    from step[OF this(1) Cons.prems(1)] rest Cons.prems(2,4) False m
    show ?thesis by (intro Cons.IH[where w = w and sh = "f sh"]) auto
  qed
qed


lemma demo_read_abort:
  "\<exists>sh'. shard_read [shard_abort demo_entries (tx_at 5)] (tx_at 6) ''A.x'' demo_shard =
     (Return (Ok 10), sh') \<and> objects sh' = [''A.x'' \<mapsto> 0] \<and> tentative_writes (cells sh' ! 0) = []"
  by (simp add: shard_read_def resumed_def demo_shard_def shard_eval shard_abort_def reap_def)


end
