(* ===== verification/Shard_Runs.thy ===== *)
theory Shard_Runs
  imports Shard_Waiting
begin

text \<open>
  Whole runs of a shard under any interleaving of the passes of any transactions: no committed
  balance is ever negative, every object moves only by the four operations of its own interface,
  and a reader keeps older transactions from writing what it has read.
\<close>

section \<open>Committed balances\<close>

text \<open>The states of a shard that was created empty and then served any passes in any order.\<close>

abbreviation shard_reachable :: "(AccountId, Amount) Shard \<Rightarrow> bool" where
  "shard_reachable \<equiv> reach (\<lambda>s. \<exists>n. s = shard_new n) (\<lambda>s t. \<exists>tid. shard_step check_amount 0 tid s t)"

text \<open>
  No balance is ever negative: in every state a shard can reach, whatever transactions read,
  write, check, commit and abort in whatever interleaving, every committed value is at least 0.
\<close>

theorem no_negative_balance:
  assumes "shard_reachable sh" and "committed (store_of sh) k = Some v"
  shows "0 \<le> sint v"
  using committed_not_negative[OF shard_run.reach_inv[OF assms(1)] assms(2)] .

lemma demo_reachable:
  fixes sh :: "(AccountId, Amount) Shard"
  assumes "sh = snd (shard_write_pass check_amount 0 (tx_at 5) ''A.x'' 20 (shard_new CHR ''A''))"
    and "shard_commit_pass check_amount demo_entries (tx_at 5) sh = Some (p, sh')"
  shows "shard_reachable sh'"
proof -
  have "shard_reachable (shard_new CHR ''A'')" by (rule reach_init) blast
  moreover have "shard_step check_amount 0 (tx_at 5) (shard_new CHR ''A'') sh"
    unfolding assms(1) by (rule step_write[of _ _ _ "''A.x''" 20]) (rule surjective_pairing)
  ultimately have r: "shard_reachable sh" by (rule reach_step[of _ _ _ sh, OF _ exI])
  have "enumerates demo_entries sh" unfolding assms(1) by (simp add: shard_eval enumerates_def)
  from reach_step[OF r exI, OF step_commit[OF this assms(2)]] show ?thesis .
qed

theorem no_negative_balance_witness:
  "\<exists>sh. shard_reachable sh \<and> committed (store_of sh) ''A.x'' = Some 20 \<and> 0 \<le> sint (20 :: Amount)"
proof -
  define sh where "sh = snd (shard_write_pass check_amount 0 (tx_at 5) ''A.x'' 20 (shard_new CHR ''A'' :: (AccountId, Amount) Shard))"
  obtain p sh' where c: "shard_commit_pass check_amount demo_entries (tx_at 5) sh = Some (p, sh')"
    and v: "committed (store_of sh') ''A.x'' = Some 20"
    by (simp add: sh_def shard_eval store_sel object_map_def object_committed_value_def)
  have r: "shard_reachable sh'" by (rule demo_reachable[OF sh_def c])
  from no_negative_balance[OF r v] r v show ?thesis by blast
qed

section \<open>One object within a run\<close>

fun op_tx :: "'v object_op \<Rightarrow> TransactionId" where
  "op_tx (OpRead t) = t"
| "op_tx (OpWrite t v) = t"
| "op_tx (OpCommit t) = t"
| "op_tx (OpAbort t) = t"

lemma read_objects:
  assumes "shard_inv chk sh" and "shard_read_pass t k' sh = (p, sh')" and "object_map sh k = Some ob"
  shows "object_map sh' k = Some (if k' = k then snd (object_read t ob) else ob)"
proof (cases "object_map sh k'")
  case (Some ob2)
  obtain r ob' where r: "object_read t ob2 = (r, ob')" by (cases "object_read t ob2")
  from shard_read_pass_present(1)[OF assms(1) Some r assms(2)] r Some assms(3) show ?thesis by auto
qed (use assms in \<open>auto simp: shard_read_pass_missing\<close>)

lemma write_objects:
  assumes "shard_inv chk sh" and "chk dflt = Ok ()" and "shard_write_pass chk dflt t k' v sh = (p, sh')"
    and "object_map sh k = Some ob"
  shows "object_map sh' k = Some (if k' = k then snd (object_write t v ob) else ob)"
proof (cases "object_map sh k' \<noteq> None \<or> result_is_ok (chk v)")
  case True
  define ob2 where "ob2 = (case object_map sh k' of Some ob \<Rightarrow> ob | None \<Rightarrow> object_default dflt (shard_id sh))"
  obtain r ob' where r: "object_write t v ob2 = (r, ob')" by (cases "object_write t v ob2")
  from shard_write_pass_present(1)[OF assms(1,2) ob2_def True r assms(3)] r assms(4) show ?thesis
    by (auto simp: ob2_def)
qed (use assms shard_write_pass_rejected[of sh k' chk v dflt t] in auto)

text \<open>
  A step moves an object by at most one operation of the transaction it serves; only an abort that
  leaves a never committed object without writes removes it.
\<close>

lemma step_object:
  assumes "chk dflt = Ok ()" and "shard_inv chk sh" and "shard_step chk dflt t sh sh'"
    and "object_map sh k = Some ob"
  shows "(\<exists>ps. list_all (\<lambda>p. op_tx p = t) ps \<and> object_map sh' k = Some (run_ops (object_exec chk) ps ob)) \<or>
    (object_map sh' k = None \<and> is_default (committed_timestamp ob) \<and> btree_keys (tentative_writes ob) \<subseteq> {t})"
  using assms(3)
proof cases
  case (step_read k' p)
  with read_objects[OF assms(2) step_read assms(4)] show ?thesis
    by (intro disjI1 exI[of _ "if k' = k then [OpRead t] else []"]) simp
next
  case (step_write k' v p)
  with write_objects[OF assms(2,1) step_write assms(4)] show ?thesis
    by (intro disjI1 exI[of _ "if k' = k then [OpWrite t v] else []"]) simp
next
  case (step_check es p)
  with shard_check_state[OF step_check(2)] assms(4) show ?thesis
    by (intro disjI1 exI[of _ "[]"]) auto
next
  case (step_commit es p)
  obtain rs sh1 where c: "commit_cells chk es t sh = Some (rs, sh1)"
    and "sh' = notify_and_remove t sh1 \<or> (\<exists>t. sh' = snd (get_notification t sh1))"
    by (rule shard_commit_state[OF step_commit(2)])
  then have "object_map sh' k = map_option (commit_obj chk t) (object_map sh k)"
    using object_map_commit(1)[OF assms(2) step_commit(1) c] by auto
  with assms(4) show ?thesis
    by (intro disjI1 exI[of _ "[OpCommit t]"]) (simp add: object_commit_total)
next
  case (step_abort es)
  note m = object_map_abort[OF assms(2) step_abort(2), of t k]
  show ?thesis
  proof (cases "object_can_reap t (object_abort t ob)")
    case True
    with step_abort m assms(4) show ?thesis
      by (auto simp: object_can_reap_after_abort simp flip: btree_keys_empty_iff)
  next
    case False
    with step_abort m assms(4) show ?thesis by (intro disjI1 exI[of _ "[OpAbort t]"]) simp
  qed
qed

section \<open>Readers and older writers\<close>

text \<open>A reader whose object cannot disappear under it.\<close>

definition registered :: "TransactionId \<Rightarrow> 'v TimestampedObject \<Rightarrow> bool" where
  "registered tid ob \<longleftrightarrow> tid \<in> btree_keys (read_timestamps ob) \<and>
     (\<not> is_default (committed_timestamp ob) \<or> tid \<in> btree_keys (tentative_writes ob))"

lemma registered_exec:
  assumes "object_inv chk ob" and "registered tid ob" and "op_tx p \<noteq> tid"
  shows "registered tid (object_exec chk p ob)"
proof (cases p)
  case (OpRead t)
  have "btree_keys (read_timestamps ob) \<subseteq> btree_keys (read_timestamps (snd (object_read t ob)))"
    by (auto simp: object_read_def split: option.split)
  with assms(2) OpRead show ?thesis by (auto simp: registered_def)
next
  case (OpWrite t v)
  have "btree_keys (tentative_writes ob) \<subseteq> btree_keys (tentative_writes (snd (object_write t v ob)))"
    by (auto simp: object_write_def Let_def)
  with assms(2) OpWrite show ?thesis by (auto simp: registered_def)
next
  case (OpCommit t)
  show ?thesis
  proof (rule object_commit_cases[of t ob chk])
    fix tw
    assume "btree_first_key (tentative_writes ob) = Some t"
      and c: "object_commit chk t ob = Some (Ok (ValueChanged (tw_value tw)),
         ob\<lparr>tentative_writes := btree_remove t (tentative_writes ob),
            committed_timestamp := t, obj_value := tw_value tw\<rparr>)"
    then have "t \<in> btree_keys (tentative_writes ob)" by (cases "tentative_writes ob") auto
    with object_invD(3)[OF assms(1)] have "committed_timestamp ob < t" .
    with c assms(2,3) OpCommit show ?thesis by (auto simp: registered_def dest: not_default_mono)
  qed (use assms OpCommit in simp_all)
next
  case (OpAbort t)
  with assms(2,3) show ?thesis by (auto simp: registered_def)
qed

lemma registered_run:
  assumes "object_inv chk ob" and "registered tid ob" and "list_all (\<lambda>p. op_tx p \<noteq> tid) ps"
  shows "registered tid (run_ops (object_exec chk) ps ob)"
  using assms by (induction ps arbitrary: ob) (auto intro: registered_exec object_exec_inv)

lemma registered_step:
  assumes "shard_inv check_amount sh" and "object_map sh k = Some ob" and "registered tid ob"
    and "shard_step check_amount 0 t sh sh'" and "t \<noteq> tid"
  shows "\<exists>ob'. object_map sh' k = Some ob' \<and> registered tid ob'"
  using step_object[OF check_amount_zero assms(1,4,2)]
proof
  assume "\<exists>ps. list_all (\<lambda>p. op_tx p = t) ps \<and> object_map sh' k = Some (run_ops (object_exec check_amount) ps ob)"
  then obtain ps where "list_all (\<lambda>p. op_tx p = t) ps"
    and m: "object_map sh' k = Some (run_ops (object_exec check_amount) ps ob)" by blast
  then have "list_all (\<lambda>p. op_tx p \<noteq> tid) ps" using assms(5) by (auto simp: list_all_iff)
  with registered_run[OF object_map_inv[OF assms(1,2)] assms(3)] m show ?thesis by blast
qed (use assms(3,5) in \<open>auto simp: registered_def\<close>)

text \<open>
  C14. No stale writes: once a transaction has read an account, then, whatever other transactions do
  until it aborts itself, a write of an older transaction to that account is refused as an order
  violation. So of two interleaved changes of an existing account the older one is aborted.
\<close>

theorem reader_blocks_older_writes:
  assumes "shard_inv check_amount sh" and "shard_read_pass tid k sh = (Return (Ok v), sh1)"
    and "(\<lambda>s s'. \<exists>t. t \<noteq> tid \<and> shard_step check_amount 0 t s s')\<^sup>*\<^sup>* sh1 sh2"
    and "old < tid"
  shows "fst (shard_write_pass check_amount 0 old k v' sh2) = Return (Err OrderViolation)"
proof -
  obtain ob where ob: "object_map sh k = Some ob"
    using assms(2) by (cases "object_map sh k") (auto simp: shard_read_pass_missing)
  obtain r ob1 where r: "object_read tid ob = (r, ob1)" by (cases "object_read tid ob")
  note rd = shard_read_pass_present[OF assms(1) ob r assms(2)]
  from rd(2) have "r = Ok v" by (auto split: result.splits RWFailure.splits)
  then have "registered tid ob1"
    using r by (rule_tac object_read_cases[OF object_map_inv[OF assms(1) ob], of tid])
      (auto simp: registered_def dest: btree_get_key)
  then have base: "shard_inv check_amount sh1 \<and> (\<exists>ob. object_map sh1 k = Some ob \<and> registered tid ob)"
    using rd(1) shard_read_pass_inv[OF assms(1), of tid k] assms(2) by simp
  from assms(3) have "shard_inv check_amount sh2 \<and> (\<exists>ob. object_map sh2 k = Some ob \<and> registered tid ob)"
  proof (induction rule: rtranclp_induct)
    case (step s s')
    then show ?case using shard_step_inv[of check_amount 0] registered_step by fastforce
  qed (rule base)
  then obtain ob2 where inv2: "shard_inv check_amount sh2" and ob2: "object_map sh2 k = Some ob2"
    and reg: "registered tid ob2" by blast
  have "object_write old v' ob2 = (Err RWFailure.Abort, ob2)"
    using reg assms(4) by (rule_tac object_write_cases[OF object_map_inv[OF inv2 ob2], of old v'])
      (auto simp: registered_def)
  from shard_write_pass_present(2)[OF inv2 check_amount_zero refl _ _ surjective_pairing, of k v' old]
    ob2 this show ?thesis by simp
qed

theorem reader_blocks_older_writes_witness:
  "fst (shard_write_pass check_amount 0 (tx_at 4) ''A.x'' 7 demo_shard) = Return (Err OrderViolation)"
  by (rule reader_blocks_older_writes[OF demo_facts(1) demo_passes(1) rtranclp.rtrancl_refl])
    (simp add: txid_order)

end
