(* ===== verification/Shard_Locks.thy ===== *)
theory Shard_Locks
  imports Shard_Waiting
begin

text \<open>
  The operations of a shard at the granularity of their locks (tx-server/src/sharding/shard.rs). A
  call is a task that moves from one lock acquisition or await to the next; between two of them
  other tasks may do anything. Locks taken and released without an await in between are one
  step. The lock of the object map is the only one held across an await: an abort keeps it
  while its spawned tasks run. The tasks a check, a commit and an abort spawn, one per object,
  run in any order and interleave with all other tasks. Getting a notification, creating the
  future that waits on it, and firing it are separate steps.
\<close>

section \<open>Tasks\<close>

datatype ('k, 'v) call = CallRead 'k | CallWrite 'k 'v | CallCheck | CallCommit | CallAbort

datatype ('k, 'v) answer =
    ReadAnswer "('v, Abort) result"
  | WriteAnswer "(unit, Abort) result"
  | CheckAnswer "(unit, Abort) result"
  | CommitAnswer "(('k \<times> 'v) list CommitSuccess, Abort) result"
  | AbortAnswer

text \<open>A spawned task has the object still to lock, or it has ended: \<open>None\<close> is a panic.\<close>

datatype 'r spawned = Pending addr | Joined "'r option"

datatype ('k, 'v, 'e) lock_pc =
    AtMap
  | AtObject addr
  | Checking "('k \<times> (unit CheckCommitSuccess, 'e CommitFailure) result spawned) list"
  | Committing "('k \<times> ('v CommitSuccess, 'e CommitFailure) result spawned) list"
  | Aborting "('k \<times> bool spawned) list"
  | AtNotify "('k, 'v) answer"
  | AtNotifications TransactionId
  | HasNotify notify
  | AsleepOn notify
  | Answered "('k, 'v) answer"
  | Crashed

text \<open>
  In order: about to lock the object map, at the top of the loop; holding a reference to an object
  and about to lock it; waiting for the spawned tasks to join (an abort with the map locked);
  about to call \<open>notify_and_remove\<close> and return; about to call \<open>get_notification\<close> for the
  transaction it must wait for; holding that notification; suspended on it; returned.
\<close>

type_synonym ('k, 'v, 'e) lock_task = "TransactionId \<times> ('k, 'v) call \<times> ('k, 'v, 'e) lock_pc"

datatype 'k choice = Proceed | Walk "('k \<times> addr) list" | RunSpawned nat

section \<open>Spawning and joining\<close>

definition spawn :: "('k \<times> addr) list \<Rightarrow> ('k \<times> 'r spawned) list" where
  "spawn es = map (\<lambda>(k, a). (k, Pending a)) es"

definition run_spawned :: "(addr \<Rightarrow> 's \<Rightarrow> 'r option \<times> 's) \<Rightarrow> nat \<Rightarrow> ('k \<times> 'r spawned) list \<Rightarrow> 's \<Rightarrow>
    (('k \<times> 'r spawned) list \<times> 's) option" where
  "run_spawned f j ss sh =
     (if j < length ss then
        case ss ! j of
          (k, Pending a) \<Rightarrow> let (r, sh') = f a sh in Some (ss[j := (k, Joined r)], sh')
        | _ \<Rightarrow> None
      else None)"

fun join_all :: "('k \<times> 'r spawned) list \<Rightarrow> ('k \<times> 'r option) list option" where
  "join_all [] = Some []"
| "join_all ((k, Joined r) # ss) = map_option ((#) (k, r)) (join_all ss)"
| "join_all ((k, Pending a) # ss) = None"

text \<open>What a spawned task does under the lock of its object.\<close>

definition spawned_check :: "('v \<Rightarrow> (unit, 'e) result) \<Rightarrow> TransactionId \<Rightarrow> addr \<Rightarrow> ('k, 'v) Shard \<Rightarrow>
    (unit CheckCommitSuccess, 'e CommitFailure) result option \<times> ('k, 'v) Shard" where
  "spawned_check chk tx a sh = (object_check_commit chk tx (cells sh ! a), sh)"

definition spawned_commit :: "('v \<Rightarrow> (unit, 'e) result) \<Rightarrow> TransactionId \<Rightarrow> addr \<Rightarrow> ('k, 'v) Shard \<Rightarrow>
    ('v CommitSuccess, 'e CommitFailure) result option \<times> ('k, 'v) Shard" where
  "spawned_commit chk tx a sh =
     (case object_commit chk tx (cells sh ! a) of
        None \<Rightarrow> (None, sh)
      | Some (r, ob') \<Rightarrow> (Some r, set_cell a ob' sh))"

definition spawned_abort :: "TransactionId \<Rightarrow> addr \<Rightarrow> ('k, 'v) Shard \<Rightarrow> bool option \<times> ('k, 'v) Shard" where
  "spawned_abort tx a sh =
     (let ob' = object_abort tx (cells sh ! a) in (Some (object_can_reap tx ob'), set_cell a ob' sh))"

section \<open>Steps of one task\<close>

definition lock_map :: "('v \<Rightarrow> (unit, 'e) result) \<Rightarrow> 'v \<Rightarrow> 'k choice \<Rightarrow> ('k, 'v) call \<Rightarrow> ('k, 'v) Shard \<Rightarrow>
    (('k, 'v, 'e) lock_pc \<times> ('k, 'v) Shard) option" where
  "lock_map chk dflt ch c sh =
     (case c of
        CallRead k \<Rightarrow>
          Some (case get_object k sh of
                  None \<Rightarrow> (Answered (ReadAnswer (Err ObjectNotFound)), sh)
                | Some a \<Rightarrow> (AtObject a, sh))
      | CallWrite k v \<Rightarrow>
          Some (case get_object_or_insert_if_valid chk dflt k v sh of
                  (None, sh') \<Rightarrow> (Answered (WriteAnswer (Err ObjectNotFound)), sh')
                | (Some a, sh') \<Rightarrow> (AtObject a, sh'))
      | CallCheck \<Rightarrow> (case ch of Walk es \<Rightarrow> Some (Checking (spawn es), sh) | _ \<Rightarrow> None)
      | CallCommit \<Rightarrow> (case ch of Walk es \<Rightarrow> Some (Committing (spawn es), sh) | _ \<Rightarrow> None)
      | CallAbort \<Rightarrow> (case ch of Walk es \<Rightarrow> Some (Aborting (spawn es), sh) | _ \<Rightarrow> None))"

definition after_object :: "('r \<Rightarrow> ('k, 'v) answer) \<Rightarrow> ('q \<Rightarrow> 'r) \<Rightarrow> (Abort \<Rightarrow> 'r) \<Rightarrow> ('q, RWFailure) result \<Rightarrow>
    ('k, 'v, 'e) lock_pc" where
  "after_object ans ok err r =
     (case r of
        Ok v \<Rightarrow> Answered (ans (ok v))
      | Err RWFailure.Abort \<Rightarrow> Answered (ans (err OrderViolation))
      | Err RWFailure.AbortedNotFound \<Rightarrow> Answered (ans (err ObjectNotFoundSpecialCase))
      | Err (RWFailure.WaitFor waiting_on) \<Rightarrow> AtNotifications waiting_on)"

definition lock_object :: "TransactionId \<Rightarrow> ('k, 'v) call \<Rightarrow> addr \<Rightarrow> ('k, 'v) Shard \<Rightarrow>
    (('k, 'v, 'e) lock_pc \<times> ('k, 'v) Shard) option" where
  "lock_object tx c a sh =
     (case c of
        CallRead k \<Rightarrow>
          let (r, ob') = object_read tx (cells sh ! a)
          in Some (after_object ReadAnswer Ok Err r, set_cell a ob' sh)
      | CallWrite k v \<Rightarrow>
          let (r, ob') = object_write tx v (cells sh ! a)
          in Some (after_object WriteAnswer (\<lambda>_. Ok ()) Err r, set_cell a ob' sh)
      | _ \<Rightarrow> None)"

text \<open>What follows the joins. A panic of a spawned task is passed on by \<open>unwrap\<close>.\<close>

definition joined_checks :: "('k \<times> (unit CheckCommitSuccess, 'e CommitFailure) result option) list \<Rightarrow>
    ('k, 'v, 'e) lock_pc" where
  "joined_checks rs =
     (if None \<in> snd ` set rs then Crashed
      else case scan_checks (map (the \<circ> snd) rs) of
             ScanFailed \<Rightarrow> Answered (CheckAnswer (Err ConsistencyCheckFailed))
           | ScanWait t \<Rightarrow> AtNotifications t
           | ScanDone _ \<Rightarrow> Answered (CheckAnswer (Ok ())))"

definition joined_commits :: "('k \<times> ('v CommitSuccess, 'e CommitFailure) result option) list \<Rightarrow>
    ('k, 'v, 'e) lock_pc" where
  "joined_commits rs =
     (if None \<in> snd ` set rs then Crashed
      else case scan_commits (map (map_prod id the) rs) of
             ScanFailed \<Rightarrow> AtNotify (CommitAnswer (Err ConsistencyCheckFailed))
           | ScanWait t \<Rightarrow> AtNotifications t
           | ScanDone vs \<Rightarrow>
               let did_change = list_ex (\<lambda>(_, cr). value_changed cr) vs;
                   inner = map (\<lambda>(k, cr). (k, success_value cr)) vs
               in AtNotify (CommitAnswer (Ok (if did_change then ValueChanged inner else NoChange inner))))"

definition joined_aborts :: "('k \<times> bool option) list \<Rightarrow> ('k, 'v) Shard \<Rightarrow>
    ('k, 'v, 'e) lock_pc \<times> ('k, 'v) Shard" where
  "joined_aborts rs sh =
     (if None \<in> snd ` set rs then (Crashed, sh)
      else (AtNotify AbortAnswer, reap (map (map_prod id the) rs) sh))"

definition local_step :: "('v \<Rightarrow> (unit, 'e) result) \<Rightarrow> 'v \<Rightarrow> 'k choice \<Rightarrow> TransactionId \<Rightarrow> ('k, 'v) call \<Rightarrow>
    ('k, 'v, 'e) lock_pc \<Rightarrow> ('k, 'v) Shard \<Rightarrow> (('k, 'v, 'e) lock_pc \<times> ('k, 'v) Shard) option" where
  "local_step chk dflt ch tx c pc sh =
     (case pc of
        AtMap \<Rightarrow> lock_map chk dflt ch c sh
      | AtObject a \<Rightarrow> lock_object tx c a sh
      | Checking ss \<Rightarrow>
          (case ch of
             RunSpawned j \<Rightarrow> map_option (map_prod Checking id) (run_spawned (spawned_check chk tx) j ss sh)
           | _ \<Rightarrow> map_option (\<lambda>rs. (joined_checks rs, sh)) (join_all ss))
      | Committing ss \<Rightarrow>
          (case ch of
             RunSpawned j \<Rightarrow> map_option (map_prod Committing id) (run_spawned (spawned_commit chk tx) j ss sh)
           | _ \<Rightarrow> map_option (\<lambda>rs. (joined_commits rs, sh)) (join_all ss))
      | Aborting ss \<Rightarrow>
          (case ch of
             RunSpawned j \<Rightarrow> map_option (map_prod Aborting id) (run_spawned (spawned_abort tx) j ss sh)
           | _ \<Rightarrow> map_option (\<lambda>rs. joined_aborts rs sh) (join_all ss))
      | AtNotify ans \<Rightarrow> Some (Answered ans, notify_and_remove tx sh)
      | AtNotifications t \<Rightarrow> (let (n, sh') = get_notification t sh in Some (HasNotify n, sh'))
      | HasNotify n \<Rightarrow> Some (AsleepOn n, sh)
      | _ \<Rightarrow> None)"

section \<open>The machine\<close>

record ('k, 'v, 'e) Machine =
  the_shard :: "('k, 'v) Shard"
  tasks :: "('k, 'v, 'e) lock_task list"

fun holds_map :: "('k, 'v, 'e) lock_task \<Rightarrow> bool" where
  "holds_map (tx, c, pc) \<longleftrightarrow> (case pc of Aborting _ \<Rightarrow> True | _ \<Rightarrow> False)"

definition map_free :: "('k, 'v, 'e) Machine \<Rightarrow> bool" where
  "map_free m \<longleftrightarrow> (\<forall>t \<in> set (tasks m). \<not> holds_map t)"

fun walk_ok :: "'k choice \<Rightarrow> ('k, 'v) Shard \<Rightarrow> bool" where
  "walk_ok (Walk es) sh \<longleftrightarrow> enumerates es sh"
| "walk_ok _ sh \<longleftrightarrow> True"

text \<open>The notifications a step fired, and who they wake.\<close>

definition fired :: "('k, 'v) Shard \<Rightarrow> ('k, 'v) Shard \<Rightarrow> notify list" where
  "fired sh sh' = drop (length (notify_calls sh)) (notify_calls sh')"

fun wake :: "notify list \<Rightarrow> ('k, 'v, 'e) lock_task \<Rightarrow> ('k, 'v, 'e) lock_task" where
  "wake ns (tx, c, pc) =
     (tx, c, case pc of AsleepOn n \<Rightarrow> if n \<in> set ns then AtMap else AsleepOn n | _ \<Rightarrow> pc)"

definition move :: "('v \<Rightarrow> (unit, 'e) result) \<Rightarrow> 'v \<Rightarrow> nat \<Rightarrow> 'k choice \<Rightarrow> ('k, 'v, 'e) Machine \<Rightarrow>
    ('k, 'v, 'e) Machine option" where
  "move chk dflt i ch m =
     (if i < length (tasks m) then
        case tasks m ! i of (tx, c, pc) \<Rightarrow>
          if pc = AtMap \<and> \<not> map_free m then None
          else map_option (\<lambda>(pc', sh'). \<lparr>the_shard = sh',
                 tasks = map (wake (fired (the_shard m) sh')) ((tasks m)[i := (tx, c, pc')])\<rparr>)
               (local_step chk dflt ch tx c pc (the_shard m))
      else None)"

inductive lock_step :: "('v \<Rightarrow> (unit, 'e) result) \<Rightarrow> 'v \<Rightarrow> ('k, 'v, 'e) Machine \<Rightarrow> ('k, 'v, 'e) Machine \<Rightarrow> bool"
  for chk :: "'v \<Rightarrow> (unit, 'e) result" and dflt :: 'v
where
  lock_stepI: "move chk dflt i ch m = Some m' \<Longrightarrow> walk_ok ch (the_shard m) \<Longrightarrow> lock_step chk dflt m m'"

definition lock_init :: "(TransactionId \<times> ('k, 'v) call) list \<Rightarrow> ('k, 'v, 'e) Machine \<Rightarrow> bool" where
  "lock_init calls m \<longleftrightarrow>
     (\<exists>n. the_shard m = shard_new n) \<and> tasks m = map (\<lambda>(tx, c). (tx, c, AtMap)) calls"

section \<open>The invariant\<close>

text \<open>
  A shard only grows: objects and notifications that a task holds stay valid, and a notification
  leaves the map only by being fired.
\<close>

definition shard_grows :: "('k, 'v) Shard \<Rightarrow> ('k, 'v) Shard \<Rightarrow> bool" where
  "shard_grows sh sh' \<longleftrightarrow>
     length (cells sh) \<le> length (cells sh') \<and>
     set (notify_calls sh) \<subseteq> set (notify_calls sh') \<and>
     (\<forall>t n. notifications sh t = Some n \<longrightarrow> notifications sh' t = Some n \<or> n \<in> set (notify_calls sh'))"

fun answers :: "('k, 'v) call \<Rightarrow> ('k, 'v) answer \<Rightarrow> bool" where
  "answers (CallRead _) (ReadAnswer _) = True"
| "answers (CallWrite _ _) (WriteAnswer _) = True"
| "answers CallCheck (CheckAnswer _) = True"
| "answers CallCommit (CommitAnswer _) = True"
| "answers CallAbort AbortAnswer = True"
| "answers _ _ = False"

definition waits_validly :: "TransactionId \<Rightarrow> notify \<Rightarrow> ('k, 'v) Shard \<Rightarrow> bool" where
  "waits_validly tx n sh \<longleftrightarrow> (\<exists>t < tx. notifications sh t = Some n) \<or> n \<in> set (notify_calls sh)"

definition spawned_ok :: "('r \<Rightarrow> bool) \<Rightarrow> ('k \<times> 'r spawned) list \<Rightarrow> ('k, 'v) Shard \<Rightarrow> bool" where
  "spawned_ok P ss sh \<longleftrightarrow>
     (\<forall>(k, s) \<in> set ss. case s of Pending a \<Rightarrow> a < length (cells sh) | Joined r \<Rightarrow> \<exists>q. r = Some q \<and> P q)"

definition waits_older :: "TransactionId \<Rightarrow> ('r, 'e CommitFailure) result \<Rightarrow> bool" where
  "waits_older tx r \<longleftrightarrow> (\<forall>t. r = Err (CommitFailure.WaitFor t) \<longrightarrow> t < tx)"

fun task_ok :: "('k, 'v) Shard \<Rightarrow> ('k, 'v, 'e) lock_task \<Rightarrow> bool" where
  "task_ok sh (tx, c, pc) \<longleftrightarrow>
     (case pc of
        AtMap \<Rightarrow> True
      | AtObject a \<Rightarrow> a < length (cells sh) \<and> (\<exists>k v. c = CallRead k \<or> c = CallWrite k v)
      | Checking ss \<Rightarrow> c = CallCheck \<and> spawned_ok (waits_older tx) ss sh
      | Committing ss \<Rightarrow> c = CallCommit \<and> spawned_ok (waits_older tx) ss sh
      | Aborting ss \<Rightarrow> c = CallAbort \<and> spawned_ok (\<lambda>_. True) ss sh
      | AtNotify ans \<Rightarrow> (c = CallCommit \<or> c = CallAbort) \<and> answers c ans
      | AtNotifications t \<Rightarrow> t < tx
      | HasNotify n \<Rightarrow> waits_validly tx n sh
      | AsleepOn n \<Rightarrow> waits_validly tx n sh
      | Answered ans \<Rightarrow> answers c ans
      | Crashed \<Rightarrow> False)"

definition lock_inv :: "('v \<Rightarrow> (unit, 'e) result) \<Rightarrow> ('k, 'v, 'e) Machine \<Rightarrow> bool" where
  "lock_inv chk m \<longleftrightarrow>
     shard_inv chk (the_shard m) \<and> list_all (task_ok (the_shard m)) (tasks m) \<and>
     length (filter holds_map (tasks m)) \<le> 1"

lemma shard_grows_refl [simp]: "shard_grows sh sh"
  by (simp add: shard_grows_def)

lemma shard_grows_notify_and_remove [simp]: "shard_grows sh (notify_and_remove t sh)"
  by (auto simp: shard_grows_def notify_and_remove_def split: option.split)

lemma shard_grows_get_notification [simp]: "shard_grows sh (snd (get_notification t sh))"
  by (auto simp: shard_grows_def get_notification_def split: option.split)

lemma shard_grows_set_cell [simp]: "shard_grows sh (set_cell a ob sh)"
  by (simp add: shard_grows_def set_cell_def)

lemma shard_grows_reap [simp]: "shard_grows sh (reap rs sh)"
  by (simp add: shard_grows_def reap_def)

lemma shard_grows_insert [simp]: "shard_grows sh (snd (get_object_or_insert_if_valid chk dflt k v sh))"
  by (auto simp: shard_grows_def get_object_or_insert_if_valid_def Let_def split: option.split)

lemma waits_validly_grows: "waits_validly tx n sh \<Longrightarrow> shard_grows sh sh' \<Longrightarrow> waits_validly tx n sh'"
  by (auto simp: waits_validly_def shard_grows_def)

lemma spawned_ok_grows: "spawned_ok P ss sh \<Longrightarrow> shard_grows sh sh' \<Longrightarrow> spawned_ok P ss sh'"
  by (fastforce simp: spawned_ok_def shard_grows_def split: spawned.splits)

lemma task_ok_grows: "task_ok sh t \<Longrightarrow> shard_grows sh sh' \<Longrightarrow> task_ok sh' t"
  by (cases t) (auto simp: shard_grows_def dest: spawned_ok_grows[of _ _ sh sh'] waits_validly_grows[of _ _ sh sh']
      split: lock_pc.splits)

lemma task_ok_wake: "task_ok sh t \<Longrightarrow> task_ok sh (wake ns t)"
  by (cases t) (auto split: lock_pc.splits)

lemma holds_map_wake [simp]: "holds_map (wake ns t) = holds_map t"
  by (cases t) (auto split: lock_pc.splits)

lemma fold_reap_le: "fold (\<lambda>(k, can_reap) m. if can_reap then m(k := None) else m) rs m \<subseteq>\<^sub>m m"
proof (induction rs arbitrary: m)
  case (Cons r rs)
  obtain k b where r: "r = (k, b)" by (cases r)
  have "(if b then m(k := None) else m) \<subseteq>\<^sub>m m" by (auto simp: map_le_def)
  from map_le_trans[OF Cons this] show ?case by (simp add: r del: fun_upd_apply)
qed simp

lemma reap_inv: "shard_inv chk sh \<Longrightarrow> shard_inv chk (reap rs sh)"
  unfolding reap_def by (rule shard_inv_submap[OF _ fold_reap_le])

text \<open>A spawned task that runs, whatever it does under the lock.\<close>

lemma run_spawned_ok:
  assumes "run_spawned f j ss sh = Some (ss', sh')" and "spawned_ok P ss sh" and "shard_inv chk sh"
    and "\<And>a r sh'. a < length (cells sh) \<Longrightarrow> f a sh = (r, sh') \<Longrightarrow>
      shard_inv chk sh' \<and> shard_grows sh sh' \<and> (\<exists>q. r = Some q \<and> P q)"
  shows "shard_inv chk sh' \<and> shard_grows sh sh' \<and> spawned_ok P ss' sh'"
proof -
  from assms(1) obtain k a r where j: "j < length ss" "ss ! j = (k, Pending a)" and r: "f a sh = (r, sh')"
    and ss': "ss' = ss[j := (k, Joined r)]"
    by (auto simp: run_spawned_def split: if_splits prod.splits spawned.splits)
  have "(k, Pending a) \<in> set ss" using j nth_mem by metis
  with assms(2) have "a < length (cells sh)" by (force simp: spawned_ok_def)
  from assms(4)[OF this r] spawned_ok_grows[OF assms(2), of sh'] show ?thesis
    by (force simp: ss' spawned_ok_def dest: set_update_subset_insert[THEN subsetD])
qed

lemma join_all_ok:
  assumes "join_all ss = Some rs" and "spawned_ok P ss sh"
  shows "None \<notin> snd ` set rs" and "(k, Some q) \<in> set rs \<Longrightarrow> P q"
proof -
  from assms have "\<forall>(k, r) \<in> set rs. \<exists>q. r = Some q \<and> P q"
    by (induction ss arbitrary: rs rule: join_all.induct) (auto simp: spawned_ok_def)
  then show "None \<notin> snd ` set rs" "(k, Some q) \<in> set rs \<Longrightarrow> P q" by auto
qed

lemma spawned_ok_spawn:
  assumes "shard_inv chk sh" and "enumerates es sh"
  shows "spawned_ok P (spawn es) sh"
  using enumerates_addrs(2)[OF assms] by (auto simp: spawned_ok_def spawn_def)

abbreviation step_ok :: "('v \<Rightarrow> (unit, 'e) result) \<Rightarrow> ('k, 'v) Shard \<Rightarrow> ('k, 'v) Shard \<Rightarrow>
    ('k, 'v, 'e) lock_task \<Rightarrow> bool" where
  "step_ok chk sh sh' t \<equiv> shard_inv chk sh' \<and> shard_grows sh sh' \<and> task_ok sh' t"

lemma lock_map_ok:
  assumes "lock_map chk dflt ch c sh = Some (pc', sh')" and "shard_inv chk sh" and "chk dflt = Ok ()"
    and "walk_ok ch sh"
  shows "step_ok chk sh sh' (tx, c, pc')"
proof (cases c)
  case (CallRead k)
  with assms(1,2) shard_inv_addr[OF assms(2), of k] show ?thesis
    by (auto simp: lock_map_def get_object_def split: option.splits)
next
  case (CallWrite k v)
  obtain q sh1 where q: "get_object_or_insert_if_valid chk dflt k v sh = (q, sh1)"
    by (cases "get_object_or_insert_if_valid chk dflt k v sh")
  have "shard_inv chk sh1" "shard_grows sh sh1"
    using get_or_insert_inv[OF assms(2,3), of k v] shard_grows_insert[of sh chk dflt k v] q by simp_all
  with assms(1) q CallWrite get_or_insert_addr(2)[OF assms(2), of dflt k v] show ?thesis
    by (auto simp: lock_map_def split: option.splits)
qed (use assms spawned_ok_spawn[OF assms(2)] in \<open>auto simp: lock_map_def split: choice.splits\<close>)

lemma lock_object_ok:
  assumes "lock_object tx c a sh = Some (pc', sh')" and "shard_inv chk sh" and "a < length (cells sh)"
  shows "step_ok chk sh sh' (tx, c, pc')"
proof -
  have inv: "object_inv chk (cells sh ! a)" by (rule shard_inv_cell[OF assms(2,3)])
  show ?thesis
  proof (cases c)
    case (CallRead k)
    obtain r ob' where r: "object_read tx (cells sh ! a) = (r, ob')" by (cases "object_read tx (cells sh ! a)")
    have "object_inv chk ob'" using object_read_inv[OF inv, of tx] r by simp
    with assms(1,2) r CallRead show ?thesis
      by (rule_tac object_read_cases[OF inv, of tx])
        (auto simp: lock_object_def after_object_def intro: set_cell_inv)
  next
    case (CallWrite k v)
    obtain r ob' where r: "object_write tx v (cells sh ! a) = (r, ob')"
      by (cases "object_write tx v (cells sh ! a)")
    have "object_inv chk ob'" using object_write_inv[OF inv, of tx v] r by simp
    with assms(1,2) r CallWrite show ?thesis
      by (rule_tac object_write_cases[OF inv, of tx v])
        (auto simp: lock_object_def after_object_def intro: set_cell_inv)
  qed (use assms(1) in \<open>simp_all add: lock_object_def\<close>)
qed

lemma object_check_commit_total: "object_check_commit chk tx ob \<noteq> None"
  by (rule object_check_commit_cases[of tx ob chk]) auto

lemma commit_res_older:
  assumes "object_inv chk ob"
  shows "waits_older tx (commit_res chk tx ob)"
proof -
  have "object_check_commit chk tx ob = Some (Err (CommitFailure.WaitFor t))"
    if "commit_res chk tx ob = Err (CommitFailure.WaitFor t)" for t
    using that by (rule_tac object_check_commit_cases[of tx ob chk])
      (auto simp: commit_res_def object_commit_def Let_def split: result.splits)
  with check_wait_older[OF assms] show ?thesis by (auto simp: waits_older_def)
qed

lemma spawned_check_ok:
  assumes "spawned_check chk tx a sh = (r, sh')" and "shard_inv chk sh" and "a < length (cells sh)"
  shows "shard_inv chk sh' \<and> shard_grows sh sh' \<and> (\<exists>q. r = Some q \<and> waits_older tx q)"
  using assms object_check_commit_total[of chk tx "cells sh ! a"] check_wait_older[OF shard_inv_cell[OF assms(2,3)]]
  by (auto simp: spawned_check_def waits_older_def)

lemma spawned_commit_ok:
  assumes "spawned_commit chk tx a sh = (r, sh')" and "shard_inv chk sh" and "a < length (cells sh)"
  shows "shard_inv chk sh' \<and> shard_grows sh sh' \<and> (\<exists>q. r = Some q \<and> waits_older tx q)"
  using assms commit_res_older[OF shard_inv_cell[OF assms(2,3)]]
    set_cell_inv[OF assms(2) commit_obj_inv[OF shard_inv_cell[OF assms(2,3)]]]
  by (auto simp: spawned_commit_def object_commit_total)

lemma spawned_abort_ok:
  assumes "spawned_abort tx a sh = (r, sh')" and "shard_inv chk sh" and "a < length (cells sh)"
  shows "shard_inv chk sh' \<and> shard_grows sh sh' \<and> (\<exists>q. r = Some q \<and> True)"
  using assms set_cell_inv[OF assms(2) object_abort_inv[OF shard_inv_cell[OF assms(2,3)]]]
  by (auto simp: spawned_abort_def Let_def)

lemma joined_checks_ok:
  assumes "join_all ss = Some rs" and "spawned_ok (waits_older tx) ss sh"
  shows "task_ok sh (tx, CallCheck, joined_checks rs)"
proof -
  note ok = join_all_ok[OF assms]
  have "t < tx" if "scan_checks (map (the \<circ> snd) rs) = ScanWait t" for t
    using scan_checks_wait[OF that] ok by (force simp: waits_older_def image_iff)
  with ok(1) show ?thesis by (auto simp: joined_checks_def split: scan.split)
qed

lemma joined_commits_ok:
  assumes "join_all ss = Some rs" and "spawned_ok (waits_older tx) ss sh"
  shows "task_ok sh (tx, CallCommit, joined_commits rs)"
proof -
  note ok = join_all_ok[OF assms]
  have "t < tx" if "scan_commits (map (map_prod id the) rs) = ScanWait t" for t
    using scan_commits_wait[OF that] ok by (force simp: waits_older_def image_iff)
  with ok(1) show ?thesis by (auto simp: joined_commits_def Let_def split: scan.split)
qed

lemma local_step_ok:
  assumes "local_step chk dflt ch tx c pc sh = Some (pc', sh')" and "task_ok sh (tx, c, pc)"
    and "shard_inv chk sh" and "chk dflt = Ok ()" and "walk_ok ch sh"
  shows "step_ok chk sh sh' (tx, c, pc')"
proof (cases pc)
  case AtMap
  with assms(1) lock_map_ok[OF _ assms(3-5)] show ?thesis by (simp add: local_step_def)
next
  case (AtObject a)
  with assms(1,2) lock_object_ok[OF _ assms(3)] show ?thesis by (simp add: local_step_def)
next
  case (Checking ss)
  then have ok: "c = CallCheck" "spawned_ok (waits_older tx) ss sh" using assms(2) by simp_all
  from assms(1) Checking consider (run) j ss' where "run_spawned (spawned_check chk tx) j ss sh = Some (ss', sh')" "pc' = Checking ss'"
    | (join) rs where "join_all ss = Some rs" "pc' = joined_checks rs" "sh' = sh"
    by (auto simp: local_step_def split: choice.splits)
  then show ?thesis
  proof cases
    case run
    from run_spawned_ok[OF run(1) ok(2) assms(3)] spawned_check_ok[OF _ assms(3)] run(2) ok(1) show ?thesis
      by simp
  next
    case join
    with joined_checks_ok[OF join(1)] ok assms(3) show ?thesis by simp
  qed
next
  case (Committing ss)
  then have ok: "c = CallCommit" "spawned_ok (waits_older tx) ss sh" using assms(2) by simp_all
  from assms(1) Committing consider (run) j ss' where "run_spawned (spawned_commit chk tx) j ss sh = Some (ss', sh')" "pc' = Committing ss'"
    | (join) rs where "join_all ss = Some rs" "pc' = joined_commits rs" "sh' = sh"
    by (auto simp: local_step_def split: choice.splits)
  then show ?thesis
  proof cases
    case run
    from run_spawned_ok[OF run(1) ok(2) assms(3)] spawned_commit_ok[OF _ assms(3)] run(2) ok(1) show ?thesis
      by simp
  next
    case join
    with joined_commits_ok[OF join(1)] ok assms(3) show ?thesis by simp
  qed
next
  case (Aborting ss)
  then have ok: "c = CallAbort" "spawned_ok (\<lambda>_. True) ss sh" using assms(2) by simp_all
  from assms(1) Aborting consider (run) j ss' where "run_spawned (spawned_abort tx) j ss sh = Some (ss', sh')" "pc' = Aborting ss'"
    | (join) rs where "join_all ss = Some rs" "(pc', sh') = joined_aborts rs sh"
    by (auto simp: local_step_def split: choice.splits)
  then show ?thesis
  proof cases
    case run
    from run_spawned_ok[OF run(1) ok(2) assms(3)] spawned_abort_ok[OF _ assms(3)] run(2) ok(1) show ?thesis
      by simp
  next
    case join
    with join_all_ok(1)[OF join(1) ok(2)] ok(1) reap_inv[OF assms(3)] show ?thesis
      by (simp add: joined_aborts_def)
  qed
next
  case (AtNotify ans)
  with assms(1-3) notify_and_remove_inv[OF assms(3), of tx] show ?thesis by (auto simp: local_step_def)
next
  case (AtNotifications t)
  obtain n sh1 where n: "get_notification t sh = (n, sh1)" by (cases "get_notification t sh")
  then have "notifications sh1 t = Some n" by (auto simp: get_notification_def split: option.splits)
  with AtNotifications n assms(1-3) get_notification_inv[OF assms(3), of t] shard_grows_get_notification[of sh t]
  show ?thesis by (auto simp: local_step_def waits_validly_def)
qed (use assms(1-3) in \<open>auto simp: local_step_def\<close>)

section \<open>Runs of the machine\<close>

lemma moveE:
  assumes "move chk dflt i ch m = Some m'"
  obtains tx c pc pc' sh' where "i < length (tasks m)" "tasks m ! i = (tx, c, pc)" "pc = AtMap \<longrightarrow> map_free m"
    "local_step chk dflt ch tx c pc (the_shard m) = Some (pc', sh')"
    "m' = \<lparr>the_shard = sh', tasks = map (wake (fired (the_shard m) sh')) ((tasks m)[i := (tx, c, pc')])\<rparr>"
  using assms by (auto simp: move_def split: if_splits prod.splits)

lemma local_step_takes_map:
  assumes "local_step chk dflt ch tx c pc sh = Some (pc', sh')" and "holds_map (tx, c, pc')"
  shows "pc = AtMap \<or> holds_map (tx, c, pc)"
  using assms by (cases pc) (auto simp: local_step_def lock_object_def after_object_def joined_checks_def
      joined_commits_def Let_def split: call.splits choice.splits option.splits prod.splits if_splits scan.splits
      result.splits RWFailure.splits)

lemma move_inv:
  assumes "move chk dflt i ch m = Some m'" and "walk_ok ch (the_shard m)" and "lock_inv chk m" and "chk dflt = Ok ()"
  shows "lock_inv chk m'"
proof -
  from assms(1) obtain tx c pc pc' sh' where mv: "i < length (tasks m)" "tasks m ! i = (tx, c, pc)"
    "pc = AtMap \<longrightarrow> map_free m" "local_step chk dflt ch tx c pc (the_shard m) = Some (pc', sh')"
    "m' = \<lparr>the_shard = sh', tasks = map (wake (fired (the_shard m) sh')) ((tasks m)[i := (tx, c, pc')])\<rparr>"
    by (rule moveE)
  have inv: "shard_inv chk (the_shard m)" "list_all (task_ok (the_shard m)) (tasks m)"
    "length (filter holds_map (tasks m)) \<le> 1" using assms(3) by (simp_all add: lock_inv_def)
  have "task_ok (the_shard m) (tx, c, pc)" using inv(2) mv(1,2) by (metis list_all_length)
  note ok = local_step_ok[OF mv(4) this inv(1) assms(4,2)]
  have "list_all (task_ok sh') (tasks m)"
    using inv(2) ok task_ok_grows[of "the_shard m" _ sh'] by (auto simp: list_all_iff)
  then have "list_all (task_ok sh') ((tasks m)[i := (tx, c, pc')])" by (rule list_all_update) (use ok in blast)
  then have 1: "list_all (task_ok sh') (tasks m')" by (simp add: mv(5) list_all_iff task_ok_wake del: task_ok.simps)
  have free: "length (filter holds_map (tasks m)) = 0" if "pc = AtMap"
    using mv(3) that by (simp add: map_free_def filter_empty_conv)
  have "length (filter holds_map ((tasks m)[i := (tx, c, pc')])) \<le> 1"
    using length_filter_update[OF mv(1), of holds_map "(tx, c, pc')"] inv(3) free
      local_step_takes_map[OF mv(4)] mv(2) by (cases "pc = AtMap") (simp_all del: holds_map.simps split: if_splits)
  then have "length (filter holds_map (tasks m')) \<le> 1" by (simp add: mv(5) filter_map comp_def)
  with 1 ok show ?thesis by (simp add: lock_inv_def mv(5))
qed

lemma lock_init_inv: "lock_init calls m \<Longrightarrow> lock_inv chk m"
  by (auto simp: lock_init_def lock_inv_def list_all_iff filter_map comp_def case_prod_beta intro: shard_new_inv)

type_synonym account_machine = "(AccountId, Amount, NegativeBalance) Machine"

abbreviation lock_reachable :: "(TransactionId \<times> (AccountId, Amount) call) list \<Rightarrow> account_machine \<Rightarrow> bool" where
  "lock_reachable calls \<equiv> reach (lock_init calls) (lock_step check_amount 0)"

interpretation locks: step_invariant "lock_init calls" "lock_step check_amount 0" "lock_inv check_amount"
  for calls :: "(TransactionId \<times> (AccountId, Amount) call) list"
proof
  fix m m' :: account_machine
  assume "lock_inv check_amount m" and "lock_step check_amount 0 m m'"
  then show "lock_inv check_amount m'" by (auto elim!: lock_step.cases intro: move_inv)
qed (rule lock_init_inv)

section \<open>Every run ends\<close>

definition pending_count :: "('k \<times> 'r spawned) list \<Rightarrow> nat" where
  "pending_count ss = length (filter (\<lambda>(k, s). \<exists>a. s = Pending a) ss)"

fun task_rank :: "('k, 'v, 'e) lock_task \<Rightarrow> nat" where
  "task_rank (tx, c, pc) =
     (case pc of
        AtObject _ \<Rightarrow> 5
      | Checking ss \<Rightarrow> 5 + pending_count ss
      | Committing ss \<Rightarrow> 5 + pending_count ss
      | Aborting ss \<Rightarrow> 5 + pending_count ss
      | AtNotifications _ \<Rightarrow> 4
      | HasNotify _ \<Rightarrow> 3
      | AtNotify _ \<Rightarrow> 1
      | _ \<Rightarrow> 0)"

fun task_open :: "('k, 'v, 'e) lock_task \<Rightarrow> bool" where
  "task_open (tx, c, pc) \<longleftrightarrow> (case pc of Answered _ \<Rightarrow> False | Crashed \<Rightarrow> False | _ \<Rightarrow> True)"

fun task_at_map :: "('k, 'v, 'e) lock_task \<Rightarrow> bool" where
  "task_at_map (tx, c, pc) \<longleftrightarrow> pc = AtMap"

text \<open>
  A task that answers leaves fewer open tasks, and only such a step can wake others; any other
  step brings its task from the top of the loop into it, or further down.
\<close>

definition lock_measure :: "(('k, 'v, 'e) Machine \<times> ('k, 'v, 'e) Machine) set" where
  "lock_measure = measures [\<lambda>m. length (filter task_open (tasks m)),
     \<lambda>m. length (filter task_at_map (tasks m)), \<lambda>m. sum_list (map task_rank (tasks m))]"

lemma wake_Nil [simp]: "wake [] t = t"
  by (cases t) (auto split: lock_pc.split)

lemma map_wake_Nil [simp]: "map (wake []) xs = xs"
  by (induction xs) auto

lemma task_open_wake [simp]: "task_open (wake ns t) = task_open t"
  by (cases t) (auto split: lock_pc.splits)

lemma notify_calls_frame [simp]:
  "notify_calls (set_cell a ob sh) = notify_calls sh"
  "notify_calls (reap rs sh) = notify_calls sh"
  "notify_calls (snd (get_notification t sh)) = notify_calls sh"
  "notify_calls (snd (get_object_or_insert_if_valid chk dflt k v sh)) = notify_calls sh"
  by (auto simp: set_cell_def reap_def get_notification_def get_object_or_insert_if_valid_def Let_def
      split: option.split)

lemma get_or_insert_calls:
  "get_object_or_insert_if_valid chk dflt k v sh = (q, sh') \<Longrightarrow> notify_calls sh' = notify_calls sh"
  using notify_calls_frame(4)[of chk dflt k v sh] by (simp del: notify_calls_frame)

lemma get_notification_calls: "get_notification t sh = (n, sh') \<Longrightarrow> notify_calls sh' = notify_calls sh"
  using notify_calls_frame(3)[of t sh] by (simp del: notify_calls_frame)

lemma run_spawned_frame:
  assumes "run_spawned f j ss sh = Some (ss', sh')"
  shows "\<exists>a. sh' = snd (f a sh)" and "pending_count ss' < pending_count ss"
proof -
  from assms obtain k a r where j: "j < length ss" "ss ! j = (k, Pending a)" and r: "f a sh = (r, sh')"
    and ss': "ss' = ss[j := (k, Joined r)]"
    by (auto simp: run_spawned_def split: if_splits prod.splits spawned.splits)
  show "\<exists>a. sh' = snd (f a sh)" using r by (intro exI[of _ a]) simp
  show "pending_count ss' < pending_count ss"
    using length_filter_update[OF j(1), of "\<lambda>(k, s). \<exists>a. s = Pending a" "(k, Joined r)"] j(2)
    by (simp add: pending_count_def ss')
qed

lemma spawned_frame [simp]:
  "notify_calls (snd (spawned_check chk tx a sh)) = notify_calls sh"
  "notify_calls (snd (spawned_commit chk tx a sh)) = notify_calls sh"
  "notify_calls (snd (spawned_abort tx a sh)) = notify_calls sh"
  by (simp_all add: spawned_check_def spawned_commit_def spawned_abort_def object_commit_total Let_def)

lemma local_step_descends:
  fixes sh sh' :: "('k, 'v) Shard" and pc pc' :: "('k, 'v, 'e) lock_pc"
  assumes "local_step chk dflt ch tx c pc sh = Some (pc', sh')"
  shows "task_open (tx, c, pc) \<and>
    (\<not> task_open (tx, c, pc') \<or> pc' \<noteq> AtMap \<and> notify_calls sh' = notify_calls sh \<and>
       (pc = AtMap \<or> task_rank (tx, c, pc') < task_rank (tx, c, pc)))"
proof (cases pc)
  case AtMap
  with assms have s: "lock_map chk dflt ch c sh = Some (pc', sh')" by (simp add: local_step_def)
  have "notify_calls sh' = notify_calls sh"
    using s by (cases c) (auto simp: lock_map_def dest: get_or_insert_calls
        split: option.splits prod.splits choice.splits)
  moreover have "pc' \<noteq> AtMap"
    using s by (cases c) (auto simp: lock_map_def split: option.splits prod.splits choice.splits)
  ultimately show ?thesis using AtMap by simp
next
  case (AtObject a)
  with assms show ?thesis
    by (auto simp: local_step_def lock_object_def after_object_def split: call.splits prod.splits result.splits
        RWFailure.splits)
next
  case (Checking ss)
  with assms consider (run) j ss' where "run_spawned (spawned_check chk tx) j ss sh = Some (ss', sh')" "pc' = Checking ss'"
    | (join) rs where "pc' = joined_checks rs" "sh' = sh"
    by (auto simp: local_step_def split: choice.splits)
  then show ?thesis
  proof cases
    case run
    from run_spawned_frame[OF run(1)] run(2) Checking show ?thesis by auto
  next
    case join
    with Checking show ?thesis by (auto simp: joined_checks_def split: scan.splits)
  qed
next
  case (Committing ss)
  with assms consider (run) j ss' where "run_spawned (spawned_commit chk tx) j ss sh = Some (ss', sh')" "pc' = Committing ss'"
    | (join) rs where "pc' = joined_commits rs" "sh' = sh"
    by (auto simp: local_step_def split: choice.splits)
  then show ?thesis
  proof cases
    case run
    from run_spawned_frame[OF run(1)] run(2) Committing show ?thesis by auto
  next
    case join
    with Committing show ?thesis by (auto simp: joined_commits_def Let_def split: scan.splits)
  qed
next
  case (Aborting ss)
  with assms consider (run) j ss' where "run_spawned (spawned_abort tx) j ss sh = Some (ss', sh')" "pc' = Aborting ss'"
    | (join) rs where "joined_aborts rs sh = (pc', sh')"
    by (auto simp: local_step_def split: choice.splits)
  then show ?thesis
  proof cases
    case run
    from run_spawned_frame[OF run(1)] run(2) Aborting show ?thesis by auto
  next
    case join
    with Aborting show ?thesis by (auto simp: joined_aborts_def split: if_splits)
  qed
next
  case (AtNotifications t)
  with assms show ?thesis by (auto simp: local_step_def dest: get_notification_calls split: prod.splits)
qed (use assms in \<open>auto simp: local_step_def\<close>)

lemma lock_step_measure:
  assumes "lock_step chk dflt m m'"
  shows "(m', m) \<in> lock_measure"
proof -
  from assms obtain i ch where "move chk dflt i ch m = Some m'" by (auto elim: lock_step.cases)
  then obtain tx c pc pc' sh' where mv: "i < length (tasks m)" "tasks m ! i = (tx, c, pc)"
    "local_step chk dflt ch tx c pc (the_shard m) = Some (pc', sh')"
    "m' = \<lparr>the_shard = sh', tasks = map (wake (fired (the_shard m) sh')) ((tasks m)[i := (tx, c, pc')])\<rparr>"
    by (rule moveE)
  let ?u = "(tasks m)[i := (tx, c, pc')]"
  note d = local_step_descends[OF mv(3)]
  have open': "filter task_open (tasks m') = map (wake (fired (the_shard m) sh')) (filter task_open ?u)"
    by (simp add: mv(4) filter_map comp_def)
  note o = length_filter_update[OF mv(1), of task_open "(tx, c, pc')"]
    and s = length_filter_update[OF mv(1), of task_at_map "(tx, c, pc')"]
  show ?thesis
  proof (cases "task_open (tx, c, pc')")
    case False
    with o d mv(2) open' show ?thesis by (simp add: lock_measure_def del: task_open.simps)
  next
    case True
    with d have q: "pc' \<noteq> AtMap" "notify_calls sh' = notify_calls (the_shard m)"
      "pc = AtMap \<or> task_rank (tx, c, pc') < task_rank (tx, c, pc)" by auto
    then have u: "tasks m' = ?u" by (simp add: mv(4) fired_def)
    have "sum_list (map task_rank ?u) + task_rank (tx, c, pc) = sum_list (map task_rank (tasks m)) + task_rank (tx, c, pc')"
      using sum_list_map_update[OF mv(1), of task_rank "(tx, c, pc')"] mv(2) by (simp only:)
    with q o s d u True mv(2) show ?thesis
      by (cases "pc = AtMap") (simp_all add: lock_measure_def del: task_open.simps task_rank.simps)
  qed
qed

text \<open>
  C9. Every run of the machine ends: there is no infinite sequence of steps from any state, whatever
  the calls, the schedule and the order of the spawned tasks. A call loops only after having
  been woken, and only a call that answers wakes others.
\<close>

theorem lock_runs_end: "wfp (\<lambda>m' m. lock_step chk dflt m m')"
proof -
  have "{(m', m). lock_step chk dflt m m'} \<subseteq> lock_measure" using lock_step_measure by auto
  then show ?thesis
    unfolding wfp_def by (rule wf_subset[rotated]) (simp add: lock_measure_def)
qed

section \<open>No task is stuck on a lock\<close>

lemma spawned_progress:
  "(\<exists>j ss' sh'. run_spawned f j ss sh = Some (ss', sh')) \<or> (\<exists>rs. join_all ss = Some rs)"
proof (induction ss rule: join_all.induct)
  case (2 k r ss)
  then show ?case
  proof
    assume "\<exists>j ss' sh'. run_spawned f j ss sh = Some (ss', sh')"
    then obtain j ss' sh' where "run_spawned f j ss sh = Some (ss', sh')" by blast
    then have "\<exists>ss'' sh''. run_spawned f (Suc j) ((k, Joined r) # ss) sh = Some (ss'', sh'')"
      by (auto simp: run_spawned_def split: if_splits prod.splits spawned.splits)
    then show ?thesis by blast
  qed auto
next
  case (3 k a ss)
  have "\<exists>ss'' sh''. run_spawned f 0 ((k, Pending a) # ss) sh = Some (ss'', sh'')"
    by (auto simp: run_spawned_def split: prod.split)
  then show ?case by blast
qed simp

lemma spawned_choice:
  "\<exists>ch. walk_ok ch sh \<and>
     (case ch of RunSpawned j \<Rightarrow> run_spawned f j ss sh \<noteq> None | _ \<Rightarrow> join_all ss \<noteq> None)"
  using spawned_progress[of f ss sh]
proof
  assume "\<exists>j ss' sh'. run_spawned f j ss sh = Some (ss', sh')"
  then obtain j where "run_spawned f j ss sh \<noteq> None" by auto
  then show ?thesis by (intro exI[of _ "RunSpawned j"]) simp
next
  assume "\<exists>rs. join_all ss = Some rs"
  then show ?thesis by (intro exI[of _ Proceed]) auto
qed

lemma local_step_progress:
  assumes "task_ok sh (tx, c, pc)" and "shard_inv chk sh" and "\<nexists>n. pc = AsleepOn n" and "\<nexists>ans. pc = Answered ans"
  shows "\<exists>ch q. walk_ok ch sh \<and> local_step chk dflt ch tx c pc sh = Some q"
proof (cases pc)
  case AtMap
  obtain es where "enumerates es sh" by (rule enumerates_exists[OF assms(2)])
  then have "walk_ok (Walk es) sh \<and> (\<exists>q. local_step chk dflt (Walk es) tx c pc sh = Some q)"
    by (cases c) (simp_all add: AtMap local_step_def lock_map_def)
  then show ?thesis by blast
next
  case (AtObject a)
  with assms(1) have "\<exists>q. local_step chk dflt Proceed tx c pc sh = Some q"
    by (auto simp: local_step_def lock_object_def split: prod.split)
  then show ?thesis by (intro exI[of _ Proceed]) simp
next
  case (AtNotify ans)
  then show ?thesis by (intro exI[of _ Proceed]) (simp add: local_step_def)
next
  case (AtNotifications t)
  then show ?thesis by (intro exI[of _ Proceed]) (simp add: local_step_def split: prod.split)
next
  case (HasNotify n)
  then show ?thesis by (intro exI[of _ Proceed]) (simp add: local_step_def)
next
  case (Checking ss)
  obtain ch where "walk_ok ch sh" "case ch of RunSpawned j \<Rightarrow> run_spawned (spawned_check chk tx) j ss sh \<noteq> None
      | _ \<Rightarrow> join_all ss \<noteq> None" using spawned_choice by blast
  then show ?thesis by (intro exI[of _ ch]) (auto simp: Checking local_step_def split: choice.splits)
next
  case (Committing ss)
  obtain ch where "walk_ok ch sh" "case ch of RunSpawned j \<Rightarrow> run_spawned (spawned_commit chk tx) j ss sh \<noteq> None
      | _ \<Rightarrow> join_all ss \<noteq> None" using spawned_choice by blast
  then show ?thesis by (intro exI[of _ ch]) (auto simp: Committing local_step_def split: choice.splits)
next
  case (Aborting ss)
  obtain ch where "walk_ok ch sh" "case ch of RunSpawned j \<Rightarrow> run_spawned (spawned_abort tx) j ss sh \<noteq> None
      | _ \<Rightarrow> join_all ss \<noteq> None" using spawned_choice by blast
  then show ?thesis by (intro exI[of _ ch]) (auto simp: Aborting local_step_def split: choice.splits)
qed (use assms in auto)

lemma machine_progress:
  assumes "lock_inv chk m" and "t \<in> set (tasks m)" and "\<nexists>tx c n. t = (tx, c, AsleepOn n)"
    and "\<nexists>tx c ans. t = (tx, c, Answered ans)"
  shows "\<exists>m'. lock_step chk dflt m m'"
proof -
  have can: "\<exists>m'. lock_step chk dflt m m'"
    if t: "t \<in> set (tasks m)" "t = (tx, c, pc)" "\<nexists>n. pc = AsleepOn n" "\<nexists>ans. pc = Answered ans" "pc = AtMap \<longrightarrow> map_free m"
    for t tx c pc
  proof -
    from t(1) obtain i where i: "i < length (tasks m)" "tasks m ! i = t" by (auto simp: in_set_conv_nth)
    have "task_ok (the_shard m) (tx, c, pc)" using assms(1) t(1,2) by (auto simp: lock_inv_def list_all_iff simp del: task_ok.simps)
    from local_step_progress[OF this _ t(3,4), of chk dflt] assms(1)
    obtain ch q where q: "walk_ok ch (the_shard m)" "local_step chk dflt ch tx c pc (the_shard m) = Some q"
      by (auto simp: lock_inv_def)
    then have "\<exists>m'. move chk dflt i ch m = Some m'" using i t(2,5) by (auto simp: move_def)
    with q(1) show ?thesis by (auto intro: lock_stepI)
  qed
  obtain tx c pc where t: "t = (tx, c, pc)" by (cases t)
  show ?thesis
  proof (cases "map_free m")
    case True
    with can[OF assms(2) t] assms(3,4) t show ?thesis by blast
  next
    case False
    then obtain h tx' c' ss where "h \<in> set (tasks m)" "h = (tx', c', Aborting ss)"
      by (auto simp: map_free_def split: lock_pc.splits)
    from can[OF this] show ?thesis by auto
  qed
qed

text \<open>
  C10. No task is ever stuck on a lock: when the machine can make no further step, every call has
  been answered with an answer of its kind, or is suspended on the notification of a strictly
  older transaction or on one that has been fired before.
\<close>

theorem lock_quiescent:
  assumes "lock_reachable calls m" and "\<nexists>m'. lock_step check_amount 0 m m'" and "(tx, c, pc) \<in> set (tasks m)"
  shows "(\<exists>ans. pc = Answered ans \<and> answers c ans) \<or>
    (\<exists>n. pc = AsleepOn n \<and> ((\<exists>t < tx. notifications (the_shard m) t = Some n) \<or> n \<in> set (notify_calls (the_shard m))))"
proof -
  have inv: "lock_inv check_amount m" using assms(1) by (rule locks.reach_inv)
  then have ok: "task_ok (the_shard m) (tx, c, pc)"
    using assms(3) by (auto simp: lock_inv_def list_all_iff simp del: task_ok.simps)
  have "(\<exists>n. pc = AsleepOn n) \<or> (\<exists>ans. pc = Answered ans)"
    using machine_progress[OF inv assms(3), of 0] assms(2) by auto
  with ok show ?thesis by (auto simp: waits_validly_def)
qed

text \<open>
  C6. At the granularity of the locks, no committed balance is ever negative, in the objects of the
  map and in those that were removed from it, no spawned task and no call panics, and at most
  one task holds the object map across an await.
\<close>

theorem lock_safety:
  assumes "lock_reachable calls m"
  shows "(\<forall>ob \<in> set (cells (the_shard m)). 0 \<le> sint (obj_value ob)) \<and>
    (\<forall>(tx, c, pc) \<in> set (tasks m). pc \<noteq> Crashed) \<and> length (filter holds_map (tasks m)) \<le> 1"
proof -
  have inv: "lock_inv check_amount m" using assms by (rule locks.reach_inv)
  then have "\<forall>ob \<in> set (cells (the_shard m)). object_inv check_amount ob"
    and "\<forall>t \<in> set (tasks m). task_ok (the_shard m) t" and "length (filter holds_map (tasks m)) \<le> 1"
    by (simp_all add: lock_inv_def shard_inv_def list_all_iff)
  then show ?thesis
    using object_invD(4)[of check_amount] by (auto simp: check_amount_Ok_iff split: lock_pc.splits)
qed

end
