(* ===== verification/Shard_Races.thy ===== *)
theory Shard_Races
  imports Shard_Locks
begin

text \<open>
  What the machine at the granularity of locks has to do with the atomic passes of the shard: a pass
  is a run of one task that nobody interrupts, so everything the atomic model can do the machine
  can do. The converse fails, and two runs show where: a wake-up that comes between the failed
  read and the wait is lost for good, and an abort that removes an object between a writer's
  lookup and its write makes the acknowledged write vanish.
\<close>

section \<open>An undisturbed pass\<close>

definition call_pass :: "('v \<Rightarrow> (unit, 'e) result) \<Rightarrow> 'v \<Rightarrow> ('k \<times> addr) list \<Rightarrow> TransactionId \<Rightarrow> ('k, 'v) call \<Rightarrow>
    ('k, 'v) Shard \<Rightarrow> (('k, 'v) answer pass \<times> ('k, 'v) Shard) option" where
  "call_pass chk dflt es tx c sh =
     (case c of
        CallRead k \<Rightarrow> Some (map_prod (map_pass ReadAnswer) id (shard_read_pass tx k sh))
      | CallWrite k v \<Rightarrow> Some (map_prod (map_pass WriteAnswer) id (shard_write_pass chk dflt tx k v sh))
      | CallCheck \<Rightarrow> map_option (map_prod (map_pass CheckAnswer) id) (shard_check_commit_pass chk es tx sh)
      | CallCommit \<Rightarrow> map_option (map_prod (map_pass CommitAnswer) id) (shard_commit_pass chk es tx sh)
      | CallAbort \<Rightarrow> Some (Return AbortAnswer, shard_abort es tx sh))"

fun after_pass :: "('k, 'v) answer pass \<Rightarrow> ('k, 'v, 'e) lock_pc" where
  "after_pass (Return ans) = Answered ans"
| "after_pass (Suspended n) = AsleepOn n"

definition put :: "('k, 'v, 'e) Machine \<Rightarrow> nat \<Rightarrow> ('k, 'v, 'e) lock_task \<Rightarrow> ('k, 'v) Shard \<Rightarrow> ('k, 'v, 'e) Machine" where
  "put m i t sh = \<lparr>the_shard = sh, tasks = (tasks m)[i := t]\<rparr>"

lemma put_sel [simp]: "the_shard (put m i t sh) = sh" "tasks (put m i t sh) = (tasks m)[i := t]"
  by (simp_all add: put_def)

lemma undisturbed_step:
  assumes "local_step chk dflt ch tx c pc sh = Some (pc', sh')" and "notify_calls sh' = notify_calls sh"
    and "i < length (tasks m)" and "walk_ok ch sh" and "pc = AtMap \<longrightarrow> map_free m"
  shows "lock_step chk dflt (put m i (tx, c, pc) sh) (put m i (tx, c, pc') sh')"
proof (rule lock_stepI[of _ _ i ch])
  have "map_free (put m i (tx, c, pc) sh)" if "pc = AtMap"
    using assms(5) that by (auto simp: map_free_def dest!: set_update_subset_insert[THEN subsetD])
  with assms(1-3) show "move chk dflt i ch (put m i (tx, c, pc) sh) = Some (put m i (tx, c, pc') sh')"
    by (simp add: move_def put_def fired_def)
qed (use assms(4) in simp)

lemma notify_step:
  assumes "i < length (tasks m)"
  shows "lock_step chk dflt (put m i (tx, c, AtNotify ans) sh)
    \<lparr>the_shard = notify_and_remove tx sh,
     tasks = map (wake (fired sh (notify_and_remove tx sh))) ((tasks m)[i := (tx, c, Answered ans)])\<rparr>"
  using assms by (intro lock_stepI[of _ _ i Proceed]) (simp_all add: move_def local_step_def put_def)

lemma suspend_steps:
  assumes "i < length (tasks m)" and "suspend t sh = (Suspended n, sh')"
  shows "(lock_step chk dflt)\<^sup>*\<^sup>* (put m i (tx, c, AtNotifications t) sh) (put m i (tx, c, AsleepOn n) sh')"
proof -
  have g: "get_notification t sh = (n, sh')" using assms(2) by (auto simp: suspend_def split: prod.splits)
  have "lock_step chk dflt (put m i (tx, c, AtNotifications t) sh) (put m i (tx, c, HasNotify n) sh')"
    by (rule undisturbed_step[where ch = Proceed])
      (use g assms(1) get_notification_calls[OF g] in \<open>simp_all add: local_step_def\<close>)
  moreover have "lock_step chk dflt (put m i (tx, c, HasNotify n) sh') (put m i (tx, c, AsleepOn n) sh')"
    by (rule undisturbed_step[where ch = Proceed]) (use assms(1) in \<open>simp_all add: local_step_def\<close>)
  ultimately show ?thesis by (meson converse_rtranclp_into_rtranclp rtranclp.rtrancl_refl)
qed

text \<open>The spawned tasks one after the other, in the order of the walk.\<close>

fun run_all :: "(addr \<Rightarrow> 's \<Rightarrow> 'r option \<times> 's) \<Rightarrow> ('k \<times> addr) list \<Rightarrow> 's \<Rightarrow> ('k \<times> 'r option) list \<times> 's" where
  "run_all f [] sh = ([], sh)"
| "run_all f ((k, a) # es) sh =
     (let (r, sh1) = f a sh; (rs, sh2) = run_all f es sh1 in ((k, r) # rs, sh2))"

definition joined :: "('k \<times> 'r option) list \<Rightarrow> ('k \<times> 'r spawned) list" where
  "joined rs = map (map_prod id Joined) rs"

lemma join_all_joined [simp]: "join_all (joined rs) = Some rs"
  by (induction rs) (auto simp: joined_def)

lemma spawned_steps:
  assumes "i < length (tasks m)" and "\<And>ss. C ss \<noteq> AtMap"
    and "\<And>j ss sh. local_step chk dflt (RunSpawned j) tx c (C ss) sh = map_option (map_prod C id) (run_spawned f j ss sh)"
    and "\<And>a sh. notify_calls (snd (f a sh)) = notify_calls sh"
    and "run_all f es sh = (rs, sh')"
  shows "(lock_step chk dflt)\<^sup>*\<^sup>* (put m i (tx, c, C (pre @ spawn es)) sh) (put m i (tx, c, C (pre @ joined rs)) sh') \<and>
    notify_calls sh' = notify_calls sh"
  using assms(5)
proof (induction es arbitrary: pre sh rs)
  case Nil
  then show ?case by (simp add: spawn_def joined_def)
next
  case (Cons e es)
  obtain k a where e: "e = (k, a)" by (cases e)
  obtain r sh1 where r: "f a sh = (r, sh1)" by (cases "f a sh")
  from Cons.prems e r obtain rs1 where rs: "rs = (k, r) # rs1" "run_all f es sh1 = (rs1, sh')"
    by (auto split: prod.splits)
  have "run_spawned f (length pre) (pre @ spawn (e # es)) sh = Some ((pre @ [(k, Joined r)]) @ spawn es, sh1)"
    by (simp add: run_spawned_def spawn_def e r)
  with assms(3) have "local_step chk dflt (RunSpawned (length pre)) tx c (C (pre @ spawn (e # es))) sh =
      Some (C ((pre @ [(k, Joined r)]) @ spawn es), sh1)" by simp
  from undisturbed_step[OF this _ assms(1)] assms(4)[of a sh] assms(2) r
  have "lock_step chk dflt (put m i (tx, c, C (pre @ spawn (e # es))) sh)
      (put m i (tx, c, C ((pre @ [(k, Joined r)]) @ spawn es)) sh1)" by simp
  with Cons.IH[OF rs(2), of "pre @ [(k, Joined r)]"] assms(4)[of a sh] r show ?case
    by (auto simp: rs(1) joined_def intro: converse_rtranclp_into_rtranclp)
qed

lemma run_all_check:
  "run_all (spawned_check chk tx) es sh = (map (\<lambda>(k, a). (k, object_check_commit chk tx (cells sh ! a))) es, sh)"
  by (induction es) (auto simp: spawned_check_def)

lemma run_all_commit:
  "commit_cells chk es tx sh = Some (rs, sh') \<Longrightarrow>
     run_all (spawned_commit chk tx) es sh = (map (map_prod id Some) rs, sh')"
  by (induction es arbitrary: sh rs) (auto simp: spawned_commit_def split: option.splits prod.splits)

lemma run_all_abort:
  "abort_cells es tx sh = (rs, sh') \<Longrightarrow> run_all (spawned_abort tx) es sh = (map (map_prod id Some) rs, sh')"
  by (induction es arbitrary: sh rs) (auto simp: spawned_abort_def Let_def split: prod.splits)

definition pass_done :: "('k, 'v, 'e) Machine \<Rightarrow> nat \<Rightarrow> TransactionId \<Rightarrow> ('k, 'v) call \<Rightarrow> ('k, 'v) answer pass \<Rightarrow>
    ('k, 'v) Shard \<Rightarrow> ('k, 'v, 'e) Machine" where
  "pass_done m i tx c p sh' =
     \<lparr>the_shard = sh', tasks = map (wake (fired (the_shard m) sh')) ((tasks m)[i := (tx, c, after_pass p)])\<rparr>"

lemma pass_done_put:
  "notify_calls sh' = notify_calls (the_shard m) \<Longrightarrow> pass_done m i tx c p sh' = put m i (tx, c, after_pass p) sh'"
  by (simp add: pass_done_def put_def fired_def)

lemma suspend_done:
  assumes "i < length (tasks m)" and "suspend t sh = (q, sh')" and "notify_calls sh = notify_calls (the_shard m)"
  shows "(lock_step chk dflt)\<^sup>*\<^sup>* (put m i (tx, c, AtNotifications t) sh) (pass_done m i tx c (map_pass f q) sh')"
proof -
  obtain n where n: "q = Suspended n" "get_notification t sh = (n, sh')"
    using assms(2) by (auto simp: suspend_def split: prod.splits)
  with suspend_steps[OF assms(1), of t sh n sh' chk dflt tx c] assms(2,3) get_notification_calls[OF n(2)]
  show ?thesis by (simp add: pass_done_put)
qed

lemma notify_done:
  assumes "i < length (tasks m)" and "notify_calls sh = notify_calls (the_shard m)"
  shows "lock_step chk dflt (put m i (tx, c, AtNotify ans) sh) (pass_done m i tx c (Return ans) (notify_and_remove tx sh))"
  using notify_step[OF assms(1), of chk dflt tx c ans sh] assms(2) by (simp add: pass_done_def fired_def)

lemma read_run:
  assumes "i < length (tasks m)" and "map_free m" and "shard_read_pass tx k (the_shard m) = (p, sh')"
  shows "(lock_step chk dflt)\<^sup>*\<^sup>* (put m i (tx, CallRead k, AtMap) (the_shard m))
    (pass_done m i tx (CallRead k) (map_pass ReadAnswer p) sh')"
proof (cases "get_object k (the_shard m)")
  case None
  have "lock_step chk dflt (put m i (tx, CallRead k, AtMap) (the_shard m))
      (put m i (tx, CallRead k, Answered (ReadAnswer (Err ObjectNotFound))) (the_shard m))"
    by (rule undisturbed_step[where ch = Proceed]) (use assms None in \<open>simp_all add: local_step_def lock_map_def\<close>)
  with assms(3) None show ?thesis by (auto simp: shard_read_pass_def pass_done_put)
next
  case (Some a)
  let ?sh = "the_shard m"
  obtain r ob' where r: "object_read tx (cells ?sh ! a) = (r, ob')" by (cases "object_read tx (cells ?sh ! a)")
  have 1: "lock_step chk dflt (put m i (tx, CallRead k, AtMap) ?sh) (put m i (tx, CallRead k, AtObject a) ?sh)"
    by (rule undisturbed_step[where ch = Proceed]) (use assms Some in \<open>simp_all add: local_step_def lock_map_def\<close>)
  have 2: "lock_step chk dflt (put m i (tx, CallRead k, AtObject a) ?sh)
      (put m i (tx, CallRead k, after_object ReadAnswer Ok Err r) (set_cell a ob' ?sh))"
    by (rule undisturbed_step[where ch = Proceed]) (use assms r in \<open>simp_all add: local_step_def lock_object_def\<close>)
  have "(lock_step chk dflt)\<^sup>*\<^sup>* (put m i (tx, CallRead k, after_object ReadAnswer Ok Err r) (set_cell a ob' ?sh))
      (pass_done m i tx (CallRead k) (map_pass ReadAnswer p) sh')"
    using assms(3) Some r suspend_done[OF assms(1), of _ "set_cell a ob' ?sh" p sh' chk dflt tx "CallRead k" ReadAnswer]
    by (auto simp: shard_read_pass_def after_object_def pass_done_put split: result.splits RWFailure.splits)
  with 1 2 show ?thesis by (meson converse_rtranclp_into_rtranclp)
qed

lemma write_run:
  assumes "i < length (tasks m)" and "map_free m" and "shard_write_pass chk dflt tx k v (the_shard m) = (p, sh')"
  shows "(lock_step chk dflt)\<^sup>*\<^sup>* (put m i (tx, CallWrite k v, AtMap) (the_shard m))
    (pass_done m i tx (CallWrite k v) (map_pass WriteAnswer p) sh')"
proof -
  let ?sh = "the_shard m"
  obtain q sh1 where q: "get_object_or_insert_if_valid chk dflt k v ?sh = (q, sh1)"
    by (cases "get_object_or_insert_if_valid chk dflt k v ?sh")
  note calls = get_or_insert_calls[OF q]
  show ?thesis
  proof (cases q)
    case None
    have "lock_step chk dflt (put m i (tx, CallWrite k v, AtMap) ?sh)
        (put m i (tx, CallWrite k v, Answered (WriteAnswer (Err ObjectNotFound))) sh1)"
      by (rule undisturbed_step[where ch = Proceed])
        (use assms None q calls in \<open>simp_all add: local_step_def lock_map_def\<close>)
    with assms(3) None q calls show ?thesis by (auto simp: shard_write_pass_def pass_done_put)
  next
    case (Some a)
    obtain r ob' where r: "object_write tx v (cells sh1 ! a) = (r, ob')" by (cases "object_write tx v (cells sh1 ! a)")
    have 1: "lock_step chk dflt (put m i (tx, CallWrite k v, AtMap) ?sh) (put m i (tx, CallWrite k v, AtObject a) sh1)"
      by (rule undisturbed_step[where ch = Proceed])
        (use assms Some q calls in \<open>simp_all add: local_step_def lock_map_def\<close>)
    have 2: "lock_step chk dflt (put m i (tx, CallWrite k v, AtObject a) sh1)
        (put m i (tx, CallWrite k v, after_object WriteAnswer (\<lambda>_. Ok ()) Err r) (set_cell a ob' sh1))"
      by (rule undisturbed_step[where ch = Proceed]) (use assms r in \<open>simp_all add: local_step_def lock_object_def\<close>)
    have "(lock_step chk dflt)\<^sup>*\<^sup>* (put m i (tx, CallWrite k v, after_object WriteAnswer (\<lambda>_. Ok ()) Err r) (set_cell a ob' sh1))
        (pass_done m i tx (CallWrite k v) (map_pass WriteAnswer p) sh')"
      using assms(3) Some r q calls
        suspend_done[OF assms(1), of _ "set_cell a ob' sh1" p sh' chk dflt tx "CallWrite k v" WriteAnswer]
      by (auto simp: shard_write_pass_def after_object_def pass_done_put split: result.splits RWFailure.splits)
    with 1 2 show ?thesis by (meson converse_rtranclp_into_rtranclp)
  qed
qed

text \<open>A walk: spawn, run every spawned task, join.\<close>

lemma walk_run:
  assumes "i < length (tasks m)" and "map_free m" and "enumerates es (the_shard m)"
    and "\<And>ss. C ss \<noteq> AtMap"
    and "\<And>j ss sh. local_step chk dflt (RunSpawned j) tx c (C ss) sh = map_option (map_prod C id) (run_spawned f j ss sh)"
    and "\<And>a sh. notify_calls (snd (f a sh)) = notify_calls sh"
    and "lock_map chk dflt (Walk es) c (the_shard m) = Some (C (spawn es), the_shard m)"
    and "run_all f es (the_shard m) = (rs, sh1)"
    and "local_step chk dflt Proceed tx c (C (joined rs)) sh1 = Some (pc, sh2)"
    and "notify_calls sh2 = notify_calls sh1"
  shows "(lock_step chk dflt)\<^sup>*\<^sup>* (put m i (tx, c, AtMap) (the_shard m)) (put m i (tx, c, pc) sh2) \<and>
    notify_calls sh2 = notify_calls (the_shard m)"
proof -
  have "lock_step chk dflt (put m i (tx, c, AtMap) (the_shard m)) (put m i (tx, c, C (spawn es)) (the_shard m))"
    by (rule undisturbed_step[where ch = "Walk es"]) (use assms(1-3,7) in \<open>simp_all add: local_step_def\<close>)
  moreover note spawned_steps[of i m C chk dflt tx c f, OF assms(1,4,5,6,8), of "[]"]
  moreover have "lock_step chk dflt (put m i (tx, c, C (joined rs)) sh1) (put m i (tx, c, pc) sh2)"
    by (rule undisturbed_step[OF assms(9,10,1)]) (use assms(4) in simp_all)
  ultimately show ?thesis
    using assms(10) by (auto intro: converse_rtranclp_into_rtranclp rtranclp.rtrancl_into_rtrancl)
qed

lemma check_run:
  assumes "i < length (tasks m)" and "map_free m" and "enumerates es (the_shard m)"
    and "shard_check_commit_pass chk es tx (the_shard m) = Some (p, sh')"
  shows "(lock_step chk dflt)\<^sup>*\<^sup>* (put m i (tx, CallCheck, AtMap) (the_shard m))
    (pass_done m i tx CallCheck (map_pass CheckAnswer p) sh')"
proof -
  let ?rs = "map (\<lambda>(k, a). (k, object_check_commit chk tx (cells (the_shard m) ! a))) es"
  have w: "(lock_step chk dflt)\<^sup>*\<^sup>* (put m i (tx, CallCheck, AtMap) (the_shard m))
      (put m i (tx, CallCheck, joined_checks ?rs) (the_shard m))"
    using walk_run[of i m es Checking chk dflt tx CallCheck "spawned_check chk tx", OF assms(1-3) _ _ _ _ run_all_check]
    by (simp add: local_step_def lock_map_def)
  define qs where "qs = map (\<lambda>(k, a). object_check_commit chk tx (cells (the_shard m) ! a)) es"
  have none: "None \<notin> set qs" using object_check_commit_total[of chk tx, symmetric] by (auto simp: qs_def)
  have "map snd ?rs = qs" by (auto simp: qs_def)
  then have "map (the \<circ> snd) ?rs = map the qs" and "snd ` set ?rs = set qs"
    by (metis map_map, metis list.set_map)
  with none have j: "joined_checks ?rs = (case scan_checks (map the qs) of
      ScanFailed \<Rightarrow> Answered (CheckAnswer (Err ConsistencyCheckFailed)) | ScanWait t \<Rightarrow> AtNotifications t
    | ScanDone _ \<Rightarrow> Answered (CheckAnswer (Ok ())))" by (simp only: joined_checks_def if_False)
  from assms(4) none have "(case scan_checks (map the qs) of ScanFailed \<Rightarrow> (Return (Err ConsistencyCheckFailed), the_shard m)
      | ScanWait t \<Rightarrow> suspend t (the_shard m) | ScanDone _ \<Rightarrow> (Return (Ok ()), the_shard m)) = (p, sh')"
    by (simp add: shard_check_commit_pass_def Let_def flip: qs_def)
  then have "(lock_step chk dflt)\<^sup>*\<^sup>* (put m i (tx, CallCheck, joined_checks ?rs) (the_shard m))
      (pass_done m i tx CallCheck (map_pass CheckAnswer p) sh')"
    using suspend_done[OF assms(1), of _ "the_shard m" p sh' chk dflt tx CallCheck CheckAnswer]
    unfolding j by (auto simp: pass_done_put split: scan.splits)
  with w show ?thesis by (rule rtranclp_trans)
qed

lemma join_results:
  "map (map_prod id the) (map (map_prod id Some) rs) = rs" "None \<notin> snd ` set (map (map_prod id Some) rs)"
  by (induction rs) auto

lemma commit_run:
  assumes "i < length (tasks m)" and "map_free m" and "enumerates es (the_shard m)"
    and "shard_commit_pass chk es tx (the_shard m) = Some (p, sh')"
  shows "(lock_step chk dflt)\<^sup>*\<^sup>* (put m i (tx, CallCommit, AtMap) (the_shard m))
    (pass_done m i tx CallCommit (map_pass CommitAnswer p) sh')"
proof -
  from assms(4) obtain rs sh1 where c: "commit_cells chk es tx (the_shard m) = Some (rs, sh1)"
    by (auto simp: shard_commit_pass_def split: option.splits)
  let ?rs = "map (map_prod id Some) rs"
  have w: "(lock_step chk dflt)\<^sup>*\<^sup>* (put m i (tx, CallCommit, AtMap) (the_shard m))
      (put m i (tx, CallCommit, joined_commits ?rs) sh1)" and calls: "notify_calls sh1 = notify_calls (the_shard m)"
    using walk_run[of i m es Committing chk dflt tx CallCommit "spawned_commit chk tx", OF assms(1-3) _ _ _ _ run_all_commit[OF c]]
    by (simp_all add: local_step_def lock_map_def)
  note rs = join_results[of rs]
  have "(lock_step chk dflt)\<^sup>*\<^sup>* (put m i (tx, CallCommit, joined_commits ?rs) sh1)
      (pass_done m i tx CallCommit (map_pass CommitAnswer p) sh')"
  proof (cases "scan_commits rs")
    case ScanFailed
    with assms(4) c rs notify_done[OF assms(1) calls, of chk dflt tx CallCommit] show ?thesis
      by (auto simp: shard_commit_pass_def joined_commits_def simp del: map_map)
  next
    case (ScanWait t)
    with assms(4) c rs calls suspend_done[OF assms(1), of t sh1 p sh' chk dflt tx CallCommit CommitAnswer] show ?thesis
      by (simp add: shard_commit_pass_def joined_commits_def del: map_map)
  next
    case (ScanDone vs)
    with assms(4) c rs notify_done[OF assms(1) calls, of chk dflt tx CallCommit] show ?thesis
      by (auto simp: shard_commit_pass_def joined_commits_def Let_def simp del: map_map)
  qed
  with w show ?thesis by (rule rtranclp_trans)
qed

lemma abort_run:
  assumes "i < length (tasks m)" and "map_free m" and "enumerates es (the_shard m)"
  shows "(lock_step chk dflt)\<^sup>*\<^sup>* (put m i (tx, CallAbort, AtMap) (the_shard m))
    (pass_done m i tx CallAbort (Return AbortAnswer) (shard_abort es tx (the_shard m)))"
proof -
  obtain rs sh1 where c: "abort_cells es tx (the_shard m) = (rs, sh1)" by (cases "abort_cells es tx (the_shard m)")
  let ?rs = "map (map_prod id Some) rs"
  note rs = join_results[of rs]
  have w: "(lock_step chk dflt)\<^sup>*\<^sup>* (put m i (tx, CallAbort, AtMap) (the_shard m))
      (put m i (tx, CallAbort, AtNotify AbortAnswer) (reap rs sh1))" and calls: "notify_calls sh1 = notify_calls (the_shard m)"
    using walk_run[of i m es Aborting chk dflt tx CallAbort "spawned_abort tx" "?rs" sh1 "AtNotify AbortAnswer" "reap rs sh1",
        OF assms(1-3) _ _ _ _ run_all_abort[OF c]] rs
    by (simp_all add: local_step_def lock_map_def joined_aborts_def)
  have "shard_abort es tx (the_shard m) = notify_and_remove tx (reap rs sh1)" by (simp add: shard_abort_def c)
  with w notify_done[OF assms(1), of "reap rs sh1" chk dflt tx CallAbort AbortAnswer] calls show ?thesis
    by (simp add: rtranclp.rtrancl_into_rtrancl)
qed

text \<open>
  C11. The atomic passes are runs of the machine: a task at the top of its loop that finds the object
  map free and is not interrupted arrives, lock by lock, at exactly the answer or suspension,
  the shard and the set of woken tasks that the pass as one function describes.
\<close>

theorem pass_is_run:
  assumes "i < length (tasks m)" and "tasks m ! i = (tx, c, AtMap)" and "map_free m"
    and "enumerates es (the_shard m)" and "call_pass chk dflt es tx c (the_shard m) = Some (p, sh')"
  shows "(lock_step chk dflt)\<^sup>*\<^sup>* m
    \<lparr>the_shard = sh', tasks = map (wake (fired (the_shard m) sh')) ((tasks m)[i := (tx, c, after_pass p)])\<rparr>"
proof -
  have m: "put m i (tx, c, AtMap) (the_shard m) = m"
    using assms(2) by (simp add: put_def list_update_same_conv[OF assms(1), THEN iffD2])
  have "(lock_step chk dflt)\<^sup>*\<^sup>* (put m i (tx, c, AtMap) (the_shard m)) (pass_done m i tx c p sh')"
    using assms(5) read_run[OF assms(1,3)] write_run[OF assms(1,3)] check_run[OF assms(1,3,4)]
      commit_run[OF assms(1,3,4)] abort_run[OF assms(1,3,4)]
    by (cases c) (auto simp: call_pass_def map_prod_def split: prod.splits)
  then show ?thesis by (simp add: m pass_done_def)
qed

section \<open>Lost wake-ups\<close>

lemma fired_by:
  assumes "local_step chk dflt ch tx c pc sh = Some (pc', sh')" and "n \<in> set (fired sh sh')"
  shows "(\<exists>ans. pc = AtNotify ans) \<and> notifications sh tx = Some n"
proof (cases "\<exists>ans. pc = AtNotify ans")
  case True
  with assms show ?thesis by (auto simp: local_step_def fired_def notify_and_remove_def split: option.splits)
next
  case False
  have "notify_calls sh' = notify_calls sh"
  proof (cases pc)
    case AtMap
    with assms(1) show ?thesis
      by (cases c) (auto simp: local_step_def lock_map_def dest: get_or_insert_calls split: option.splits prod.splits choice.splits)
  next
    case (AtObject a)
    with assms(1) show ?thesis by (auto simp: local_step_def lock_object_def split: call.splits prod.splits)
  qed (use assms(1) False in \<open>auto simp: local_step_def joined_aborts_def dest!: run_spawned_frame(1)
        dest: get_notification_calls split: choice.splits prod.splits if_splits\<close>)
  with assms(2) show ?thesis by (simp add: fired_def)
qed

lemma notifications_frame [simp]:
  "notifications (set_cell a ob sh) = notifications sh"
  "notifications (reap rs sh) = notifications sh"
  "notifications (snd (spawned_check chk tx a sh)) = notifications sh"
  "notifications (snd (spawned_commit chk tx a sh)) = notifications sh"
  "notifications (snd (spawned_abort tx a sh)) = notifications sh"
  by (simp_all add: set_cell_def reap_def spawned_check_def spawned_commit_def spawned_abort_def
      object_commit_total Let_def)

lemma notifications_from:
  assumes "local_step chk dflt ch tx c pc sh = Some (pc', sh')" and "notifications sh' t = Some n"
  shows "notifications sh t = Some n \<or> n = next_notify sh"
proof (cases pc)
  case AtMap
  with assms show ?thesis
    by (cases c) (auto simp: local_step_def lock_map_def get_object_or_insert_if_valid_def Let_def
        split: option.splits prod.splits choice.splits if_splits)
next
  case (AtObject a)
  with assms show ?thesis by (auto simp: local_step_def lock_object_def split: call.splits prod.splits)
next
  case (AtNotify ans)
  with assms show ?thesis by (auto simp: local_step_def notify_and_remove_def split: option.splits if_splits)
next
  case (AtNotifications u)
  with assms show ?thesis
    by (auto simp: local_step_def get_notification_def split: option.splits if_splits prod.splits)
qed (use assms in \<open>auto simp: local_step_def joined_aborts_def dest!: run_spawned_frame(1)
      split: choice.splits prod.splits if_splits\<close>)

text \<open>Every call that could fire the notification has been answered.\<close>

definition finishers_done :: "notify \<Rightarrow> ('k, 'v, 'e) Machine \<Rightarrow> bool" where
  "finishers_done n m \<longleftrightarrow>
     (\<forall>(tx, c, pc) \<in> set (tasks m). notifications (the_shard m) tx = Some n \<longrightarrow>
        c = CallCommit \<or> c = CallAbort \<longrightarrow> (\<exists>ans. pc = Answered ans))"

lemma asleep_step:
  assumes "lock_step chk dflt m m'" and "lock_inv chk m" and "finishers_done n m"
    and "i < length (tasks m)" and "tasks m ! i = (tx, c, AsleepOn n)"
  shows "finishers_done n m' \<and> i < length (tasks m') \<and> tasks m' ! i = (tx, c, AsleepOn n)"
proof -
  from assms(1) obtain j ch where "move chk dflt j ch m = Some m'" by (auto elim: lock_step.cases)
  then obtain txj cj pc pc' sh' where mv: "j < length (tasks m)" "tasks m ! j = (txj, cj, pc)"
    "local_step chk dflt ch txj cj pc (the_shard m) = Some (pc', sh')"
    "m' = \<lparr>the_shard = sh', tasks = map (wake (fired (the_shard m) sh')) ((tasks m)[j := (txj, cj, pc')])\<rparr>"
    by (rule moveE)
  have ok: "task_ok (the_shard m) t" if "t \<in> set (tasks m)" for t
    using assms(2) that by (simp add: lock_inv_def list_all_iff)
  have memj: "(txj, cj, pc) \<in> set (tasks m)" using mv(1,2) by (metis nth_mem)
  have answered: "notifications (the_shard m) tx' = Some n \<Longrightarrow> c' = CallCommit \<or> c' = CallAbort \<Longrightarrow>
      \<exists>ans. pc1 = Answered ans" if "(tx', c', pc1) \<in> set (tasks m)" for tx' c' pc1
    using assms(3) that by (auto simp: finishers_done_def)
  have quiet: "n \<notin> set (fired (the_shard m) sh')"
  proof
    assume "n \<in> set (fired (the_shard m) sh')"
    from fired_by[OF mv(3) this] ok[OF memj] answered[OF memj] show False by auto
  qed
  have "i \<noteq> j" using mv(2,3) assms(5) by (auto simp: local_step_def)
  then have asleep: "tasks m' ! i = (tx, c, AsleepOn n)" using assms(4,5) quiet by (simp add: mv(4))
  have "(tx, c, AsleepOn n) \<in> set (tasks m)" using assms(4,5) by (metis nth_mem)
  from ok[OF this] have "waits_validly tx n (the_shard m)" by simp
  then have "n \<noteq> next_notify (the_shard m)"
    using assms(2) by (auto simp: lock_inv_def shard_inv_def waits_validly_def ran_def)
  then have old: "notifications (the_shard m) t = Some n" if "notifications sh' t = Some n" for t
    using notifications_from[OF mv(3) that] by blast
  have "\<exists>ans. q = Answered ans" if q: "(t, d, q) \<in> set (tasks m')" "notifications sh' t = Some n" "d = CallCommit \<or> d = CallAbort" for t d q
  proof -
    from q(1) obtain q0 where q0: "(t, d, q0) \<in> set ((tasks m)[j := (txj, cj, pc')])"
      "wake (fired (the_shard m) sh') (t, d, q0) = (t, d, q)" by (auto simp: mv(4) simp del: wake.simps) (auto simp: mv(4))
    then consider "(t, d, q0) \<in> set (tasks m)" | "(t, d, q0) = (txj, cj, pc')"
      using set_update_subset_insert[of "tasks m" j] by blast
    then show ?thesis
    proof cases
      case 1
      from answered[OF 1 old[OF q(2)] q(3)] q0(2) show ?thesis by auto
    next
      case 2
      with answered[OF memj] old[OF q(2)] q(3) mv(3) show ?thesis by (auto simp: local_step_def)
    qed
  qed
  moreover have "the_shard m' = sh'" "length (tasks m') = length (tasks m)" by (simp_all add: mv(4))
  ultimately have "finishers_done n m'" unfolding finishers_done_def by blast
  with asleep assms(4) show ?thesis by (simp add: mv(4))
qed

lemma asleep_steps:
  assumes "(lock_step check_amount 0)\<^sup>*\<^sup>* m m'" and "lock_inv check_amount (m :: account_machine)" and "finishers_done n m"
    and "i < length (tasks m)" and "tasks m ! i = (tx, c, AsleepOn n)"
  shows "tasks m' ! i = (tx, c, AsleepOn n)"
proof -
  from assms(1) have "lock_inv check_amount m' \<and> finishers_done n m' \<and> i < length (tasks m') \<and> tasks m' ! i = (tx, c, AsleepOn n)"
  proof (induction rule: rtranclp_induct)
    case (step y z)
    then show ?case using asleep_step[of check_amount 0 y z n i tx c] locks.inv_step[of y z] by blast
  qed (use assms(2-5) in simp)
  then show ?thesis by blast
qed

text \<open>
  C7. A lost wake-up is for ever: a call that went to sleep on a notification after every commit and
  abort of the transaction it waits for had been answered, or after the notification had been
  fired, is never woken, whatever the other tasks do.
\<close>

theorem lost_wakeup:
  assumes "lock_reachable calls m" and "i < length (tasks m)" and "tasks m ! i = (tx, c, AsleepOn n)"
    and "\<forall>(t, d, pc) \<in> set (tasks m). notifications (the_shard m) t = Some n \<longrightarrow>
      d = CallCommit \<or> d = CallAbort \<longrightarrow> (\<exists>ans. pc = Answered ans)"
    and "(lock_step check_amount 0)\<^sup>*\<^sup>* m m'"
  shows "tasks m' ! i = (tx, c, AsleepOn n)"
proof -
  have "lock_inv check_amount m" using assms(1) by (rule locks.reach_inv)
  moreover have "finishers_done n m" using assms(4) by (simp add: finishers_done_def)
  ultimately show ?thesis using asleep_steps[OF assms(5) _ _ assms(2,3)] by blast
qed

section \<open>Concrete runs\<close>

fun run_moves :: "('v \<Rightarrow> (unit, 'e) result) \<Rightarrow> 'v \<Rightarrow> (nat \<times> 'k choice) list \<Rightarrow> ('k, 'v, 'e) Machine \<Rightarrow>
    ('k, 'v, 'e) Machine option" where
  "run_moves chk dflt [] m = Some m"
| "run_moves chk dflt ((i, ch) # s) m =
     (case move chk dflt i ch m of None \<Rightarrow> None | Some m' \<Rightarrow> run_moves chk dflt s m')"

fun walks_ok :: "('v \<Rightarrow> (unit, 'e) result) \<Rightarrow> 'v \<Rightarrow> (nat \<times> 'k choice) list \<Rightarrow> ('k, 'v, 'e) Machine \<Rightarrow> bool" where
  "walks_ok chk dflt [] m \<longleftrightarrow> True"
| "walks_ok chk dflt ((i, ch) # s) m \<longleftrightarrow> walk_ok ch (the_shard m) \<and>
     (case move chk dflt i ch m of None \<Rightarrow> True | Some m' \<Rightarrow> walks_ok chk dflt s m')"

lemma run_moves_steps:
  "run_moves chk dflt s m = Some m' \<Longrightarrow> walks_ok chk dflt s m \<Longrightarrow> (lock_step chk dflt)\<^sup>*\<^sup>* m m'"
proof (induction s arbitrary: m)
  case (Cons e s)
  obtain i ch where e: "e = (i, ch)" by (cases e)
  with Cons.prems obtain m1 where m1: "move chk dflt i ch m = Some m1" by (auto split: option.splits)
  with Cons e have "lock_step chk dflt m m1" "(lock_step chk dflt)\<^sup>*\<^sup>* m1 m'" by (auto intro: lock_stepI)
  then show ?case by (rule converse_rtranclp_into_rtranclp)
qed simp

definition lock_start :: "(TransactionId \<times> (AccountId, Amount) call) list \<Rightarrow> account_machine" where
  "lock_start calls = \<lparr>the_shard = shard_new CHR ''A'', tasks = map (\<lambda>(tx, c). (tx, c, AtMap)) calls\<rparr>"

lemma run_moves_reachable:
  assumes "run_moves check_amount 0 s (lock_start calls) = Some m" and "walks_ok check_amount 0 s (lock_start calls)"
  shows "lock_reachable calls m"
proof (rule reach_rtranclp)
  show "lock_init calls (lock_start calls)" by (auto simp: lock_init_def lock_start_def)
qed (rule run_moves_steps[OF assms])

lemmas lock_eval = lock_start_def move_def map_free_def local_step_def lock_map_def lock_object_def after_object_def
  spawn_def run_spawned_def spawned_check_def spawned_commit_def spawned_abort_def joined_checks_def
  joined_commits_def joined_aborts_def fired_def shard_eval enumerates_def

abbreviation wakeup_calls :: "(TransactionId \<times> (AccountId, Amount) call) list" where
  "wakeup_calls \<equiv> [(tx_at 1, CallWrite ''A.x'' 20), (tx_at 2, CallRead ''A.x''), (tx_at 1, CallCommit)]"

abbreviation wakeup_moves :: "(nat \<times> AccountId choice) list" where
  "wakeup_moves \<equiv> [(0, Proceed), (0, Proceed), (1, Proceed), (1, Proceed), (2, Walk [(''A.x'', 0)]),
     (2, RunSpawned 0), (2, Proceed), (2, Proceed), (1, Proceed), (1, Proceed)]"

lemma lost_wakeup_run:
  obtains sh where "lock_reachable wakeup_calls
    \<lparr>the_shard = sh, tasks = [(tx_at 1, CallWrite ''A.x'' 20, Answered (WriteAnswer (Ok ()))),
      (tx_at 2, CallRead ''A.x'', AsleepOn 0),
      (tx_at 1, CallCommit, Answered (CommitAnswer (Ok (ValueChanged [(''A.x'', 20)]))))]\<rparr>"
    and "notifications sh = [tx_at 1 \<mapsto> 0]"
proof -
  have "\<exists>sh. run_moves check_amount 0 wakeup_moves (lock_start wakeup_calls) =
      Some \<lparr>the_shard = sh, tasks = [(tx_at 1, CallWrite ''A.x'' 20, Answered (WriteAnswer (Ok ()))),
        (tx_at 2, CallRead ''A.x'', AsleepOn 0),
        (tx_at 1, CallCommit, Answered (CommitAnswer (Ok (ValueChanged [(''A.x'', 20)]))))]\<rparr> \<and>
      notifications sh = [tx_at 1 \<mapsto> 0]"
    by (simp add: lock_eval)
  moreover have "walks_ok check_amount 0 wakeup_moves (lock_start wakeup_calls)" by (simp add: lock_eval)
  ultimately show thesis using run_moves_reachable that by blast
qed

theorem lost_wakeup_witness:
  "\<exists>m. lock_reachable wakeup_calls m \<and>
     tasks m ! 2 = (tx_at 1, CallCommit, Answered (CommitAnswer (Ok (ValueChanged [(''A.x'', 20)])))) \<and>
     (\<forall>m'. (lock_step check_amount 0)\<^sup>*\<^sup>* m m' \<longrightarrow> tasks m' ! 1 = (tx_at 2, CallRead ''A.x'', AsleepOn 0))"
proof -
  obtain sh where r: "lock_reachable wakeup_calls
    \<lparr>the_shard = sh, tasks = [(tx_at 1, CallWrite ''A.x'' 20, Answered (WriteAnswer (Ok ()))),
      (tx_at 2, CallRead ''A.x'', AsleepOn 0),
      (tx_at 1, CallCommit, Answered (CommitAnswer (Ok (ValueChanged [(''A.x'', 20)]))))]\<rparr>" (is "lock_reachable _ ?m")
    by (rule lost_wakeup_run)
  have "tasks m' ! 1 = (tx_at 2, CallRead ''A.x'', AsleepOn 0)" if "(lock_step check_amount 0)\<^sup>*\<^sup>* ?m m'" for m'
    using lost_wakeup[OF r _ _ _ that, of 1 "tx_at 2" "CallRead ''A.x''" 0] by simp
  with r show ?thesis by (intro exI[of _ ?m]) auto
qed

section \<open>Vanished writes\<close>

abbreviation orphan_calls :: "(TransactionId \<times> (AccountId, Amount) call) list" where
  "orphan_calls \<equiv> [(tx_at 1, CallWrite ''A.x'' 5), (tx_at 2, CallWrite ''A.x'' 7), (tx_at 1, CallAbort),
     (tx_at 2, CallCheck), (tx_at 2, CallCommit)]"

abbreviation orphan_moves :: "(nat \<times> AccountId choice) list" where
  "orphan_moves \<equiv> [(0, Proceed), (0, Proceed), (1, Proceed), (2, Walk [(''A.x'', 0)]), (2, RunSpawned 0),
     (2, Proceed), (2, Proceed), (1, Proceed), (3, Walk []), (3, Proceed), (4, Walk []), (4, Proceed), (4, Proceed)]"

text \<open>
  C8. An acknowledged write can vanish: transaction 1 creates an account, transaction 2 looks it up,
  transaction 1 aborts, which removes the account since only transaction 1 had written to it,
  and then transaction 2 writes to the removed object. Its write, its check and its commit
  are all answered with success, and the account does not exist.
\<close>

theorem acknowledged_write_vanishes:
  "\<exists>m. lock_reachable orphan_calls m \<and>
     tasks m ! 1 = (tx_at 2, CallWrite ''A.x'' 7, Answered (WriteAnswer (Ok ()))) \<and>
     tasks m ! 3 = (tx_at 2, CallCheck, Answered (CheckAnswer (Ok ()))) \<and>
     tasks m ! 4 = (tx_at 2, CallCommit, Answered (CommitAnswer (Ok (NoChange [])))) \<and>
     objects (the_shard m) = Map.empty"
proof -
  have "\<exists>m. run_moves check_amount 0 orphan_moves (lock_start orphan_calls) = Some m \<and>
     tasks m ! 1 = (tx_at 2, CallWrite ''A.x'' 7, Answered (WriteAnswer (Ok ()))) \<and>
     tasks m ! 3 = (tx_at 2, CallCheck, Answered (CheckAnswer (Ok ()))) \<and>
     tasks m ! 4 = (tx_at 2, CallCommit, Answered (CommitAnswer (Ok (NoChange [])))) \<and>
     objects (the_shard m) = Map.empty"
    by (simp add: lock_eval)
  moreover have "walks_ok check_amount 0 orphan_moves (lock_start orphan_calls)" by (simp add: lock_eval)
  ultimately show ?thesis using run_moves_reachable by blast
qed

section \<open>Where the statements about the machine apply\<close>

theorem lock_safety_witness:
  "\<exists>m. lock_reachable wakeup_calls m \<and> cells (the_shard m) \<noteq> [] \<and>
     (\<forall>ob \<in> set (cells (the_shard m)). 0 \<le> sint (obj_value ob))"
proof -
  have "\<exists>m. run_moves check_amount 0 wakeup_moves (lock_start wakeup_calls) = Some m \<and> cells (the_shard m) \<noteq> []"
    by (simp add: lock_eval)
  moreover have "walks_ok check_amount 0 wakeup_moves (lock_start wakeup_calls)" by (simp add: lock_eval)
  ultimately obtain m where m: "lock_reachable wakeup_calls m" "cells (the_shard m) \<noteq> []"
    using run_moves_reachable by blast
  from lock_safety[OF m(1)] m show ?thesis by blast
qed

theorem lock_quiescent_witness:
  "\<exists>m. lock_reachable wakeup_calls m \<and> (\<nexists>m'. lock_step check_amount 0 m m') \<and>
     (\<exists>t < tx_at 2. notifications (the_shard m) t = Some 0)"
proof -
  obtain sh where r: "lock_reachable wakeup_calls
    \<lparr>the_shard = sh, tasks = [(tx_at 1, CallWrite ''A.x'' 20, Answered (WriteAnswer (Ok ()))),
      (tx_at 2, CallRead ''A.x'', AsleepOn 0),
      (tx_at 1, CallCommit, Answered (CommitAnswer (Ok (ValueChanged [(''A.x'', 20)]))))]\<rparr>" (is "lock_reachable _ ?m")
    and n: "notifications sh = [tx_at 1 \<mapsto> 0]"
    by (rule lost_wakeup_run)
  have stop: "\<nexists>m'. lock_step check_amount 0 ?m m'"
    by (auto elim!: lock_step.cases simp: move_def local_step_def less_Suc_eq split: if_splits)
  from lock_quiescent[OF r stop, of "tx_at 2" "CallRead ''A.x''" "AsleepOn 0"] r stop n show ?thesis
    by (intro exI[of _ ?m]) auto
qed

theorem pass_is_run_witness:
  "(lock_step check_amount 0)\<^sup>*\<^sup>* (lock_start [(tx_at 1, CallRead ''A.x'')])
     \<lparr>the_shard = shard_new CHR ''A'',
      tasks = [(tx_at 1, CallRead ''A.x'', Answered (ReadAnswer (Err ObjectNotFound)))]\<rparr>"
  using pass_is_run[of 0 "lock_start [(tx_at 1, CallRead ''A.x'')]" "tx_at 1" "CallRead ''A.x''" "[]" check_amount 0
      "Return (ReadAnswer (Err ObjectNotFound))" "shard_new CHR ''A''"]
  by (simp add: lock_eval call_pass_def shard_read_pass_def)

end
