(* ===== verification/Object_Tests.thy ===== *)
theory Object_Tests
  imports Object_History
begin

text \<open>
  The unit tests of the timestamped object, of the transaction ids and of the responses
  (the test modules of tx-server/src/sharding/object.rs, tx-server/src/sharding/transaction_id.rs
  and tx-common/src/lib.rs). A test of an object is a list of steps, each of which has an effect
  on the object and fails (\<open>None\<close>) when one of its assertions does. The ids a test draws from the
  generator are arguments, and so are the clock readings behind them: the tests are shown to
  pass for all readings of a clock that advances, not only for the ones a test run happens to
  see.
\<close>

section \<open>Steps and assertions\<close>

text \<open>The consistency check of the test build (tx-server/src/lib.rs).\<close>

definition test_check :: "Amount \<Rightarrow> (unit, unit) result" where
  "test_check a = (if sint a \<ge> 0 then Ok () else Err ())"

type_synonym test_object = "Amount TimestampedObject"
type_synonym test_step = "test_object \<Rightarrow> test_object option"

fun test_passes :: "('s \<Rightarrow> 's option) list \<Rightarrow> 's \<Rightarrow> bool" where
  "test_passes [] ob \<longleftrightarrow> True"
| "test_passes (s # ss) ob \<longleftrightarrow> (case s ob of None \<Rightarrow> False | Some ob' \<Rightarrow> test_passes ss ob')"

definition write_ok :: "TransactionId \<Rightarrow> Amount \<Rightarrow> test_step" where
  "write_ok tx v ob = (case object_write tx v ob of (Ok _, ob') \<Rightarrow> Some ob' | (Err _, _) \<Rightarrow> None)"

definition write_err :: "TransactionId \<Rightarrow> Amount \<Rightarrow> RWFailure \<Rightarrow> test_step" where
  "write_err tx v f ob =
     (case object_write tx v ob of (Ok _, _) \<Rightarrow> None | (Err e, ob') \<Rightarrow> if e = f then Some ob' else None)"

definition read_err :: "TransactionId \<Rightarrow> RWFailure \<Rightarrow> test_step" where
  "read_err tx f ob =
     (case object_read tx ob of (Ok _, _) \<Rightarrow> None | (Err e, ob') \<Rightarrow> if e = f then Some ob' else None)"

definition abort_ok :: "TransactionId \<Rightarrow> test_step" where
  "abort_ok tx ob = Some (object_abort tx ob)"

definition object_is :: "Amount \<Rightarrow> TransactionId \<Rightarrow> test_step" where
  "object_is v tx ob = (if obj_value ob = v \<and> committed_timestamp ob = tx then Some ob else None)"

definition verify_check_commit_success :: "TransactionId \<Rightarrow> test_step" where
  "verify_check_commit_success tx ob =
     (case object_check_commit test_check tx ob of Some (Ok _) \<Rightarrow> Some ob | _ \<Rightarrow> None)"

definition verify_check_commit_failure :: "TransactionId \<Rightarrow> unit CommitFailure \<Rightarrow> test_step" where
  "verify_check_commit_failure tx f ob =
     (case object_check_commit test_check tx ob of
        Some (Err e) \<Rightarrow> if e = f then Some ob else None
      | _ \<Rightarrow> None)"

definition verify_commit_success :: "TransactionId \<Rightarrow> Amount \<Rightarrow> test_step" where
  "verify_commit_success tx expected ob =
     (case object_commit test_check tx ob of
        Some (Ok r, ob') \<Rightarrow>
          if r = ValueChanged expected \<and> obj_value ob' = expected \<and> committed_timestamp ob' = tx
          then Some ob' else None
      | _ \<Rightarrow> None)"

definition verify_commit_failure :: "TransactionId \<Rightarrow> unit CommitFailure \<Rightarrow> test_step" where
  "verify_commit_failure tx f ob =
     (case object_commit test_check tx ob of
        Some (Err e, ob') \<Rightarrow>
          if e = f \<and> obj_value ob' = obj_value ob \<and> committed_timestamp ob' = committed_timestamp ob
          then Some ob' else None
      | _ \<Rightarrow> None)"

definition verify_read :: "TransactionId \<Rightarrow> Amount \<Rightarrow> test_step" where
  "verify_read tx expected ob =
     (case object_read tx ob of (Ok v, ob') \<Rightarrow> if v = expected then Some ob' else None | _ \<Rightarrow> None)"

section \<open>The tests of the object\<close>

definition test_basic_write :: "TransactionId \<Rightarrow> test_step list" where
  "test_basic_write tx = [write_ok tx 10, verify_check_commit_success tx, verify_commit_success tx 10]"

definition test_basic_write_with_update :: "TransactionId \<Rightarrow> test_step list" where
  "test_basic_write_with_update tx =
     [write_ok tx 10, write_ok tx (-10), write_ok tx 30,
      verify_check_commit_success tx, verify_commit_success tx 30]"

definition test_commit_stall :: "TransactionId \<Rightarrow> TransactionId \<Rightarrow> test_step list" where
  "test_commit_stall tx1 tx2 =
     [write_ok tx1 10, write_ok tx2 30,
      verify_check_commit_failure tx2 (CommitFailure.WaitFor tx1),
      verify_commit_failure tx2 (CommitFailure.WaitFor tx1),
      verify_check_commit_success tx1, verify_commit_success tx1 10,
      verify_check_commit_success tx2, verify_commit_success tx2 30]"

definition test_write_after_newer_commit :: "TransactionId \<Rightarrow> TransactionId \<Rightarrow> test_step list" where
  "test_write_after_newer_commit tx1 tx2 =
     [write_ok tx2 20, verify_check_commit_success tx2, verify_commit_success tx2 20,
      write_err tx1 10 RWFailure.Abort]"

definition test_newer_transaction_writes_first :: "TransactionId \<Rightarrow> TransactionId \<Rightarrow> test_step list" where
  "test_newer_transaction_writes_first tx1 tx2 =
     [write_ok tx2 20, write_ok tx1 30,
      verify_check_commit_success tx1, verify_commit_success tx1 30,
      verify_check_commit_success tx2, verify_commit_success tx2 20]"

definition test_basic_abort :: "TransactionId \<Rightarrow> test_step list" where
  "test_basic_abort tx = [write_ok tx 10, write_ok tx 20, abort_ok tx, object_is 0 (default_id CHR ''A'')]"

definition test_aborted_transaction_with_future_commits :: "TransactionId \<Rightarrow> TransactionId \<Rightarrow> test_step list" where
  "test_aborted_transaction_with_future_commits tx1 tx2 =
     [write_ok tx1 10, write_ok tx2 30, abort_ok tx1, object_is 0 (default_id CHR ''A''),
      verify_check_commit_success tx2, verify_commit_success tx2 30]"

definition test_basic_consistency_check_failure :: "TransactionId \<Rightarrow> test_step list" where
  "test_basic_consistency_check_failure tx =
     [write_ok tx 1, write_ok tx (-10),
      verify_check_commit_failure tx (CommitFailure.ConsistencyCheckFailed ()),
      verify_commit_failure tx (CommitFailure.ConsistencyCheckFailed ())]"

definition test_consistency_check_failure_with_future_commit :: "TransactionId \<Rightarrow> TransactionId \<Rightarrow> test_step list" where
  "test_consistency_check_failure_with_future_commit tx1 tx2 =
     [write_ok tx1 (-10), write_ok tx2 10,
      verify_check_commit_failure tx1 (CommitFailure.ConsistencyCheckFailed ()),
      verify_commit_failure tx1 (CommitFailure.ConsistencyCheckFailed ()),
      abort_ok tx1,
      verify_check_commit_success tx2, verify_commit_success tx2 10]"

definition test_basic_read :: "TransactionId \<Rightarrow> TransactionId \<Rightarrow> test_step list" where
  "test_basic_read tx1 tx2 =
     [write_ok tx1 10, verify_read tx1 10,
      verify_check_commit_success tx1, verify_commit_success tx1 10,
      verify_read tx2 10]"

definition test_read_before_non_committed_write :: "TransactionId \<Rightarrow> TransactionId \<Rightarrow> TransactionId \<Rightarrow> test_step list" where
  "test_read_before_non_committed_write tx1 tx2 tx3 =
     [write_ok tx1 10, verify_check_commit_success tx1, verify_commit_success tx1 10,
      write_ok tx3 20, verify_read tx2 10]"

definition test_read_after_non_committed_write :: "TransactionId \<Rightarrow> TransactionId \<Rightarrow> TransactionId \<Rightarrow> test_step list" where
  "test_read_after_non_committed_write tx1 tx2 tx3 =
     [write_ok tx1 10, verify_check_commit_success tx1, verify_commit_success tx1 10,
      write_ok tx2 20, read_err tx3 (RWFailure.WaitFor tx2),
      verify_check_commit_success tx2, verify_commit_success tx2 20,
      verify_read tx3 20]"

definition test_read_before_committed_write :: "TransactionId \<Rightarrow> TransactionId \<Rightarrow> test_step list" where
  "test_read_before_committed_write tx1 tx2 =
     [write_ok tx2 10, verify_check_commit_success tx2, verify_commit_success tx2 10,
      read_err tx1 RWFailure.Abort]"

definition test_read_after_write_on_same_tx :: "TransactionId \<Rightarrow> test_step list" where
  "test_read_after_write_on_same_tx tx =
     [write_ok tx 10, verify_read tx 10, write_ok tx 50, verify_read tx 50,
      verify_check_commit_success tx, verify_commit_success tx 50]"

definition test_read_after_write_on_same_tx_multiple_tx :: "TransactionId \<Rightarrow> TransactionId \<Rightarrow> test_step list" where
  "test_read_after_write_on_same_tx_multiple_tx tx1 tx2 =
     [write_ok tx2 20, write_ok tx1 10, verify_read tx1 10, verify_read tx2 20,
      verify_check_commit_success tx1, verify_commit_success tx1 10,
      verify_check_commit_success tx2, verify_commit_success tx2 20]"

definition test_read_after_commit_on_different_tx :: "TransactionId \<Rightarrow> TransactionId \<Rightarrow> test_step list" where
  "test_read_after_commit_on_different_tx tx1 tx2 =
     [write_ok tx2 20, write_ok tx1 10,
      verify_read tx1 10, verify_check_commit_success tx1, verify_commit_success tx1 10,
      verify_read tx2 20, verify_check_commit_success tx2, verify_commit_success tx2 20]"

definition test_read_created_object :: "TransactionId \<Rightarrow> test_step list" where
  "test_read_created_object tx = [read_err tx RWFailure.AbortedNotFound]"

definition test_read_on_unwritten_object :: "TransactionId \<Rightarrow> TransactionId \<Rightarrow> test_step list" where
  "test_read_on_unwritten_object tx1 tx2 = [write_ok tx2 20, read_err tx1 RWFailure.AbortedNotFound]"

definition object_tests :: "TransactionId \<Rightarrow> TransactionId \<Rightarrow> TransactionId \<Rightarrow> test_step list list" where
  "object_tests tx1 tx2 tx3 =
     [test_basic_write tx1, test_basic_write_with_update tx1, test_commit_stall tx1 tx2,
      test_write_after_newer_commit tx1 tx2, test_newer_transaction_writes_first tx1 tx2, test_basic_abort tx1,
      test_aborted_transaction_with_future_commits tx1 tx2, test_basic_consistency_check_failure tx1,
      test_consistency_check_failure_with_future_commit tx1 tx2, test_basic_read tx1 tx2,
      test_read_before_non_committed_write tx1 tx2 tx3, test_read_after_non_committed_write tx1 tx2 tx3,
      test_read_before_committed_write tx1 tx2, test_read_after_write_on_same_tx tx1,
      test_read_after_write_on_same_tx_multiple_tx tx1 tx2, test_read_after_commit_on_different_tx tx1 tx2,
      test_read_created_object tx1, test_read_on_unwritten_object tx1 tx2]"

lemmas object_test_defs = test_basic_write_def test_basic_write_with_update_def test_commit_stall_def
  test_write_after_newer_commit_def test_newer_transaction_writes_first_def test_basic_abort_def
  test_aborted_transaction_with_future_commits_def test_basic_consistency_check_failure_def
  test_consistency_check_failure_with_future_commit_def test_basic_read_def
  test_read_before_non_committed_write_def test_read_after_non_committed_write_def
  test_read_before_committed_write_def test_read_after_write_on_same_tx_def
  test_read_after_write_on_same_tx_multiple_tx_def test_read_after_commit_on_different_tx_def
  test_read_created_object_def test_read_on_unwritten_object_def

lemmas test_step_defs = write_ok_def write_err_def read_err_def abort_ok_def object_is_def
  verify_check_commit_success_def verify_check_commit_failure_def verify_commit_success_def
  verify_commit_failure_def verify_read_def test_check_def

lemma object_tests_pass_ordered:
  assumes "default_id CHR ''A'' < tx1" and "tx1 < tx2" and "tx2 < tx3" and "\<not> is_default tx1" and "\<not> is_default tx2"
    and "t \<in> set (object_tests tx1 tx2 tx3)"
  shows "test_passes t (object_default 0 CHR ''A'')"
proof -
  have "tx1 \<noteq> tx2" "tx2 \<noteq> tx3" "tx1 \<noteq> tx3" "tx2 \<noteq> tx1" "tx3 \<noteq> tx2" "tx3 \<noteq> tx1" "tx1 < tx3" "tx1 \<le> tx2" "tx2 \<le> tx3" "tx1 \<le> tx3"
    "default_id CHR ''A'' < tx2" "default_id CHR ''A'' < tx3"
    "\<not> tx2 < tx1" "\<not> tx3 < tx2" "\<not> tx3 < tx1" "\<not> tx2 \<le> tx1" "\<not> tx3 \<le> tx2" "\<not> tx3 \<le> tx1"
    using assms(1-3) by auto
  note facts = this[unfolded default_id_def] assms(1-5)[unfolded default_id_def is_default_def]
  show ?thesis
    using assms(6) unfolding object_tests_def
    by (auto simp: object_test_defs test_step_defs object_eval facts)
qed

text \<open>
  C31. The tests of the object pass: for every reading of an advancing clock after the epoch, all
  eighteen tests succeed on the ids the generator draws from it.
\<close>

theorem object_unit_tests_pass:
  assumes "0 < t1" and "t1 < t2" and "t2 < t3" and "next_ids [t1, t2, t3] (new_generator CHR ''B'') = [tx1, tx2, tx3]"
    and "t \<in> set (object_tests tx1 tx2 tx3)"
  shows "test_passes t (object_default 0 CHR ''A'')"
proof -
  have "next_ids [t1, t2, t3] (new_generator CHR ''B'') = map (\<lambda>t. ClockTransactionId t CHR ''B'') [t1, t2, t3]"
    using assms(1-3) by (subst next_ids_advancing) (auto simp: new_generator_def)
  with assms(4) have "tx1 = ClockTransactionId t1 CHR ''B''" "tx2 = ClockTransactionId t2 CHR ''B''"
    "tx3 = ClockTransactionId t3 CHR ''B''" by simp_all
  then show ?thesis
    using assms(1-3) by (intro object_tests_pass_ordered[OF _ _ _ _ _ assms(5)])
      (auto simp: default_id_def is_default_def less_ClockTransactionId_def word_neq_0_conv)
qed

theorem object_unit_tests_pass_witness:
  "test_passes (test_commit_stall (tx_at 5) (tx_at 7)) (object_default 0 CHR ''A'')"
  using object_unit_tests_pass[of 5 7 9 "tx_at 5" "tx_at 7" "tx_at 9" "test_commit_stall (tx_at 5) (tx_at 7)"]
  by (simp add: object_tests_def next_id_def new_generator_def)

section \<open>The tests of the transaction ids\<close>

text \<open>
  One element per round of the loop: the clock readings of its four calls. The rounds of a test
  continue on the generators the previous round left.
\<close>

type_synonym readings = "u128 \<times> u128 \<times> u128 \<times> u128"

fun unique_id_rounds :: "readings list \<Rightarrow> TransactionIdGenerator \<Rightarrow> bool" where
  "unique_id_rounds [] g \<longleftrightarrow> True"
| "unique_id_rounds ((a, b, c, d) # rounds) g \<longleftrightarrow>
     (let (id1, g1) = next_id a g; (id2, g2) = next_id b g1; (id3, g3) = next_id c g2; (id4, g4) = next_id d g3
      in id1 < id2 \<and> id2 < id3 \<and> id3 < id4 \<and> unique_id_rounds rounds g4)"

definition test_unique_id_generation :: "readings list \<Rightarrow> bool" where
  "test_unique_id_generation rounds = unique_id_rounds (take 100 rounds) (new_generator CHR ''A'')"

fun two_node_rounds :: "readings list \<Rightarrow> TransactionIdGenerator \<Rightarrow> TransactionIdGenerator \<Rightarrow> bool" where
  "two_node_rounds [] ga gb \<longleftrightarrow> True"
| "two_node_rounds ((a, b, c, d) # rounds) ga gb \<longleftrightarrow>
     (let (id1, ga1) = next_id a ga; (id2, gb1) = next_id b gb; (id3, ga2) = next_id c ga1; (id4, gb2) = next_id d gb1
      in id1 < id2 \<and> id1 < id3 \<and> id2 < id4 \<and> id3 < id4 \<and> two_node_rounds rounds ga2 gb2)"

definition test_unique_id_generation_different_nodes :: "readings list \<Rightarrow> bool" where
  "test_unique_id_generation_different_nodes rounds =
     two_node_rounds (take 100 rounds) (new_generator CHR ''A'') (new_generator CHR ''B'')"

fun readings_list :: "readings list \<Rightarrow> u128 list" where
  "readings_list [] = []"
| "readings_list ((a, b, c, d) # rounds) = a # b # c # d # readings_list rounds"

lemma next_id_of_later_reading: "last_systime g < now \<Longrightarrow>
    next_id now g = (ClockTransactionId now (node_id g), g\<lparr>last_count := 0, last_systime := now\<rparr>)"
  by (auto simp: next_id_def)

lemma readings_replicate: "sorted (readings_list (replicate n (c, c, c, c)))" "set (readings_list (replicate n (c, c, c, c))) \<subseteq> {c}"
  by (induction n) auto

lemma set_readings_take: "set (readings_list (take n rounds)) \<subseteq> set (readings_list rounds)"
  by (induction rounds arbitrary: n rule: readings_list.induct) (auto simp: take_Cons' split: if_splits)

lemma sorted_readings_take: "sorted_wrt (<) (readings_list rounds) \<Longrightarrow> sorted_wrt (<) (readings_list (take n rounds))"
proof (induction rounds arbitrary: n rule: readings_list.induct)
  case (2 a b c d rounds)
  then show ?case using set_readings_take[of "n - 1" rounds] by (auto simp: take_Cons')
qed simp

lemma unique_id_rounds_pass:
  "sorted_wrt (<) (last_systime g # readings_list rounds) \<Longrightarrow> unique_id_rounds rounds g"
  by (induction rounds g rule: unique_id_rounds.induct) (simp_all add: next_id_of_later_reading)

lemma two_node_rounds_pass:
  assumes "sorted_wrt (<) (last_systime ga # readings_list rounds)" and "sorted_wrt (<) (last_systime gb # readings_list rounds)"
  shows "two_node_rounds rounds ga gb"
  using assms by (induction rounds ga gb rule: two_node_rounds.induct) (simp_all add: next_id_of_later_reading)

text \<open>
  C33. The tests of the transaction ids pass when the clock advances with every reading, and only
  then can they be relied on: there are readings of a clock that never goes back on which the
  hundred rounds of the first test fail.
\<close>

theorem id_unit_tests:
  "(\<forall>rounds. sorted_wrt (<) (0 # readings_list rounds) \<longrightarrow>
      test_unique_id_generation rounds \<and> test_unique_id_generation_different_nodes rounds) \<and>
   (\<exists>rounds. length rounds = 100 \<and> sorted (readings_list rounds) \<and> \<not> test_unique_id_generation rounds)"
proof (intro conjI allI impI)
  fix rounds assume s: "sorted_wrt (<) (0 # readings_list rounds)"
  then have "sorted_wrt (<) (0 # readings_list (take 100 rounds))"
    using sorted_readings_take[of rounds 100] set_readings_take[of 100 rounds] by auto
  then show "test_unique_id_generation rounds" "test_unique_id_generation_different_nodes rounds"
    unfolding test_unique_id_generation_def test_unique_id_generation_different_nodes_def
    by (intro unique_id_rounds_pass two_node_rounds_pass; simp add: new_generator_def)+
next
  let ?rounds = "(100, 100, 101, 102) # replicate 99 (102, 102, 102, 102)"
  have "sorted (readings_list ?rounds)" using readings_replicate[of 99 102] by auto
  moreover have "\<not> test_unique_id_generation ?rounds"
    by (simp add: test_unique_id_generation_def new_generator_def next_id_def take_Cons' Let_def)
  ultimately show "\<exists>rounds. length rounds = 100 \<and> sorted (readings_list rounds) \<and> \<not> test_unique_id_generation rounds"
    by (intro exI[of _ ?rounds]) simp
qed

theorem id_unit_tests_witness: "test_unique_id_generation [(5, 6, 7, 9), (10, 12, 14, 15)]"
  using id_unit_tests by simp

section \<open>The tests of the responses\<close>

definition test_client_response_is_err :: bool where
  "test_client_response_is_err \<longleftrightarrow>
     response_is_err Aborted \<and> response_is_err ClientResponse.AbortedNotFound \<and> \<not> response_is_err OkResponse \<and>
     \<not> response_is_err CommitOk \<and> \<not> response_is_err (Value ''test'' 10)"

definition test_client_response_is_ok :: bool where
  "test_client_response_is_ok \<longleftrightarrow>
     \<not> response_is_ok Aborted \<and> \<not> response_is_ok ClientResponse.AbortedNotFound \<and> response_is_ok OkResponse \<and>
     response_is_ok CommitOk \<and> response_is_ok (Value ''test'' 10)"

lemma response_unit_tests_pass: "test_client_response_is_err" "test_client_response_is_ok"
  by (simp_all add: test_client_response_is_err_def test_client_response_is_ok_def)

end
