(* ===== verification/Text.thy ===== *)
theory Text
  imports Common
begin

text \<open>
  The standard library's string functions the program uses: splitting at ASCII white space,
  trimming, lines, and \<open>parse\<close> for unsigned and signed integers. A string is a list of
  characters of the first 256 code points; its length in bytes is that of its UTF-8 encoding.
\<close>

section \<open>Splitting\<close>

definition is_ascii_whitespace :: "char \<Rightarrow> bool" where
  "is_ascii_whitespace c \<longleftrightarrow> of_char c \<in> {9, 10, 12, 13, 32 :: nat}"

definition is_whitespace :: "char \<Rightarrow> bool" where
  "is_whitespace c \<longleftrightarrow> of_char c \<in> {9, 10, 11, 12, 13, 32, 133, 160 :: nat}"

fun split_from :: "string \<Rightarrow> string \<Rightarrow> string list" where
  "split_from cur [] = (if cur = [] then [] else [rev cur])"
| "split_from cur (c # cs) =
     (if is_ascii_whitespace c then
        (if cur = [] then split_from [] cs else rev cur # split_from [] cs)
      else split_from (c # cur) cs)"

definition split_ascii_whitespace :: "string \<Rightarrow> string list" where
  "split_ascii_whitespace s = split_from [] s"

definition trim :: "string \<Rightarrow> string" where
  "trim s = rev (dropWhile is_whitespace (rev (dropWhile is_whitespace s)))"

definition utf8_len :: "char \<Rightarrow> nat" where
  "utf8_len c = (if of_char c < (128 :: nat) then 1 else 2)"

definition str_len :: "string \<Rightarrow> nat" where
  "str_len s = sum_list (map utf8_len s)"

text \<open>\<open>read_line\<close>: the lines of a text, each with its newline if it has one.\<close>

fun lines_from :: "string \<Rightarrow> string \<Rightarrow> string list" where
  "lines_from cur [] = (if cur = [] then [] else [rev cur])"
| "lines_from cur (c # cs) =
     (if c = CHR 0x0A then rev (c # cur) # lines_from [] cs else lines_from (c # cur) cs)"

definition lines_of :: "string \<Rightarrow> string list" where
  "lines_of s = lines_from [] s"

text \<open>
  What \<open>read_line\<close> can come to, other than the end of the input: a line, or an error (of the
  device, or a line that is not UTF-8). A text is read as its lines.
\<close>

datatype input_line = Line string | Unreadable

definition reads_of :: "string \<Rightarrow> input_line list" where
  "reads_of s = map Line (lines_of s)"

section \<open>Numbers\<close>

definition digit_value :: "char \<Rightarrow> nat option" where
  "digit_value c =
     (if 48 \<le> (of_char c :: nat) \<and> of_char c \<le> (57 :: nat) then Some (of_char c - 48) else None)"

fun parse_digits :: "nat \<Rightarrow> string \<Rightarrow> nat option" where
  "parse_digits a [] = Some a"
| "parse_digits a (c # cs) =
     (case digit_value c of None \<Rightarrow> None | Some d \<Rightarrow> parse_digits (10 * a + d) cs)"

definition parse_nat :: "string \<Rightarrow> nat option" where
  "parse_nat s = (if s = [] then None else parse_digits 0 s)"

definition parse_u16 :: "string \<Rightarrow> u16 option" where
  "parse_u16 s =
     (case parse_nat (case s of c # cs \<Rightarrow> if c = CHR ''+'' then cs else s | [] \<Rightarrow> []) of
        None \<Rightarrow> None
      | Some n \<Rightarrow> if n < 2 ^ 16 then Some (of_nat n) else None)"

definition parse_i64 :: "string \<Rightarrow> Amount option" where
  "parse_i64 s =
     (case s of
        [] \<Rightarrow> None
      | c # cs \<Rightarrow>
          if c = CHR ''-'' then
            (case parse_nat cs of None \<Rightarrow> None | Some n \<Rightarrow> if n \<le> 2 ^ 63 then Some (- of_nat n) else None)
          else
            (case parse_nat (if c = CHR ''+'' then cs else s) of
               None \<Rightarrow> None | Some n \<Rightarrow> if n < 2 ^ 63 then Some (of_nat n) else None))"

section \<open>Reading back what was printed\<close>

lemma digit_value_digit_char: "d < 10 \<Longrightarrow> digit_value (digit_char d) = Some d"
  by (simp add: digit_value_def digit_char_def of_char_of)

lemma digit_char_neq: "d < 10 \<Longrightarrow> digit_char d \<noteq> CHR ''-''" "d < 10 \<Longrightarrow> digit_char d \<noteq> CHR ''+''"
  using digit_value_digit_char[of d] by (auto simp: digit_value_def)

lemma parse_digits_append:
  "parse_digits a (xs @ ys) = (case parse_digits a xs of None \<Rightarrow> None | Some b \<Rightarrow> parse_digits b ys)"
  by (induction xs arbitrary: a) (auto split: option.split)

lemma parse_digits_show_nat: "parse_digits 0 (show_nat n) = Some n"
proof (induction n rule: show_nat.induct)
  case (1 n)
  then show ?case
    by (subst show_nat.simps) (auto simp: digit_value_digit_char parse_digits_append)
qed

lemma show_nat_Cons: "\<exists>d cs. d < 10 \<and> show_nat n = digit_char d # cs"
proof (induction n rule: show_nat.induct)
  case (1 n)
  then show ?case by (subst show_nat.simps) fastforce
qed

lemma parse_nat_show_nat [simp]: "parse_nat (show_nat n) = Some n"
  using show_nat_Cons[of n] by (auto simp: parse_nat_def parse_digits_show_nat)

lemma parse_u16_show [simp]: "parse_u16 (show_nat (unat p)) = Some p"
proof -
  obtain d cs where d: "d < 10" "show_nat (unat p) = digit_char d # cs" using show_nat_Cons by blast
  have "unat p < 2 ^ 16" using unsigned_less[of p, where 'a = nat] by simp
  with d digit_char_neq(2)[OF d(1)] parse_nat_show_nat[of "unat p"] show ?thesis
    by (simp add: parse_u16_def)
qed

lemma parse_i64_show_amount [simp]: "parse_i64 (show_amount a) = Some a"
proof (cases "sint a < 0")
  case True
  have "- (2 ^ 63) \<le> sint a" using sint_ge[of a] by simp
  then have "nat (- sint a) \<le> 2 ^ 63" by (simp add: nat_le_iff)
  moreover have "(of_nat (nat (- sint a)) :: Amount) = - a"
    using True by (simp add: of_nat_nat)
  ultimately show ?thesis using True by (simp add: show_amount_def parse_i64_def)
next
  case False
  obtain d cs where d: "d < 10" "show_nat (nat (sint a)) = digit_char d # cs" using show_nat_Cons by blast
  have "sint a < 2 ^ 63" using sint_lt[of a] by simp
  then have "nat (sint a) < 2 ^ 63" using False by (simp add: nat_less_iff)
  moreover have "(of_nat (nat (sint a)) :: Amount) = a" using False by (simp add: of_nat_nat)
  ultimately show ?thesis
    using False d digit_char_neq[OF d(1)] parse_nat_show_nat[of "nat (sint a)"]
    by (simp add: show_amount_def parse_i64_def)
qed

section \<open>Words and lines\<close>

definition is_word :: "string \<Rightarrow> bool" where
  "is_word w \<longleftrightarrow> w \<noteq> [] \<and> list_all (\<lambda>c. \<not> is_whitespace c) w"

lemma ascii_whitespace: "is_ascii_whitespace c \<Longrightarrow> is_whitespace c"
  by (auto simp: is_ascii_whitespace_def is_whitespace_def)

lemma split_from_word: "list_all (\<lambda>c. \<not> is_whitespace c) w \<Longrightarrow> split_from cur (w @ s) = split_from (rev w @ cur) s"
  by (induction w arbitrary: cur) (auto dest: ascii_whitespace)

lemma split_word_space:
  "is_word w \<Longrightarrow> is_ascii_whitespace c \<Longrightarrow> split_from [] (w @ c # s) = w # split_from [] s"
  by (simp add: split_from_word is_word_def)

lemma split_word: "is_word w \<Longrightarrow> split_from [] w = [w]"
  using split_from_word[of w "[]" "[]"] by (simp add: is_word_def)

lemma digit_char_not_whitespace: "d < 10 \<Longrightarrow> \<not> is_whitespace (digit_char d)"
  by (auto simp: is_whitespace_def digit_char_def of_char_of)

lemma show_nat_word [simp]: "is_word (show_nat n)"
proof (induction n rule: show_nat.induct)
  case (1 n)
  then show ?case by (subst show_nat.simps) (auto simp: is_word_def digit_char_not_whitespace)
qed

lemma show_amount_word [simp]: "is_word (show_amount a)"
  using show_nat_word by (auto simp: show_amount_def is_word_def is_whitespace_def)

lemma lines_from_line: "CHR 0x0A \<notin> set l \<Longrightarrow> lines_from cur (l @ CHR 0x0A # s) = (rev cur @ l @ [CHR 0x0A]) # lines_from [] s"
  by (induction l arbitrary: cur) auto

lemma is_word_newline: "is_word w \<Longrightarrow> CHR 0x0A \<notin> set w"
  by (auto simp: is_word_def is_whitespace_def list_all_iff)

end
