(* ===== verification/Node_Config.thy ===== *)
theory Node_Config
  imports Text
begin

text \<open>
  The configuration file (tx-common/src/config.rs) and the start of the server program
  (tx-server/src/main.rs): one line per node with its name, host and port; each node connects
  to the nodes listed before it. \<open>None\<close> is a panic.
\<close>

section \<open>Parsing\<close>

record NodeConfiguration =
  node_id :: NodeId
  hostname :: string
  port :: u16
  connection_list :: "NodeId list"

type_synonym Config = "NodeId \<rightharpoonup> NodeConfiguration"

definition NodeConfiguration_new :: "NodeId \<Rightarrow> string \<Rightarrow> u16 \<Rightarrow> NodeId list \<Rightarrow> NodeConfiguration" where
  "NodeConfiguration_new n h p ns = \<lparr>node_id = n, hostname = h, port = p, connection_list = ns\<rparr>"

fun parse_lines :: "input_line list \<Rightarrow> Config \<Rightarrow> NodeId list \<Rightarrow> (Config, string) result option" where
  "parse_lines [] config nodes = Some (Ok config)"
| "parse_lines (Unreadable # rest) config nodes = Some (Ok config)"
| "parse_lines (Line buf # rest) config nodes =
     (case split_ascii_whitespace buf of
        node_name # host # p # _ \<Rightarrow>
          (case parse_u16 p of
             Some prt \<Rightarrow>
               if str_len node_name = 1 then
                 let n = hd node_name
                 in parse_lines rest (config(n \<mapsto> NodeConfiguration_new n host prt nodes)) (nodes @ [n])
               else Some (Err ''Node name must be a character'')
           | None \<Rightarrow> Some (Err (''Bad config: could not parse port for node with id: '' @ show_nat (str_len buf))))
      | _ \<Rightarrow> None)"

text \<open>
  The file is what reading it line by line gives, or the error of opening it. A line that cannot be
  read ends the loop as the end of the file does: the nodes before it are the configuration.
\<close>

definition parse_config :: "(input_line list, string) result \<Rightarrow> (Config, string) result option" where
  "parse_config file =
     (case file of
        Err e \<Rightarrow> Some (Err e)
      | Ok reads \<Rightarrow> parse_lines reads Map.empty [])"

section \<open>Starting the server\<close>

definition server_parse_config :: "(input_line list, string) result \<Rightarrow> NodeId \<Rightarrow> (Config, string) result option" where
  "server_parse_config file given_node_name =
     (case parse_config file of
        None \<Rightarrow> None
      | Some (Err e) \<Rightarrow> Some (Err e)
      | Some (Ok c) \<Rightarrow>
          if c given_node_name \<noteq> None then Some (Ok c)
          else Some (Err ''Bad config: node identifier is not listed in config file''))"

datatype startup = ExitWith string | StartServer NodeId Config nat

text \<open>\<open>main\<close>: the arguments, and what opening the file they name gives.\<close>

definition server_main :: "(string \<Rightarrow> (input_line list, string) result) \<Rightarrow> string list \<Rightarrow> startup option" where
  "server_main open_file args =
     (if length args \<noteq> 3 then
        (case args of [] \<Rightarrow> None
         | prog # _ \<Rightarrow> Some (ExitWith (''Usage: '' @ prog @ '' <node identifier> <path to config file>'')))
      else if str_len (args ! 1) \<noteq> 1 then
        Some (ExitWith (args ! 0 @ '': Node identifier must be a single character''))
      else
        (let n = hd (args ! 1)
         in case server_parse_config (open_file (args ! 2)) n of
              None \<Rightarrow> None
            | Some (Err e) \<Rightarrow> Some (ExitWith (args ! 0 @ '': '' @ e))
            | Some (Ok config) \<Rightarrow> Some (StartServer n config 60)))"

section \<open>What a parsed configuration is\<close>

definition node_names :: "string list \<Rightarrow> NodeId list" where
  "node_names ls = map (\<lambda>l. hd (hd (split_ascii_whitespace l))) ls"

definition config_inv :: "Config \<Rightarrow> NodeId list \<Rightarrow> bool" where
  "config_inv config nodes \<longleftrightarrow> dom config = set nodes \<and>
     (\<forall>i < length nodes. \<exists>c. config (nodes ! i) = Some c \<and> node_id c = nodes ! i \<and>
        connection_list c = take i nodes)"

lemma config_inv_snoc:
  assumes "config_inv config nodes" and "n \<notin> set nodes"
  shows "config_inv (config(n \<mapsto> NodeConfiguration_new n h p nodes)) (nodes @ [n])"
  using assms by (auto simp: config_inv_def NodeConfiguration_new_def nth_append less_Suc_eq)

lemma parse_lines_inv:
  assumes "parse_lines (map Line ls) config nodes = Some (Ok config')" and "config_inv config nodes"
    and "distinct (nodes @ node_names ls)"
  shows "config_inv config' (nodes @ node_names ls)"
  using assms
proof (induction ls arbitrary: config nodes)
  case Nil
  then show ?case by (simp add: node_names_def)
next
  case (Cons buf rest)
  from Cons.prems(1) obtain name host p more prt where t: "split_ascii_whitespace buf = name # host # p # more"
    "parse_u16 p = Some prt" "str_len name = 1"
    by (auto split: list.splits option.splits if_splits)
  let ?config = "config(hd name \<mapsto> NodeConfiguration_new (hd name) host prt nodes)"
  have names: "node_names (buf # rest) = hd name # node_names rest" using t by (simp add: node_names_def)
  from Cons.prems(3) names have d: "distinct ((nodes @ [hd name]) @ node_names rest)" by simp
  from Cons.prems(1) t have "parse_lines (map Line rest) ?config (nodes @ [hd name]) = Some (Ok config')"
    by (simp add: Let_def)
  moreover have "config_inv ?config (nodes @ [hd name])"
    using Cons.prems(2) d by (intro config_inv_snoc) auto
  ultimately have "config_inv config' ((nodes @ [hd name]) @ node_names rest)" using d by (rule Cons.IH)
  then show ?case using names by simp
qed

lemma parse_config_inv:
  assumes "parse_config (Ok (reads_of contents)) = Some (Ok config)" and "distinct (node_names (lines_of contents))"
  shows "config_inv config (node_names (lines_of contents))"
  using parse_lines_inv[of "lines_of contents" Map.empty "[]" config] assms
  by (simp add: parse_config_def reads_of_def config_inv_def)

lemma config_inv_pairs:
  assumes "config_inv config nodes" and "distinct nodes" and "config m = Some cm" and "config n = Some cn"
  shows "n \<in> set (connection_list cm) \<longleftrightarrow> m \<noteq> n \<and> m \<notin> set (connection_list cn)"
    and "set (connection_list cm) \<subseteq> dom config"
proof -
  from assms(1) have dom: "dom config = set nodes"
    and at: "\<And>i. i < length nodes \<Longrightarrow> \<exists>c. config (nodes ! i) = Some c \<and> connection_list c = take i nodes"
    by (auto simp: config_inv_def)
  from dom assms(3,4) obtain i j where i: "i < length nodes" "nodes ! i = m" and j: "j < length nodes" "nodes ! j = n"
    by (metis domI in_set_conv_nth)
  have mem: "nodes ! a \<in> set (take b nodes) \<longleftrightarrow> a < b" if "a < length nodes" for a b
    using that assms(2) by (auto simp: in_set_conv_nth nth_eq_iff_index_eq)
  have c: "connection_list cm = take i nodes" "connection_list cn = take j nodes"
    using at[OF i(1)] at[OF j(1)] i j assms(3,4) by auto
  then show "n \<in> set (connection_list cm) \<longleftrightarrow> m \<noteq> n \<and> m \<notin> set (connection_list cn)"
    using mem[OF i(1)] mem[OF j(1)] i j assms(2) by (auto simp: nth_eq_iff_index_eq)
  show "set (connection_list cm) \<subseteq> dom config" using c dom set_take_subset by metis
qed

text \<open>
  The start-up topology: in a configuration whose node names are distinct, of any two different
  nodes exactly one has the other in its connection list, so the servers open exactly one
  connection per pair, and no node connects to itself.
\<close>

theorem config_connects_pairs_once:
  assumes "parse_config (Ok (reads_of contents)) = Some (Ok config)" and "distinct (node_names (lines_of contents))"
    and "config m = Some cm" and "config n = Some cn"
  shows "n \<in> set (connection_list cm) \<longleftrightarrow> m \<noteq> n \<and> m \<notin> set (connection_list cn)"
  by (rule config_inv_pairs(1)[OF parse_config_inv[OF assms(1,2)] assms(2-4)])

section \<open>Configuration files as they are written\<close>

fun render_node :: "NodeId \<times> string \<times> u16 \<Rightarrow> string" where
  "render_node (n, h, p) = n # CHR '' '' # h @ CHR '' '' # show_nat (unat p) @ [CHR 0x0A]"

fun valid_node :: "NodeId \<times> string \<times> u16 \<Rightarrow> bool" where
  "valid_node (n, h, p) \<longleftrightarrow> utf8_len n = 1 \<and> is_word [n] \<and> is_word h"

lemma whitespace_eval [simp]:
  "is_ascii_whitespace CHR '' ''" "is_ascii_whitespace CHR 0x0A" "is_whitespace CHR '' ''" "is_whitespace CHR 0x0A"
  by (simp_all add: is_ascii_whitespace_def is_whitespace_def)

lemma split_render_node:
  assumes "valid_node e"
  shows "split_ascii_whitespace (render_node e) = [[fst e], fst (snd e), show_nat (unat (snd (snd e)))]"
proof (cases e)
  case (fields n h p)
  with assms have w: "is_word [n]" "is_word h" by auto
  show ?thesis
    using split_word_space[OF w(1), of "CHR '' ''"] split_word_space[OF w(2), of "CHR '' ''"]
      split_word_space[OF show_nat_word, of "CHR 0x0A" "unat p" "[]"]
    by (simp add: fields split_ascii_whitespace_def)
qed

lemma lines_render:
  assumes "list_all valid_node es"
  shows "lines_of (concat (map render_node es) @ s) = map render_node es @ lines_of s"
  using assms
proof (induction es)
  case (Cons e es)
  obtain n h p where e: "e = (n, h, p)" by (cases e)
  let ?l = "n # CHR '' '' # h @ CHR '' '' # show_nat (unat p)"
  from Cons.prems e have "is_word [n]" "is_word h" by auto
  then have "CHR 0x0A \<notin> set ?l" using is_word_newline[of "[n]"] is_word_newline[of h] is_word_newline[OF show_nat_word] by auto
  from lines_from_line[OF this, of "[]" "concat (map render_node es) @ s"] Cons e show ?case
    by (simp add: lines_of_def)
qed simp

text \<open>The configuration a list of nodes stands for.\<close>

fun config_of :: "(NodeId \<times> string \<times> u16) list \<Rightarrow> Config \<Rightarrow> NodeId list \<Rightarrow> Config" where
  "config_of [] config nodes = config"
| "config_of ((n, h, p) # es) config nodes =
     config_of es (config(n \<mapsto> NodeConfiguration_new n h p nodes)) (nodes @ [n])"

lemma parse_lines_render:
  assumes "list_all valid_node es"
  shows "parse_lines (map (Line \<circ> render_node) es @ rest) config nodes =
    parse_lines rest (config_of es config nodes) (nodes @ map fst es)"
  using assms
proof (induction es arbitrary: config nodes)
  case (Cons e es)
  obtain n h p where e: "e = (n, h, p)" by (cases e)
  from Cons.prems e have v: "valid_node (n, h, p)" by simp
  from v have "str_len [n] = 1" by (simp add: str_len_def)
  with Cons split_render_node[OF v] show ?case by (simp add: e Let_def del: render_node.simps)
qed simp

lemma config_of_other: "k \<notin> set (map fst es) \<Longrightarrow> config_of es config nodes k = config k"
  by (induction es arbitrary: config nodes) auto

lemma dom_config_of: "dom (config_of es config nodes) = dom config \<union> set (map fst es)"
proof (induction es arbitrary: config nodes)
  case (Cons e es)
  obtain n h p where e: "e = (n, h, p)" by (cases e)
  have "dom (config_of (e # es) config nodes) = dom (config(n \<mapsto> NodeConfiguration_new n h p nodes)) \<union> set (map fst es)"
    unfolding e config_of.simps by (rule Cons.IH)
  then show ?case by (simp add: e)
qed simp

lemma config_of_nth:
  assumes "distinct (nodes @ map fst es)" and "i < length es"
  shows "config_of es config nodes (fst (es ! i)) =
    Some (NodeConfiguration_new (fst (es ! i)) (fst (snd (es ! i))) (snd (snd (es ! i)))
            (nodes @ take i (map fst es)))"
  using assms
proof (induction es arbitrary: config nodes i)
  case (Cons e es)
  obtain n h p where e: "e = (n, h, p)" by (cases e)
  let ?config = "config(n \<mapsto> NodeConfiguration_new n h p nodes)"
  show ?case
  proof (cases i)
    case 0
    with Cons.prems e show ?thesis by (auto simp: config_of_other)
  next
    case (Suc j)
    with Cons.IH[of "nodes @ [n]" j ?config] Cons.prems e show ?thesis by (simp del: fun_upd_apply)
  qed
qed simp

text \<open>
  C37. Round trip: a configuration file written from a list of nodes with distinct one-byte names
  is read back as exactly these nodes, each with its host, its port and, as connection list,
  the nodes before it.
\<close>

theorem parse_config_round_trip:
  assumes "list_all valid_node es" and "distinct (map fst es)"
  shows "\<exists>config. parse_config (Ok (reads_of (concat (map render_node es)))) = Some (Ok config) \<and>
    dom config = set (map fst es) \<and>
    (\<forall>i < length es. config (fst (es ! i)) =
       Some (NodeConfiguration_new (fst (es ! i)) (fst (snd (es ! i))) (snd (snd (es ! i)))
               (take i (map fst es))))"
  using parse_lines_render[OF assms(1), of "[]" Map.empty "[]"] lines_render[OF assms(1), of "[]"]
    config_of_nth[of "[]" es _ Map.empty] assms(2) dom_config_of[of es Map.empty "[]"]
  by (auto simp: parse_config_def reads_of_def lines_of_def)

text \<open>
  A line of fewer than three words does not give the error the code has for it: the slice in
  the match panics first. A blank line at the end of an otherwise good file is enough.
\<close>

theorem blank_line_panics:
  assumes "list_all valid_node es"
  shows "parse_config (Ok (reads_of (concat (map render_node es) @ [CHR 0x0A]))) = None"
  using lines_render[OF assms, of "[CHR 0x0A]"] parse_lines_render[OF assms]
  by (simp add: parse_config_def reads_of_def lines_of_def split_ascii_whitespace_def)


abbreviation demo_nodes :: "(NodeId \<times> string \<times> u16) list" where
  "demo_nodes \<equiv> [(CHR ''A'', ''host1'', 1234), (CHR ''B'', ''host2'', 1235)]"

lemma demo_nodes_valid: "list_all valid_node demo_nodes" "distinct (map fst demo_nodes)"
  by (simp_all add: utf8_len_def is_word_def is_whitespace_def)

lemma parse_config_round_trip_demo:
  "\<exists>config. parse_config (Ok (reads_of (concat (map render_node demo_nodes)))) = Some (Ok config) \<and>
     dom config = set (map fst demo_nodes)"
  using parse_lines_render[OF demo_nodes_valid(1), of "[]" Map.empty "[]"]
    lines_render[OF demo_nodes_valid(1), of "[]"] dom_config_of[of demo_nodes Map.empty "[]"]
  by (simp add: parse_config_def reads_of_def lines_of_def del: render_node.simps)

lemma demo_names: "node_names (lines_of (concat (map render_node demo_nodes))) = map fst demo_nodes"
  using lines_render[OF demo_nodes_valid(1), of "[]"] demo_nodes_valid(1)
  by (simp add: node_names_def lines_of_def split_render_node del: render_node.simps valid_node.simps)

theorem parse_config_round_trip_witness:
  "\<exists>config. parse_config (Ok (reads_of (concat (map render_node demo_nodes)))) = Some (Ok config) \<and>
     dom config = {CHR ''A'', CHR ''B''}"
  using parse_config_round_trip[OF demo_nodes_valid] by auto

theorem blank_line_panics_witness:
  "parse_config (Ok (reads_of (concat (map render_node demo_nodes) @ [CHR 0x0A]))) = None"
  by (rule blank_line_panics[OF demo_nodes_valid(1)])

theorem config_connects_pairs_once_witness:
  "\<exists>config ca cb. parse_config (Ok (reads_of (concat (map render_node demo_nodes)))) = Some (Ok config) \<and>
     config CHR ''A'' = Some ca \<and> config CHR ''B'' = Some cb \<and>
     (CHR ''A'' \<in> set (connection_list cb) \<longleftrightarrow> CHR ''B'' \<notin> set (connection_list ca))"
proof -
  let ?text = "concat (map render_node demo_nodes)"
  obtain config where c: "parse_config (Ok (reads_of ?text)) = Some (Ok config)"
    and d: "dom config = set (map fst demo_nodes)"
    using parse_config_round_trip_demo by blast
  from d have "CHR ''A'' \<in> dom config" "CHR ''B'' \<in> dom config" by simp_all
  then obtain ca cb where ab: "config CHR ''A'' = Some ca" "config CHR ''B'' = Some cb" by (meson domD)
  have "distinct (node_names (lines_of ?text))" unfolding demo_names by simp
  from config_connects_pairs_once[OF c this ab(2,1)]
  have "CHR ''A'' \<in> set (connection_list cb) \<longleftrightarrow> CHR ''B'' \<notin> set (connection_list ca)" by simp
  with c ab show ?thesis by blast
qed

end
