(* ===== verification/Protocol.thy ===== *)
theory Protocol
  imports Common
begin

text \<open>
  The messages between client handlers, server tasks and shards
  (tx-server/src/coordinator/protocol.rs, tx-server/src/pool/server.rs).
\<close>

datatype ForwardTarget = Node NodeId | Broadcast

datatype ClientState = Forward ForwardTarget TransactionId ClientRequest | Finished TransactionId

datatype CommitStatus = ReadyToCommit | CannotCommit

datatype Forwarded =
    Request TransactionId ClientRequest
  | Response TransactionId ClientResponse
  | TwoPhaseCommitStatus TransactionId CommitStatus
  | DoCommit TransactionId

datatype TargetShard = Remote NodeId | Local | DoesNotExist

datatype 'm ServerStateMessageType = Message 'm | Disconnected

record 'm ServerStateMessage =
  msg :: "'m ServerStateMessageType"
  member_id :: NodeId

end
