(* ===== verification/Pool.thy ===== *)
theory Pool
  imports Node_Config Protocol
begin

text \<open>
  The connections between servers (tx-server/src/pool): building the pool at start-up
  (builder.rs) and the task that serves one connection (server.rs). The network is the list of
  events the loops see: whatever order accepted and opened connections come in.
\<close>

section \<open>Building the pool\<close>

datatype handshake = Hello NodeId | BadHello | NoHello

datatype pool_event = Accepted handshake | AcceptFails | Dialed NodeId

text \<open>The keys of \<open>group\<close>, a map from node ids to connections.\<close>

definition admit_member :: "NodeId \<Rightarrow> NodeId list \<Rightarrow> NodeId list" where
  "admit_member m members = List.insert m members"

text \<open>The connections a node opens itself; \<open>None\<close> when a lookup fails and panics.\<close>

fun dial_targets_of :: "Config \<Rightarrow> NodeId list \<Rightarrow> (NodeId \<times> string \<times> u16) list option" where
  "dial_targets_of config [] = Some []"
| "dial_targets_of config (n # ns) =
     (case config n of
        None \<Rightarrow> None
      | Some c \<Rightarrow> map_option ((#) (n, hostname c, port c)) (dial_targets_of config ns))"

definition dial_targets :: "Config \<Rightarrow> NodeId \<Rightarrow> (NodeId \<times> string \<times> u16) list option" where
  "dial_targets config n =
     (case config n of None \<Rightarrow> None | Some c \<Rightarrow> dial_targets_of config (connection_list c))"

text \<open>
  The loop of \<open>connect_inner\<close>, for a configuration of \<open>nodes\<close> nodes: the group when it breaks
  out, \<open>None\<close> when the events end before (the time limit ends the process then).
\<close>

fun connect_loop :: "nat \<Rightarrow> pool_event list \<Rightarrow> NodeId list \<Rightarrow> NodeId list option" where
  "connect_loop nodes [] members = None"
| "connect_loop nodes (Accepted h # evs) members =
     (let members' = (case h of Hello m \<Rightarrow> admit_member m members | BadHello \<Rightarrow> members | NoHello \<Rightarrow> members)
      in if length members' = nodes - 1 then Some members' else connect_loop nodes evs members')"
| "connect_loop nodes (AcceptFails # evs) members = connect_loop nodes evs members"
| "connect_loop nodes (Dialed m # evs) members =
     (let members' = admit_member m members
      in if length members' = nodes - 1 then Some members' else connect_loop nodes evs members')"

fun admits :: "pool_event \<Rightarrow> NodeId list" where
  "admits (Accepted (Hello m)) = [m]"
| "admits (Dialed m) = [m]"
| "admits _ = []"

definition admitted :: "pool_event list \<Rightarrow> NodeId list" where
  "admitted evs = concat (map admits evs)"

lemma admitted_simps [simp]: "admitted [] = []" "admitted (e # evs) = admits e @ admitted evs"
  by (simp_all add: admitted_def)

lemma connect_loop_completes:
  assumes "distinct (members @ admitted evs)" and "length members + length (admitted evs) = nodes - 1"
    and "admitted evs \<noteq> []" and "Accepted BadHello \<notin> set evs" and "Accepted NoHello \<notin> set evs"
  shows "\<exists>g. connect_loop nodes evs members = Some g \<and> set g = set members \<union> set (admitted evs) \<and> distinct g"
  using assms
proof (induction nodes evs members rule: connect_loop.induct)
  case (2 nodes h evs members)
  then obtain m where h: "h = Hello m" by (cases h) auto
  with "2.prems" have m: "admit_member m members = m # members" by (simp add: admit_member_def)
  show ?case
  proof (cases "admitted evs = []")
    case True
    with 2(3) h m "2.prems"(1) show ?thesis by (simp add: Let_def)
  next
    case False
    then have "length (m # members) \<noteq> nodes - 1" using 2(3) h by (cases "admitted evs") auto
    with 2(1)[of "m # members"] "2.prems" False h m show ?thesis by (auto simp: Let_def)
  qed
next
  case (4 nodes m evs members)
  then have m: "admit_member m members = m # members" by (simp add: admit_member_def)
  show ?case
  proof (cases "admitted evs = []")
    case True
    with 4(3) m "4.prems"(1) show ?thesis by (simp add: Let_def)
  next
    case False
    then have "length (m # members) \<noteq> nodes - 1" using 4(3) by (cases "admitted evs") auto
    with 4(1)[of "m # members"] "4.prems" False m show ?thesis by (auto simp: Let_def)
  qed
qed auto

lemma pool_complete:
  assumes "parse_config (Ok (reads_of contents)) = Some (Ok config)" and "distinct (node_names (lines_of contents))"
    and "config n = Some cn" and "1 < card (dom config)"
    and "distinct (admitted evs)"
    and "set (admitted evs) = set (connection_list cn) \<union>
      {m. \<exists>cm. config m = Some cm \<and> n \<in> set (connection_list cm)}"
    and "Accepted BadHello \<notin> set evs" and "Accepted NoHello \<notin> set evs"
  shows "\<exists>g. connect_loop (card (dom config)) evs [] = Some g \<and> set g = dom config - {n} \<and> distinct g"
proof -
  note inv = parse_config_inv[OF assms(1,2)]
  have fin: "finite (dom config)" using inv by (simp add: config_inv_def)
  have peers: "set (admitted evs) = dom config - {n}"
  proof (intro set_eqI iffI)
    fix m assume "m \<in> set (admitted evs)"
    then show "m \<in> dom config - {n}"
      unfolding assms(6) using config_inv_pairs[OF inv assms(2) assms(3,3)]
        config_inv_pairs(1)[OF inv assms(2) _ assms(3)] by fastforce
  next
    fix m assume "m \<in> dom config - {n}"
    then obtain cm where "config m = Some cm" "m \<noteq> n" by auto
    then show "m \<in> set (admitted evs)"
      unfolding assms(6) using config_inv_pairs(1)[OF inv assms(2) _ assms(3), of m cm] by auto
  qed
  then have len: "length (admitted evs) = card (dom config) - 1"
    using assms(3,5) fin distinct_card[of "admitted evs"] by (simp add: card_Diff_singleton domI)
  then have "admitted evs \<noteq> []" using assms(4) by auto
  with connect_loop_completes[of "[]" evs "card (dom config)"] assms(5,7,8) len peers show ?thesis by auto
qed

text \<open>
  The pool is complete: in a cluster of at least two nodes with distinct names, when the
  connections a node opens to the nodes before it succeed and each node after it connects once,
  in whatever order, \<open>connect_inner\<close> returns with exactly the other nodes in the group.
\<close>

theorem pool_completes:
  assumes "parse_config (Ok (reads_of contents)) = Some (Ok config)" and "distinct (node_names (lines_of contents))"
    and "config n = Some cn" and "1 < card (dom config)"
    and "distinct (admitted evs)"
    and "set (admitted evs) = set (connection_list cn) \<union>
      {m. \<exists>cm. config m = Some cm \<and> n \<in> set (connection_list cm)}"
    and "Accepted BadHello \<notin> set evs" and "Accepted NoHello \<notin> set evs"
  shows "\<exists>g. connect_loop (card (dom config)) evs [] = Some g \<and> set g = dom config - {n} \<and> distinct g"
  using assms by (rule pool_complete)

theorem pool_completes_witness:
  "\<exists>config g. parse_config (Ok (reads_of (concat (map render_node demo_nodes)))) = Some (Ok config) \<and>
     connect_loop (card (dom config)) [AcceptFails, Dialed CHR ''A''] [] = Some g \<and> set g = {CHR ''A''}"
proof -
  let ?text = "concat (map render_node demo_nodes)"
  obtain config where c: "parse_config (Ok (reads_of ?text)) = Some (Ok config)"
    and d: "dom config = set (map fst demo_nodes)"
    using parse_config_round_trip_demo by blast
  have names: "node_names (lines_of ?text) = map fst demo_nodes" by (rule demo_names)
  then have dist: "distinct (node_names (lines_of ?text))" by simp
  from d have "CHR ''A'' \<in> dom config" "CHR ''B'' \<in> dom config" by simp_all
  then obtain ca cb where ab: "config CHR ''A'' = Some ca" "config CHR ''B'' = Some cb" by (meson domD)
  have inv: "config_inv config (map fst demo_nodes)" using parse_config_inv[OF c dist] names by simp
  note at = conjunct2[OF inv[unfolded config_inv_def], rule_format]
  have lists: "connection_list ca = []" "connection_list cb = [CHR ''A'']"
    using at[of 0] at[of 1] ab by simp_all
  have peers: "{m. \<exists>cm. config m = Some cm \<and> CHR ''B'' \<in> set (connection_list cm)} = {}"
  proof -
    have "CHR ''B'' \<notin> set (connection_list cm)" if "config m = Some cm" for m cm
    proof -
      from that d have "m = CHR ''A'' \<or> m = CHR ''B''" by (auto dest: domI)
      with that ab lists show ?thesis by auto
    qed
    then show ?thesis by blast
  qed
  have card: "card (dom config) = 2" using d by simp
  obtain g where g: "connect_loop (card (dom config)) [AcceptFails, Dialed CHR ''A''] [] = Some g"
      "set g = dom config - {CHR ''B''} \<and> distinct g"
    by (atomize_elim, rule pool_completes[OF c dist ab(2)]) (unfold peers, use card lists in simp_all)
  from g(2) d have "set g = {CHR ''A''}" by auto
  with c g(1) show ?thesis by blast
qed

text \<open>
  A cluster of one node does not come up by itself: as long as nobody connects with something
  that is not a handshake, the loop goes on until the time limit ends the process.
\<close>

theorem single_node_never_connects:
  assumes "Accepted BadHello \<notin> set evs" and "Accepted NoHello \<notin> set evs"
  shows "connect_loop 1 evs members = None"
  using assms
proof (induction "1 :: nat" evs members rule: connect_loop.induct)
  case (2 h evs members)
  then show ?case by (cases h) (auto simp: admit_member_def Let_def List.insert_def)
qed (auto simp: admit_member_def Let_def List.insert_def)

theorem single_node_never_connects_witness: "connect_loop 1 [Accepted (Hello CHR ''A''), AcceptFails] [] = None"
  by (rule single_node_never_connects) simp_all

text \<open>
  C38. Handshakes are not checked against the configuration. Whatever ids connect to a node, as soon
  as there are as many different ones as the configuration has other nodes, the pool is complete
  and the server starts. If one of them is an id no node of the configuration has, the server is
  connected to a stranger, and one of its peers is missing from its group.
\<close>

theorem stranger_completes_pool:
  assumes "n \<in> dom config" and "distinct (admitted evs)" and "length (admitted evs) = card (dom config) - 1"
    and "Accepted BadHello \<notin> set evs" and "Accepted NoHello \<notin> set evs"
    and "z \<in> set (admitted evs)" and "config z = None"
  shows "\<exists>g. connect_loop (card (dom config)) evs [] = Some g \<and> z \<in> set g \<and> (\<exists>m \<in> dom config - {n}. m \<notin> set g)"
proof -
  have "admitted evs \<noteq> []" using assms(6) by auto
  from connect_loop_completes[of "[]" evs "card (dom config)", OF _ _ this assms(4,5)] assms(2,3)
  obtain g where g: "connect_loop (card (dom config)) evs [] = Some g" "set g = set (admitted evs)" by auto
  have "\<exists>m \<in> dom config - {n}. m \<notin> set (admitted evs)"
  proof (rule ccontr)
    assume "\<not> ?thesis"
    then have "insert z (dom config - {n}) \<subseteq> set (admitted evs)" using assms(6) by blast
    from card_mono[OF _ this] have "card (insert z (dom config - {n})) \<le> card (dom config) - 1"
      using distinct_card[OF assms(2)] assms(3) by simp
    moreover have "0 < length (admitted evs)" using assms(6) by (cases "admitted evs") auto
    then have "finite (dom config)" using assms(3) by (metis card.infinite diff_0_eq_0 less_irrefl)
    moreover have "z \<notin> dom config" using assms(7) by (simp add: domIff)
    ultimately show False using assms(1) by simp
  qed
  with g assms(6) show ?thesis by simp
qed

theorem stranger_completes_pool_witness:
  "\<exists>config g. parse_config (Ok (reads_of (concat (map render_node demo_nodes)))) = Some (Ok config) \<and>
     connect_loop (card (dom config)) [Accepted (Hello CHR ''Z'')] [] = Some g \<and> CHR ''Z'' \<in> set g"
proof -
  obtain config where c: "parse_config (Ok (reads_of (concat (map render_node demo_nodes)))) = Some (Ok config)"
    and d: "dom config = set (map fst demo_nodes)"
    using parse_config_round_trip_demo by blast
  from d have "CHR ''A'' \<in> dom config" and "CHR ''Z'' \<notin> dom config" and "card (dom config) = 2" by simp_all
  with c stranger_completes_pool[of "CHR ''A''" config "[Accepted (Hello CHR ''Z'')]" "CHR ''Z''"]
  show ?thesis by (fastforce simp: domIff)
qed

section \<open>Serving a connection\<close>

datatype 'm member_event = FromEngine 'm bool | FromStream 'm | StreamEnds

text \<open>What the connection of a peer tells the server task, under the name of the peer.\<close>

definition generate_state_msg :: "NodeId \<Rightarrow> 'm ServerStateMessageType \<Rightarrow> 'm ServerStateMessage" where
  "generate_state_msg n m = \<lparr>msg = m, member_id = n\<rparr>"

definition notify_client_message :: "NodeId \<Rightarrow> 'm \<Rightarrow> 'm ServerStateMessage" where
  "notify_client_message n m = generate_state_msg n (Message m)"

definition notify_network_error :: "NodeId \<Rightarrow> 'm ServerStateMessage" where
  "notify_network_error n = generate_state_msg n Disconnected"

text \<open>
  \<open>member_loop\<close>: what it writes to the stream and what it passes to the server task, which
  outlives it. The flag of an outgoing message says whether the stream took it.
\<close>

fun member_loop :: "NodeId \<Rightarrow> 'm member_event list \<Rightarrow> 'm list \<times> 'm ServerStateMessage list" where
  "member_loop n [] = ([], [])"
| "member_loop n (FromEngine m ok # evs) =
     (if ok then let (wire, up) = member_loop n evs in (m # wire, up)
      else ([], [notify_network_error n]))"
| "member_loop n (FromStream m # evs) =
     (let (wire, up) = member_loop n evs in (wire, notify_client_message n m # up))"
| "member_loop n (StreamEnds # evs) = ([], [notify_network_error n])"

fun link_fails :: "'m member_event \<Rightarrow> bool" where
  "link_fails (FromEngine m ok) \<longleftrightarrow> \<not> ok"
| "link_fails (FromStream m) \<longleftrightarrow> False"
| "link_fails StreamEnds \<longleftrightarrow> True"

definition sent_of :: "'m member_event list \<Rightarrow> 'm list" where
  "sent_of evs = concat (map (\<lambda>e. case e of FromEngine m _ \<Rightarrow> [m] | _ \<Rightarrow> []) evs)"

definition received_of :: "'m member_event list \<Rightarrow> 'm list" where
  "received_of evs = concat (map (\<lambda>e. case e of FromStream m \<Rightarrow> [m] | _ \<Rightarrow> []) evs)"

text \<open>
  C30. A connection is faithful while it lasts: until the first failure every message of the server
  task goes out and every message received is passed on, each in order and under the name of
  the peer; the failure is reported once, as the last message.
\<close>

theorem member_loop_faithful:
  "member_loop n evs =
     (let good = takeWhile (\<lambda>e. \<not> link_fails e) evs
      in (sent_of good,
          map (\<lambda>m. \<lparr>msg = Message m, member_id = n\<rparr>) (received_of good) @
          (if good = evs then [] else [\<lparr>msg = Disconnected, member_id = n\<rparr>])))"
  by (induction n evs rule: member_loop.induct) (auto simp: sent_of_def received_of_def Let_def
      notify_client_message_def notify_network_error_def generate_state_msg_def)

end
