(* ===== verification/Message_Stream.thy ===== *)
theory Message_Stream
  imports Prelude
begin

text \<open>
  The message stream (tx-common/src/stream.rs): typed messages over a framed connection. The
  serializer and the framing codec belong to other packages: they are arguments of \<open>stream_send\<close>
  and \<open>stream_recv\<close>, as is the state of the connection they work on.
\<close>

datatype ('io, 'b) StreamError = RemoteIoError 'io | BincodeError 'b

record 's MessageStream =
  stream :: 's

definition from_tcp_stream :: "('t \<Rightarrow> 's) \<Rightarrow> 't \<Rightarrow> 's MessageStream" where
  "from_tcp_stream new_framed tcp = \<lparr>stream = new_framed tcp\<rparr>"

text \<open>
  The question mark converts an error of the serializer and an error of the connection into the
  two kinds of \<open>StreamError\<close>.
\<close>

definition from_io_error :: "'io \<Rightarrow> ('io, 'b) StreamError" where
  "from_io_error e = RemoteIoError e"

definition from_bincode_error :: "'b \<Rightarrow> ('io, 'b) StreamError" where
  "from_bincode_error e = BincodeError e"

definition stream_send ::
  "('m \<Rightarrow> ('bytes, 'b) result) \<Rightarrow> ('bytes \<Rightarrow> 's \<Rightarrow> (unit, 'io) result \<times> 's) \<Rightarrow> 'm \<Rightarrow> 's MessageStream \<Rightarrow>
     (unit, ('io, 'b) StreamError) result \<times> 's MessageStream" where
  "stream_send serialize frame_send message st =
     (case serialize message of
        Err e \<Rightarrow> (Err (from_bincode_error e), st)
      | Ok bytes \<Rightarrow>
          let (r, s') = frame_send bytes (stream st)
          in (map_err from_io_error r, st\<lparr>stream := s'\<rparr>))"

definition stream_recv ::
  "('bytes \<Rightarrow> ('m, 'b) result) \<Rightarrow> ('s \<Rightarrow> ('bytes, 'io) result option \<times> 's) \<Rightarrow> 's MessageStream \<Rightarrow>
     ('m, ('io, 'b) StreamError) result option \<times> 's MessageStream" where
  "stream_recv deserialize frame_next st =
     (let (r, s') = frame_next (stream st); st' = st\<lparr>stream := s'\<rparr>
      in case r of
           Some (Ok bytes) \<Rightarrow>
             (case deserialize bytes of
                Ok item \<Rightarrow> (Some (Ok item), st')
              | Err e \<Rightarrow> (Some (Err (BincodeError e)), st'))
         | Some (Err e) \<Rightarrow> (Some (Err (RemoteIoError e)), st')
         | None \<Rightarrow> (None, st'))"

end
