(* ===== verification/Shard_Service.thy ===== *)
theory Shard_Service
  imports Shard_Waiting Protocol "HOL-Library.Multiset"
begin

text \<open>
  How requests are served on the shard that owns the object: the task \<open>handle_remote_request\<close>
  spawns for a request of another coordinator and the task spawned for \<open>DoCommit\<close>
  (tx-server/src/coordinator/mod.rs). A task is a state machine that makes one pass of a shard
  operation per step, so that between its steps any other task of the server may have run. A
  pass that is suspended leaves the task where it is, asleep on the notification it awaits.
  Within a pass the model does not interleave tasks.
\<close>

type_synonym AtomicShard = "(AccountId, Amount) Shard"

section \<open>Shard passes of the deployed type\<close>

definition read_pass :: "TransactionId \<Rightarrow> AccountId \<Rightarrow> AtomicShard \<Rightarrow>
    (Amount, Abort) result pass \<times> AtomicShard" where
  "read_pass tid k sh = shard_read_pass tid k sh"

definition write_pass :: "TransactionId \<Rightarrow> AccountId \<Rightarrow> Amount \<Rightarrow> AtomicShard \<Rightarrow>
    (unit, Abort) result pass \<times> AtomicShard" where
  "write_pass tid k v sh = shard_write_pass check_amount 0 tid k v sh"

definition check_commit_pass :: "(AccountId \<times> addr) list \<Rightarrow> TransactionId \<Rightarrow> AtomicShard \<Rightarrow>
    ((unit, Abort) result pass \<times> AtomicShard) option" where
  "check_commit_pass es tid sh = shard_check_commit_pass check_amount es tid sh"

definition commit_pass :: "(AccountId \<times> addr) list \<Rightarrow> TransactionId \<Rightarrow> AtomicShard \<Rightarrow>
    (((AccountId \<times> Amount) list CommitSuccess, Abort) result pass \<times> AtomicShard) option" where
  "commit_pass es tid sh = shard_commit_pass check_amount es tid sh"

section \<open>A balance change: read, then write\<close>

text \<open>
  The nested match of \<open>WriteBalance\<close>, which the client handler repeats for its own shard: the
  amount to write after the read (or the response when the read ends the request), and the
  response after the write.
\<close>

fun after_read :: "Amount \<Rightarrow> (Amount, Abort) result \<Rightarrow> Amount + ClientResponse" where
  "after_read d (Ok balance) = Inl (balance + d)"
| "after_read d (Err ObjectNotFound) = Inl d"
| "after_read d (Err _) = Inr Aborted"

fun after_write :: "(unit, Abort) result \<Rightarrow> ClientResponse" where
  "after_write (Ok _) = OkResponse"
| "after_write (Err ObjectNotFound) = ClientResponse.AbortedNotFound"
| "after_write (Err _) = Aborted"

text \<open>The response to a balance request.\<close>

fun after_balance :: "AccountId \<Rightarrow> (Amount, Abort) result \<Rightarrow> ClientResponse" where
  "after_balance k (Ok v) = Value k v"
| "after_balance k (Err ObjectNotFound) = ClientResponse.AbortedNotFound"
| "after_balance k (Err _) = Aborted"

section \<open>Printing a commit\<close>

fun format_entries :: "(AccountId \<times> Amount) list \<Rightarrow> string" where
  "format_entries [] = []"
| "format_entries ((k, v) # rs) =
     (if v \<noteq> 0 then k @ '' = '' @ show_amount v @ '' '' else []) @ format_entries rs"

definition format_commit_result :: "(AccountId \<times> Amount) list CommitSuccess \<Rightarrow> string option" where
  "format_commit_result r =
     (let output = format_entries (sort_key fst (success_value r))
      in if output = [] then None else Some output)"

section \<open>The spawned tasks\<close>

datatype shard_task =
    RemoteWriteRead AccountId BalanceDiff
  | RemoteWriteWrite AccountId Amount
  | RemoteRead AccountId
  | RemoteCheck
  | RemoteAbort
  | RemoteCommit
  | TaskSend Forwarded
  | TaskPrint "string option"
  | TaskPanic

fun remote_task :: "ClientRequest \<Rightarrow> shard_task" where
  "remote_task (WriteBalance k d) = RemoteWriteRead k d"
| "remote_task (ReadBalance k) = RemoteRead k"
| "remote_task Commit = RemoteCheck"
| "remote_task ClientRequest.Abort = RemoteAbort"

text \<open>
  One step of a task: the next pass of the shard operation it is in. The second component of the
  result is the notification the task is suspended on, if the pass ended that way. \<open>TaskSend\<close>,
  \<open>TaskPrint\<close> and \<open>TaskPanic\<close> are final: the message it sends back, the line it prints, a panic.
\<close>

fun task_step :: "(AccountId \<times> addr) list \<Rightarrow> TransactionId \<Rightarrow> shard_task \<Rightarrow> AtomicShard \<Rightarrow>
    shard_task \<times> notify option \<times> AtomicShard" where
  "task_step es tx (RemoteWriteRead k d) sh =
     (case read_pass tx k sh of
        (Suspended n, sh') \<Rightarrow> (RemoteWriteRead k d, Some n, sh')
      | (Return r, sh') \<Rightarrow>
          (case after_read (diff_amount d) r of
             Inl v \<Rightarrow> (RemoteWriteWrite k v, None, sh')
           | Inr resp \<Rightarrow> (TaskSend (Response tx resp), None, sh')))"
| "task_step es tx (RemoteWriteWrite k v) sh =
     (case write_pass tx k v sh of
        (Suspended n, sh') \<Rightarrow> (RemoteWriteWrite k v, Some n, sh')
      | (Return r, sh') \<Rightarrow> (TaskSend (Response tx (after_write r)), None, sh'))"
| "task_step es tx (RemoteRead k) sh =
     (case read_pass tx k sh of
        (Suspended n, sh') \<Rightarrow> (RemoteRead k, Some n, sh')
      | (Return r, sh') \<Rightarrow> (TaskSend (Response tx (after_balance k r)), None, sh'))"
| "task_step es tx RemoteCheck sh =
     (case check_commit_pass es tx sh of
        None \<Rightarrow> (TaskPanic, None, sh)
      | Some (Suspended n, sh') \<Rightarrow> (RemoteCheck, Some n, sh')
      | Some (Return (Ok _), sh') \<Rightarrow> (TaskSend (TwoPhaseCommitStatus tx ReadyToCommit), None, sh')
      | Some (Return (Err _), sh') \<Rightarrow> (TaskSend (TwoPhaseCommitStatus tx CannotCommit), None, sh'))"
| "task_step es tx RemoteAbort sh = (TaskSend (Response tx Aborted), None, shard_abort es tx sh)"
| "task_step es tx RemoteCommit sh =
     (case commit_pass es tx sh of
        None \<Rightarrow> (TaskPanic, None, sh)
      | Some (Suspended n, sh') \<Rightarrow> (RemoteCommit, Some n, sh')
      | Some (Return (Ok r), sh') \<Rightarrow> (TaskPrint (format_commit_result r), None, sh')
      | Some (Return (Err _), sh') \<Rightarrow> (TaskPrint None, None, sh'))"
| "task_step es tx t sh = (t, None, sh)"

lemmas pass_defs = read_pass_def write_pass_def check_commit_pass_def commit_pass_def

section \<open>Tasks and the invariant of the shard\<close>

text \<open>Every pass keeps the invariant of the shard.\<close>

lemma service_pass_inv:
  assumes "shard_inv check_amount sh" and "enumerates es sh"
  shows "read_pass tx k sh = (p, sh') \<Longrightarrow> shard_inv check_amount sh'"
    and "write_pass tx k v sh = (q, sh') \<Longrightarrow> shard_inv check_amount sh'"
    and "check_commit_pass es tx sh = Some (q, sh') \<Longrightarrow> shard_inv check_amount sh'"
    and "commit_pass es tx sh = Some (r, sh') \<Longrightarrow> shard_inv check_amount sh'"
    and "shard_inv check_amount (shard_abort es tx sh)"
proof -
  show "shard_inv check_amount sh'" if "read_pass tx k sh = (p, sh')"
    using shard_read_pass_inv[OF assms(1), of tx k] that by (simp add: read_pass_def)
  show "shard_inv check_amount sh'" if "write_pass tx k v sh = (q, sh')"
    using shard_write_pass_inv[OF assms(1) check_amount_zero, of tx k v] that by (simp add: write_pass_def)
  show "shard_inv check_amount sh'" if "check_commit_pass es tx sh = Some (q, sh')"
    using shard_step_inv[OF check_amount_zero shard_step.step_check[OF assms(2)] assms(1)] that
    by (simp add: check_commit_pass_def)
  show "shard_inv check_amount sh'" if "commit_pass es tx sh = Some (r, sh')"
    using shard_step_inv[OF check_amount_zero shard_step.step_commit[OF assms(2)] assms(1)] that
    by (simp add: commit_pass_def)
  show "shard_inv check_amount (shard_abort es tx sh)" using shard_abort_inv[OF assms] .
qed

text \<open>A step of a task makes at most one pass, and asleep it has an older transaction to wait for.\<close>

lemma task_step_pass:
  assumes "enumerates es sh" and "task_step es tx t sh = (t', w, sh')"
  shows "sh' = sh \<or> shard_step check_amount 0 tx sh sh'"
  using assms by (cases t) (auto simp: pass_defs intro: shard_step.intros
      split: pass.splits prod.splits sum.splits option.splits result.splits)

lemma task_step_inv:
  assumes "shard_inv check_amount sh" and "enumerates es sh" and "task_step es tx t sh = (t', w, sh')"
  shows "shard_inv check_amount sh'"
  using task_step_pass[OF assms(2,3)] shard_step_inv[OF check_amount_zero _ assms(1)] assms(1) by auto

lemma task_step_asleep:
  assumes "shard_inv check_amount sh" and "enumerates es sh" and "task_step es tx t sh = (t', Some n, sh')"
  shows "t' = t \<and> waits tx n sh'"
  using assms(2,3) suspended_waits[OF assms(1)] check_amount_zero
  by (cases t) (auto simp: pass_defs split: pass.splits prod.splits sum.splits option.splits result.splits)

lemma check_commit_pass_total: "check_commit_pass es tx sh \<noteq> None"
  by (auto simp: check_commit_pass_def shard_check_commit_pass_def Let_def
      dest: sym[THEN notE[OF object_check_total]])

lemma commit_pass_total:
  assumes "shard_inv check_amount sh" and "enumerates es sh"
  shows "commit_pass es tx sh \<noteq> None"
proof -
  obtain rs sh' where "commit_cells check_amount es tx sh = Some (rs, sh')"
    by (rule commit_cells_some[OF assms])
  then show ?thesis by (simp add: commit_pass_def shard_commit_pass_def)
qed

lemma task_step_no_panic:
  assumes "shard_inv check_amount sh" and "enumerates es sh" and "t \<noteq> TaskPanic"
  shows "fst (task_step es tx t sh) \<noteq> TaskPanic"
  using assms(3) check_commit_pass_total[of es tx sh] commit_pass_total[OF assms(1,2), of tx]
  by (cases t) (auto split: pass.split prod.split sum.split option.split result.split)

section \<open>Balance changes\<close>

definition balance_or_zero :: "TransactionId \<Rightarrow> AccountId \<Rightarrow> (AccountId, Amount) store \<Rightarrow> Amount" where
  "balance_or_zero tx k st = (case store_read tx k st of Some b \<Rightarrow> b | None \<Rightarrow> 0)"

text \<open>The answer to a balance change, from the account as it is before.\<close>

definition change_outcome :: "TransactionId \<Rightarrow> AccountId \<Rightarrow> Amount \<Rightarrow> AtomicShard \<Rightarrow> ClientResponse" where
  "change_outcome tx k a sh =
     (case object_map sh k of
        None \<Rightarrow> if sint a < 0 then ClientResponse.AbortedNotFound else OkResponse
      | Some ob \<Rightarrow>
          if committed_timestamp ob < tx \<and> (\<forall>r \<in> btree_keys (read_timestamps ob). r \<le> tx) \<and>
            (tx \<in> btree_keys (tentative_writes ob) \<or> \<not> is_default (committed_timestamp ob))
          then OkResponse else Aborted)"

lemma object_read_keys:
  "object_read tid ob = (Ok v, ob') \<Longrightarrow> committed_timestamp ob' = committed_timestamp ob \<and>
     btree_keys (read_timestamps ob') = insert tid (btree_keys (read_timestamps ob))"
  by (auto simp: object_read_def split: if_splits option.splits prod.splits)

text \<open>
  C23. A balance change that is not made to wait does exactly what it is for. It is acknowledged
  precisely when the account does not exist and the change is no withdrawal, or when the account
  has a balance the transaction may see (its own or a committed one) and neither a commit nor a
  read newer than the transaction forbids the write; then its pending balance is the balance
  it could see plus the change, a missing account counting as 0. Otherwise nothing changes, and
  the answer is \<open>AbortedNotFound\<close> precisely for a withdrawal from a missing account, \<open>Aborted\<close> in
  every other case, whether the read or the write refused.
\<close>

theorem balance_change_effect:
  assumes "shard_inv check_amount sh" and "default_id (shard_id sh) < tx"
    and "task_step es tx (RemoteWriteRead k d) sh = (t, None, sh1)"
    and "task_step es' tx t sh1 = (TaskSend (Response tx resp), None, sh2)"
  shows "resp = change_outcome tx k (diff_amount d) sh \<and>
    store_of sh2 = (if resp = OkResponse
      then store_write tx k (balance_or_zero tx k (store_of sh) + diff_amount d) (store_of sh) else store_of sh)"
proof -
  from assms(3) obtain r where r: "shard_read_pass tx k sh = (Return r, sh1)"
    and t: "t = (case after_read (diff_amount d) r of Inl v \<Rightarrow> RemoteWriteWrite k v
      | Inr q \<Rightarrow> TaskSend (Response tx q))"
    by (auto simp: read_pass_def split: prod.splits pass.splits sum.splits)
  note rd = shard_read_store[OF assms(1) r]
  have inv1: "shard_inv check_amount sh1" using shard_read_pass_inv[OF assms(1), of tx k] r by simp
  have id1: "shard_id sh1 = shard_id sh"
    using r by (auto simp: shard_read_pass_def suspend_def set_cell_def get_notification_def Let_def
        split: option.splits prod.splits result.splits RWFailure.splits)
  have wrt: "\<exists>p. shard_write_pass check_amount 0 tx k v sh1 = (Return p, sh2) \<and> resp = after_write p"
    if "t = RemoteWriteWrite k v" for v
    using assms(4) that by (auto simp: write_pass_def split: prod.splits pass.splits)
  note wr = shard_write_store[OF inv1 check_amount_zero refl, unfolded id1, OF assms(2)]
  show ?thesis
  proof (cases "object_map sh k")
    case None
    with r shard_read_pass_missing[of sh k tx] have "sh1 = sh" "r = Err ObjectNotFound" by auto
    moreover from this t wrt obtain p where p: "shard_write_pass check_amount 0 tx k (diff_amount d) sh1 = (Return p, sh2)"
      "resp = after_write p" by auto
    moreover from None have "balance_or_zero tx k (store_of sh) = 0"
      by (simp add: balance_or_zero_def store_read_def store_sel)
    ultimately show ?thesis
      using wr[OF p(1)] None by (auto simp: change_outcome_def check_amount_def split: if_splits)
  next
    case (Some ob)
    note inv = object_map_inv[OF assms(1) Some]
    obtain q ob' where q: "object_read tx ob = (q, ob')" by (cases "object_read tx ob")
    note pr = shard_read_pass_present[OF assms(1) Some q r]
    show ?thesis
    proof (cases "\<exists>b. r = Ok b")
      case True
      then obtain b where b: "r = Ok b" ..
      with pr(2) have qb: "q = Ok b" by (auto split: result.splits RWFailure.splits)
      have vis: "committed_timestamp ob < tx \<and>
          (tx \<in> btree_keys (tentative_writes ob) \<or> \<not> is_default (committed_timestamp ob))"
        using q qb by (rule_tac object_read_cases[OF inv, of tx]) (auto simp: btree_get_None_iff[symmetric])
      have keys: "committed_timestamp ob' = committed_timestamp ob"
        "btree_keys (read_timestamps ob') = insert tx (btree_keys (read_timestamps ob))"
        using object_read_keys[of tx ob b ob'] q qb by auto
      from b t wrt obtain p where p: "shard_write_pass check_amount 0 tx k (b + diff_amount d) sh1 = (Return p, sh2)"
        "resp = after_write p" by auto
      from rd b have "balance_or_zero tx k (store_of sh) = b" "store_of sh1 = store_of sh" by (auto simp: balance_or_zero_def)
      moreover have "object_map sh1 k = Some ob'" using pr(1) by simp
      ultimately show ?thesis
        using wr[OF p(1)] p(2) vis keys Some by (auto simp: change_outcome_def not_le)
    next
      case False
      with pr(2) have e: "r = Err OrderViolation \<or> r = Err ObjectNotFoundSpecialCase"
        by (auto split: result.splits RWFailure.splits)
      then have "resp = Aborted" "sh2 = sh1" using t assms(4) by auto
      moreover have "change_outcome tx k (diff_amount d) sh = Aborted"
      proof -
        have "\<nexists>v. q = Ok v" using pr(2) False by (auto split: result.splits)
        moreover have "\<nexists>u. q = Err (RWFailure.WaitFor u)" using pr(2) by auto
        ultimately show ?thesis
          using Some q by (rule_tac object_read_cases[OF inv, of tx]) (auto simp: change_outcome_def)
      qed
      ultimately show ?thesis using rd by simp
    qed
  qed
qed

theorem balance_change_effect_witness:
  "store_of (snd (snd (task_step [] (tx_at 5) (RemoteWriteWrite ''A.x'' 27) demo_shard))) =
     store_write (tx_at 5) ''A.x'' 27 (store_of demo_shard)"
proof -
  have rd: "task_step [] (tx_at 5) (RemoteWriteRead ''A.x'' (BalanceDiff 7)) demo_shard =
      (RemoteWriteWrite ''A.x'' 27, None, demo_shard)"
    using demo_passes(1) by (simp add: read_pass_def)
  obtain t w sh2 where wr: "task_step [] (tx_at 5) (RemoteWriteWrite ''A.x'' 27) demo_shard = (t, w, sh2)"
    by (cases "task_step [] (tx_at 5) (RemoteWriteWrite ''A.x'' 27) demo_shard") auto
  then have t: "t = TaskSend (Response (tx_at 5) OkResponse)" "w = None"
    by (simp_all add: write_pass_def demo_shard_def shard_eval)
  have "default_id (shard_id demo_shard) < tx_at 5" by (simp add: demo_shard_def default_id_def)
  from balance_change_effect[OF demo_facts(1) this rd wr[unfolded t]]
  have "store_of sh2 = store_write (tx_at 5) ''A.x'' 27 (store_of demo_shard)"
    using demo_passes(1) shard_read_store[OF demo_facts(1) demo_passes(1)]
    by (auto simp: balance_or_zero_def)
  with wr show ?thesis by simp
qed

section \<open>Amounts wrap around\<close>

lemma sint_add_wrap:
  fixes b d :: Amount
  shows "sint (b + d) = (if sint b + sint d < - (2 ^ 63) then sint b + sint d + 2 ^ 64
     else if 2 ^ 63 \<le> sint b + sint d then sint b + sint d - 2 ^ 64 else sint b + sint d)"
proof -
  have "- (2 ^ 63) \<le> sint b" "sint b < 2 ^ 63" "- (2 ^ 63) \<le> sint d" "sint d < 2 ^ 63"
    using sint_greater_eq[of b] sint_lt[of b] sint_greater_eq[of d] sint_lt[of d] by simp_all
  note bounds = this
  define x where "x = sint b + sint d"
  have "sint (b + d) = (x + 2 ^ 63) mod 2 ^ 64 - 2 ^ 63"
    by (simp add: sint_word_ariths signed_take_bit_eq_take_bit_shift take_bit_eq_mod x_def)
  moreover have "(x + 2 ^ 63) mod 2 ^ 64 = (if x < - (2 ^ 63) then x + 2 ^ 63 + 2 ^ 64
      else if 2 ^ 63 \<le> x then x + 2 ^ 63 - 2 ^ 64 else x + 2 ^ 63)"
    using bounds mod_add_self2[of "x + 2 ^ 63" "2 ^ 64"] minus_mod_self2[of "x + 2 ^ 63" "2 ^ 64"]
      mod_pos_pos_trivial[of "x + 2 ^ 63" "2 ^ 64"] mod_pos_pos_trivial[of "x + 2 ^ 63 + 2 ^ 64" "2 ^ 64"]
      mod_pos_pos_trivial[of "x + 2 ^ 63 - 2 ^ 64" "2 ^ 64"]
    by (auto simp: x_def)
  ultimately show ?thesis by (simp add: x_def)
qed

text \<open>
  C28. Amounts wrap around. A balance change of an account whose balance the transaction can see
  computes the sum modulo 2^64: the amount it goes on to write is the exact sum only if that fits
  into 64 bits. The consistency check accepts that amount precisely when the exact sum is
  a balance that fits, or when it is below the smallest 64-bit integer: an overdraft by enough is
  accepted as a large balance, and a deposit past the largest one is refused as negative.
\<close>

theorem overdraft_wraps:
  assumes "read_pass tx k sh = (Return (Ok b), sh1)"
  shows "\<exists>v. task_step es tx (RemoteWriteRead k d) sh = (RemoteWriteWrite k v, None, sh1) \<and>
    (sint v = sint b + sint (diff_amount d) \<longleftrightarrow>
       - (2 ^ 63) \<le> sint b + sint (diff_amount d) \<and> sint b + sint (diff_amount d) < 2 ^ 63) \<and>
    (check_amount v = Ok () \<longleftrightarrow> 0 \<le> sint b + sint (diff_amount d) \<and> sint b + sint (diff_amount d) < 2 ^ 63 \<or>
       sint b + sint (diff_amount d) < - (2 ^ 63))"
proof (intro exI conjI)
  let ?v = "b + diff_amount d"
  show "task_step es tx (RemoteWriteRead k d) sh = (RemoteWriteWrite k ?v, None, sh1)" using assms by simp
  have "- (2 ^ 63) \<le> sint b" "sint b < 2 ^ 63" "- (2 ^ 63) \<le> sint (diff_amount d)" "sint (diff_amount d) < 2 ^ 63"
    using sint_greater_eq[of b] sint_lt[of b] sint_greater_eq[of "diff_amount d"] sint_lt[of "diff_amount d"] by simp_all
  then show "sint ?v = sint b + sint (diff_amount d) \<longleftrightarrow>
      - (2 ^ 63) \<le> sint b + sint (diff_amount d) \<and> sint b + sint (diff_amount d) < 2 ^ 63"
    and "check_amount ?v = Ok () \<longleftrightarrow> 0 \<le> sint b + sint (diff_amount d) \<and> sint b + sint (diff_amount d) < 2 ^ 63 \<or>
      sint b + sint (diff_amount d) < - (2 ^ 63)"
    by (auto simp: sint_add_wrap check_amount_def)
qed

text \<open>A transaction that has overdrawn to -10 withdraws 2^63 more and is past the check.\<close>

theorem overdraft_wraps_witness:
  "\<exists>v. fst (task_step [] (tx_at 5) (RemoteWriteRead ''A.x'' (BalanceDiff (- (2 ^ 63))))
       (snd (write_pass (tx_at 5) ''A.x'' (- 10) demo_shard))) = RemoteWriteWrite ''A.x'' v \<and> check_amount v = Ok ()"
proof -
  let ?sh = "snd (write_pass (tx_at 5) ''A.x'' (- 10) demo_shard)"
  have "read_pass (tx_at 5) ''A.x'' ?sh = (Return (Ok (- 10)), ?sh)"
    by (simp add: pass_defs demo_shard_def shard_eval)
  from overdraft_wraps[OF this, of "[]" "BalanceDiff (- (2 ^ 63))"] show ?thesis by auto
qed

section \<open>The report of a commit\<close>

lemma format_commit_result_cong:
  assumes "distinct (map fst (success_value r))" and "distinct (map fst (success_value r'))"
    and "map_of (success_value r) = map_of (success_value r')"
  shows "format_commit_result r = format_commit_result r'"
proof -
  have "mset (success_value r') = mset (success_value r)"
    using assms by (metis distinct_map map_of_inject_set set_eq_iff_mset_eq_distinct)
  then have "mset (sort_key fst (success_value r')) = mset (success_value r)" by simp
  moreover have "inj_on fst (set (success_value r))" using assms(1) by (simp add: distinct_map)
  ultimately have "sort_key fst (success_value r) = sort_key fst (success_value r')"
    by (intro sort_key_inj_key_eq) (auto simp: sorted_sort_key)
  then show ?thesis by (simp add: format_commit_result_def)
qed

lemma commit_success:
  assumes "shard_inv chk sh" and "enumerates es sh"
    and "shard_commit_pass chk es tid sh = Some (Return (Ok r), sh')"
  shows "map fst (success_value r) = map fst es" and "prepared chk tid sh"
    and "object_map sh' k = map_option (commit_obj chk tid) (object_map sh k)"
proof -
  obtain rs sh1 where c: "commit_cells chk es tid sh = Some (rs, sh1)"
    by (rule commit_cells_some[OF assms(1,2)])
  note m = object_map_commit[OF assms(1,2) c]
  from assms(3) c obtain vs where fin: "scan_commits rs = ScanDone vs"
    and sh': "sh' = notify_and_remove tid sh1"
    and r: "success_value r = map (\<lambda>(k, cr). (k, success_value cr)) vs"
    by (auto simp: shard_commit_pass_def Let_def suspend_def split: scan.splits prod.splits if_splits)
  have rs: "rs = map (\<lambda>(k, v). (k, Ok v)) vs" using fin by (rule scan_commits_done)
  with m(3) show "map fst (success_value r) = map fst es" by (simp add: r comp_def case_prod_beta)
  show "object_map sh' k = map_option (commit_obj chk tid) (object_map sh k)" using m(1) by (simp add: sh')
  have "result_is_ok (commit_res chk tid ob)" if "object_map sh k = Some ob" for k ob
    using m(2)[of k] that by (auto simp: rs map_of_map result_is_ok_iff dest: sym)
  then show "prepared chk tid sh"
    by (auto simp: prepared_def object_commit_ok_iff object_check_ok_iff)
qed



section \<open>Races on an account that does not exist\<close>

text \<open>
  A newer and an older transaction have both looked up a missing account, which leaves no trace,
  and now both write it, the newer one first.
\<close>

lemma create_twice:
  assumes "shard_inv check_amount sh" and "object_map sh k = None" and "t1 < t2" and "\<not> is_default t1"
    and "0 \<le> sint a1" and "0 \<le> sint a2"
    and "write_pass t2 k a2 sh = (p2, sh1)" and "write_pass t1 k a1 sh1 = (p1, sh2)"
  shows "p2 = Return (Ok ())" and "p1 = Return (Ok ())" and "shard_inv check_amount sh1" and "shard_inv check_amount sh2"
    and "object_map sh1 = (object_map sh)(k \<mapsto> (object_default 0 (shard_id sh))\<lparr>tentative_writes :=
      [(t2, TentativeWrite_new a2)]\<rparr>)"
    and "object_map sh2 = (object_map sh)(k \<mapsto> (object_default 0 (shard_id sh))\<lparr>tentative_writes :=
      [(t1, TentativeWrite_new a1), (t2, TentativeWrite_new a2)]\<rparr>)"
proof -
  let ?n = "shard_id sh"
  let ?ob0 = "object_default (0 :: Amount) ?n"
  let ?ob1 = "?ob0\<lparr>tentative_writes := [(t2, TentativeWrite_new a2)]\<rparr>"
  have nd: "default_id ?n < t1" "default_id ?n < t2" using assms(3,4) default_id_less not_default_mono by blast+
  note w2 = assms(7)[unfolded write_pass_def] and w1 = assms(8)[unfolded write_pass_def]
  have o2: "object_write t2 a2 ?ob0 = (Ok (), ?ob1)"
    using nd by (simp add: object_write_def object_default_def btree_last_key_def btree_next_back_def)
  note p2 = shard_write_pass_present[OF assms(1) check_amount_zero _ _ o2 w2]
  show "p2 = Return (Ok ())" and m1: "object_map sh1 = (object_map sh)(k \<mapsto> ?ob1)"
    using p2 assms(2,6) by (auto simp: check_amount_def)
  show inv1: "shard_inv check_amount sh1"
    using shard_write_pass_inv[OF assms(1) check_amount_zero, of t2 k a2] w2 by simp
  have o1: "object_write t1 a1 ?ob1 = (Ok (), ?ob1\<lparr>tentative_writes :=
      [(t1, TentativeWrite_new a1), (t2, TentativeWrite_new a2)]\<rparr>)"
    using assms(3) nd by (auto simp: object_write_def object_default_def btree_last_key_def btree_next_back_def)
  note p1 = shard_write_pass_present[OF inv1 check_amount_zero _ _ o1 w1]
  show "p1 = Return (Ok ())" and "object_map sh2 = (object_map sh)(k \<mapsto> ?ob0\<lparr>tentative_writes :=
      [(t1, TentativeWrite_new a1), (t2, TentativeWrite_new a2)]\<rparr>)"
    using p1 m1 by auto
  show "shard_inv check_amount sh2"
    using shard_write_pass_inv[OF inv1 check_amount_zero, of t1 k a1] w1 by simp
qed

lemma prepared_single:
  assumes "object_map sh k = Some ob" and "\<And>k'. k' \<noteq> k \<Longrightarrow> pending (store_of sh) t k' = None"
    and "tentative_writes ob = (t, TentativeWrite_new a) # ws" and "0 \<le> sint a"
  shows "prepared check_amount t sh"
  unfolding prepared_def
proof (intro allI impI)
  fix k' ob' tw
  assume m: "object_map sh k' = Some ob'" and g: "btree_get (tentative_writes ob') t = Some tw"
  have "t \<in> btree_keys (tentative_writes ob')" using g by (metis btree_get_None_iff option.distinct(1))
  with m have "pending (store_of sh) t k' \<noteq> None" unfolding pending_iff by blast
  with assms(2)[of k'] have "k' = k" by (cases "k' = k") simp_all
  with m assms(1) have "ob' = ob" by simp
  with g assms(3,4) show "btree_first_key (tentative_writes ob') = Some t \<and> check_amount (tw_value tw) = Ok ()"
    by (auto simp: btree_get_def check_amount_def TentativeWrite_new_def)
qed

lemma create_twice_pending:
  assumes "object_map sh' = (object_map sh)(k \<mapsto> ob)" and "pending (store_of sh) t = Map.empty" and "k' \<noteq> k"
  shows "pending (store_of sh') t k' = None"
  using fun_cong[OF assms(2), of k'] assms(1,3) by (simp add: store_sel)

text \<open>The two lookups of the missing account, and the amounts they lead to.\<close>

lemma lookups_leave_nothing:
  assumes "object_map sh k = None"
    and "task_step es1 t1 (RemoteWriteRead k (BalanceDiff a1)) sh = (w1, x1, sh1)"
    and "task_step es2 t2 (RemoteWriteRead k (BalanceDiff a2)) sh1 = (w2, x2, sh2)"
    and "task_step es3 t2 w2 sh2 = (r2, x3, sh3)"
  obtains p where "sh1 = sh" and "sh2 = sh" and "w1 = RemoteWriteWrite k a1" and "write_pass t2 k a2 sh = (p, sh3)"
    and "\<forall>q. p = Return q \<longrightarrow> r2 = TaskSend (Response t2 (after_write q))"
proof -
  have "read_pass t k sh = (Return (Err ObjectNotFound), sh)" for t
    using shard_read_pass_missing[OF assms(1), of t] by (simp add: read_pass_def)
  with assms(2-4) that show thesis
    by (cases "write_pass t2 k a2 sh") (auto split: pass.splits)
qed

lemma write_step:
  assumes "task_step es t (RemoteWriteWrite k a) sh = (r, x, sh')"
  obtains p where "write_pass t k a sh = (p, sh')" and "\<forall>q. p = Return q \<longrightarrow> r = TaskSend (Response t (after_write q))"
  using assms by (cases "write_pass t k a sh") (auto split: pass.splits)

text \<open>
  C26. An update can be lost. An older and a newer transaction deposit to an account that does not
  exist; both look it up before either has written, the newer one writes first. Whatever the
  shard, the account and the amounts, both deposits are acknowledged, both transactions pass the
  check, both commits succeed, and the committed balance is the newer deposit alone: the
  lookups of a missing account leave no trace for the write rule to see.
\<close>

theorem lost_update:
  assumes "shard_inv check_amount sh" and "object_map sh k = None" and "t1 < t2" and "\<not> is_default t1"
    and "0 \<le> sint a1" and "0 \<le> sint a2"
    and "pending (store_of sh) t1 = Map.empty" and "pending (store_of sh) t2 = Map.empty"
    and "task_step es1 t1 (RemoteWriteRead k (BalanceDiff a1)) sh = (w1, x1, sh1)"
    and "task_step es2 t2 (RemoteWriteRead k (BalanceDiff a2)) sh1 = (w2, x2, sh2)"
    and "task_step es3 t2 w2 sh2 = (r2, x3, sh3)" and "task_step es4 t1 w1 sh3 = (r1, x4, sh4)"
    and "enumerates es5 sh4" and "commit_pass es5 t1 sh4 = Some (q1, sh5)"
    and "enumerates es6 sh5" and "commit_pass es6 t2 sh5 = Some (q2, sh6)"
  shows "r1 = TaskSend (Response t1 OkResponse) \<and> r2 = TaskSend (Response t2 OkResponse) \<and>
    check_commit_pass es5 t1 sh4 = Some (Return (Ok ()), sh4) \<and> (\<exists>c. q1 = Return (Ok c)) \<and>
    check_commit_pass es6 t2 sh5 = Some (Return (Ok ()), sh5) \<and> (\<exists>c. q2 = Return (Ok c)) \<and>
    committed (store_of sh5) k = Some a1 \<and> committed (store_of sh6) k = Some a2"
proof -
  obtain p2 where w1: "w1 = RemoteWriteWrite k a1" and p2: "write_pass t2 k a2 sh = (p2, sh3)"
    "\<forall>q. p2 = Return q \<longrightarrow> r2 = TaskSend (Response t2 (after_write q))"
    by (rule lookups_leave_nothing[OF assms(2,9-11)])
  obtain p1 where p1: "write_pass t1 k a1 sh3 = (p1, sh4)" "\<forall>q. p1 = Return q \<longrightarrow> r1 = TaskSend (Response t1 (after_write q))"
    by (rule write_step[OF assms(12)[unfolded w1]])
  note tw = create_twice[OF assms(1-6) p2(1) p1(1)]
  have nd: "\<not> is_default t1" "\<not> is_default t2" using assms(3,4) not_default_mono by blast+
  have "prepared check_amount t1 sh4"
    by (rule prepared_single[OF _ create_twice_pending[OF tw(6) assms(7)]]) (use tw(6) assms(5) in auto)
  then have c1: "check_commit_pass es5 t1 sh4 = Some (Return (Ok ()), sh4)"
    by (simp add: check_commit_pass_def check_ok_iff_prepared[OF assms(13)])
  from prepared_commits[OF tw(4) assms(13) \<open>prepared check_amount t1 sh4\<close>] assms(14)
  obtain r where r: "shard_commit_pass check_amount es5 t1 sh4 = Some (Return (Ok r), sh5)" "q1 = Return (Ok r)"
    by (metis commit_pass_def option.inject prod.inject)
  have st5: "store_of sh5 = store_commit t1 (store_of sh4)" using shard_commit_store[OF tw(4) assms(13) nd(1) r(1)] by blast
  have inv5: "shard_inv check_amount sh5" using service_pass_inv(4)[OF tw(4) assms(13,14)] .
  have ob5: "object_map sh5 k = Some \<lparr>obj_value = a1, committed_timestamp = t1, read_timestamps = [],
      tentative_writes = [(t2, TentativeWrite_new a2)]\<rparr>"
    using commit_success(3)[OF tw(4) assms(13) r(1), of k] tw(6) assms(3,5)
    by (simp add: commit_obj_def object_commit_def object_check_commit_def btree_contains_key_def btree_get_def
        btree_remove_def check_amount_def TentativeWrite_new_def object_default_def)
  have "pending (store_of sh5) t2 k' = None" if "k' \<noteq> k" for k'
    using create_twice_pending[OF tw(6) assms(8) that] assms(3) by (simp add: st5 store_commit_def)
  then have "prepared check_amount t2 sh5" by (intro prepared_single[OF ob5]) (use assms(6) in auto)
  then have c2: "check_commit_pass es6 t2 sh5 = Some (Return (Ok ()), sh5)"
    by (simp add: check_commit_pass_def check_ok_iff_prepared[OF assms(15)])
  from prepared_commits[OF inv5 assms(15) \<open>prepared check_amount t2 sh5\<close>] assms(16)
  obtain r' where r': "shard_commit_pass check_amount es6 t2 sh5 = Some (Return (Ok r'), sh6)" "q2 = Return (Ok r')"
    by (metis commit_pass_def option.inject prod.inject)
  have "store_of sh6 = store_commit t2 (store_of sh5)" using shard_commit_store[OF inv5 assms(15) nd(2) r'(1)] by blast
  moreover have "committed (store_of sh5) k = Some a1" "pending (store_of sh5) t2 k = Some a2"
    using nd by (simp_all add: store_sel ob5 object_committed_value_def object_pending_value_def btree_get_def TentativeWrite_new_def)
  ultimately show ?thesis using c1 c2 r(2) r'(2) p1(2)[rule_format, OF tw(2)] p2(2)[rule_format, OF tw(1)]
    by (simp add: store_commit_def map_add_def)
qed

lemma scan_commits_single:
  assumes "(k, Err (CommitFailure.WaitFor t)) \<in> set rs"
    and "\<And>k' r. (k', r) \<in> set rs \<Longrightarrow> result_is_ok r \<or> r = Err (CommitFailure.WaitFor t)"
  shows "scan_commits rs = ScanWait t"
  using assms
proof (induction rs rule: scan_commits.induct)
  case (2 k' v rs)
  then have "scan_commits rs = ScanWait t" by auto
  then show ?case by simp
qed (auto simp: result_is_ok_iff)

lemma commit_blocked:
  assumes "shard_inv chk sh" and "enumerates es sh" and "object_map sh k = Some ob"
    and "commit_res chk tid ob = Err (CommitFailure.WaitFor t)"
    and "\<And>k'. k' \<noteq> k \<Longrightarrow> pending (store_of sh) tid k' = None"
  shows "\<exists>n sh'. shard_commit_pass chk es tid sh = Some (Suspended n, sh') \<and> notifications sh' t = Some n"
proof -
  obtain rs sh1 where c: "commit_cells chk es tid sh = Some (rs, sh1)"
    by (rule commit_cells_some[OF assms(1,2)])
  note m = object_map_commit[OF assms(1,2) c]
  have d: "distinct (map fst rs)" using m(3) assms(2) by (simp add: enumerates_def)
  have "map_of rs k = Some (Err (CommitFailure.WaitFor t))" using m(2)[of k] assms(3,4) by simp
  moreover have "result_is_ok r \<or> r = Err (CommitFailure.WaitFor t)" if "(k', r) \<in> set rs" for k' r
  proof -
    have "map_of rs k' = Some r" using that d by (simp add: map_of_is_SomeI)
    with m(2)[of k'] obtain ob' where ob': "object_map sh k' = Some ob'" "r = commit_res chk tid ob'"
      by (cases "object_map sh k'") auto
    show ?thesis
    proof (cases "k' = k")
      case True
      with ob' assms(3,4) show ?thesis by simp
    next
      case False
      have "tid \<notin> btree_keys (tentative_writes ob')" using assms(5)[OF False] ob'(1) pending_iff[of sh tid k'] by auto
      then have "btree_get (tentative_writes ob') tid = None" by (simp add: btree_get_None_iff)
      with ob'(2) show ?thesis by (simp add: object_commit_ok_iff object_check_ok_iff)
    qed
  qed
  ultimately have "scan_commits rs = ScanWait t" by (intro scan_commits_single) (auto dest: map_of_SomeD)
  with c have s: "shard_commit_pass chk es tid sh = Some (suspend t sh1)" by (simp add: shard_commit_pass_def)
  obtain n sh' where g: "get_notification t sh1 = (n, sh')" by (cases "get_notification t sh1")
  then have "notifications sh' t = Some n" by (auto simp: get_notification_def split: option.splits)
  with s g show ?thesis by (simp add: suspend_def)
qed

text \<open>
  C27. The promise of a participant can fail to hold for an account it has created. The newer of
  two transactions that have both looked up a missing account writes it and passes the check;
  then the older one writes it too and is acknowledged. When the newer transaction is told to
  commit, it is suspended on the older one, behind a comment that says it can never be there,
  although its coordinator has announced the commit.
\<close>

theorem check_promise_broken:
  assumes "shard_inv check_amount sh" and "object_map sh k = None" and "t1 < t2" and "\<not> is_default t1"
    and "0 \<le> sint a1" and "0 \<le> sint a2" and "pending (store_of sh) t2 = Map.empty"
    and "task_step es1 t1 (RemoteWriteRead k (BalanceDiff a1)) sh = (w1, x1, sh1)"
    and "task_step es2 t2 (RemoteWriteRead k (BalanceDiff a2)) sh1 = (w2, x2, sh2)"
    and "task_step es3 t2 w2 sh2 = (r2, x3, sh3)" and "enumerates es4 sh3"
    and "task_step es5 t1 w1 sh3 = (r1, x4, sh4)" and "enumerates es6 sh4"
  shows "task_step es4 t2 RemoteCheck sh3 = (TaskSend (TwoPhaseCommitStatus t2 ReadyToCommit), None, sh3) \<and>
    r1 = TaskSend (Response t1 OkResponse) \<and>
    (\<exists>n sh5. task_step es6 t2 RemoteCommit sh4 = (RemoteCommit, Some n, sh5) \<and> notifications sh5 t1 = Some n)"
proof -
  obtain p2 where w1: "w1 = RemoteWriteWrite k a1" and p2: "write_pass t2 k a2 sh = (p2, sh3)"
    by (rule lookups_leave_nothing[OF assms(2,8-10)])
  obtain p1 where p1: "write_pass t1 k a1 sh3 = (p1, sh4)" "\<forall>q. p1 = Return q \<longrightarrow> r1 = TaskSend (Response t1 (after_write q))"
    by (rule write_step[OF assms(12)[unfolded w1]])
  note tw = create_twice[OF assms(1-6) p2 p1(1)]
  have "prepared check_amount t2 sh3"
    by (rule prepared_single[OF _ create_twice_pending[OF tw(5) assms(7)]]) (use tw(5) assms(6) in auto)
  then have "check_commit_pass es4 t2 sh3 = Some (Return (Ok ()), sh3)"
    by (simp add: check_commit_pass_def check_ok_iff_prepared[OF assms(11)])
  moreover have "commit_res check_amount t2 ((object_default 0 (shard_id sh))\<lparr>tentative_writes :=
      [(t1, TentativeWrite_new a1), (t2, TentativeWrite_new a2)]\<rparr>) = Err (CommitFailure.WaitFor t1)"
    using assms(3) by (auto simp: commit_res_def object_commit_def object_check_commit_def btree_contains_key_def
        btree_get_def object_default_def)
  from commit_blocked[OF tw(4) assms(13) _ this create_twice_pending[OF tw(6) assms(7)], of k]
  have "\<exists>n sh5. commit_pass es6 t2 sh4 = Some (Suspended n, sh5) \<and> notifications sh5 t1 = Some n"
    using tw(6) by (simp add: commit_pass_def)
  ultimately show ?thesis using p1(2)[rule_format, OF tw(2)] by auto
qed

text \<open>The race on a new shard, with deposits of 10 and 5.\<close>

definition race_shard :: "nat \<Rightarrow> AtomicShard" where
  "race_shard i =
     (let sh0 = shard_new CHR ''A'';
          sh1 = snd (write_pass (tx_at 2) ''A.x'' 5 sh0);
          sh2 = snd (write_pass (tx_at 1) ''A.x'' 10 sh1);
          sh3 = snd (the (commit_pass demo_entries (tx_at 1) sh2))
      in [sh0, sh1, sh2, sh3] ! i)"

lemma race_facts:
  shows "object_map (shard_new CHR ''A'' :: AtomicShard) ''A.x'' = None"
    and "pending (store_of (shard_new CHR ''A'' :: AtomicShard)) t = Map.empty"
    and "task_step [] (tx_at 1) (RemoteWriteRead ''A.x'' (BalanceDiff 10)) (shard_new CHR ''A'') =
      (RemoteWriteWrite ''A.x'' 10, None, shard_new CHR ''A'')"
    and "task_step [] (tx_at 2) (RemoteWriteRead ''A.x'' (BalanceDiff 5)) (shard_new CHR ''A'') =
      (RemoteWriteWrite ''A.x'' 5, None, shard_new CHR ''A'')"
    and "task_step [] (tx_at 2) (RemoteWriteWrite ''A.x'' 5) (shard_new CHR ''A'') =
      (TaskSend (Response (tx_at 2) OkResponse), None, race_shard 1)"
    and "task_step [] (tx_at 1) (RemoteWriteWrite ''A.x'' 10) (race_shard 1) =
      (TaskSend (Response (tx_at 1) OkResponse), None, race_shard 2)"
    and "enumerates demo_entries (race_shard 1)" and "enumerates demo_entries (race_shard 2)"
    and "enumerates demo_entries (race_shard 3)"
    and "commit_pass demo_entries (tx_at 1) (race_shard 2) = Some (Return (Ok (ValueChanged [(''A.x'', 10)])), race_shard 3)"
  by (simp_all add: race_shard_def Let_def pass_defs shard_eval enumerates_def object_map_def
      store_sel fun_eq_iff)

theorem lost_update_witness:
  "\<exists>q sh. commit_pass demo_entries (tx_at 2) (race_shard 3) = Some (q, sh) \<and> committed (store_of sh) ''A.x'' = Some 5"
proof -
  obtain q sh where c: "commit_pass demo_entries (tx_at 2) (race_shard 3) = Some (q, sh)"
    by (cases "commit_pass demo_entries (tx_at 2) (race_shard 3)")
      (auto simp: race_shard_def Let_def pass_defs shard_eval)
  have "tx_at 1 < tx_at 2" "\<not> is_default (tx_at 1)" "0 \<le> sint (10 :: Amount)" "0 \<le> sint (5 :: Amount)"
    by (simp_all add: is_default_def)
  from lost_update[OF shard_new_inv race_facts(1) this race_facts(2,2-6,8,10,9) c] c show ?thesis by blast
qed

theorem check_promise_broken_witness:
  "\<exists>n sh. task_step demo_entries (tx_at 2) RemoteCommit (race_shard 2) = (RemoteCommit, Some n, sh)"
proof -
  have "tx_at 1 < tx_at 2" "\<not> is_default (tx_at 1)" "0 \<le> sint (10 :: Amount)" "0 \<le> sint (5 :: Amount)"
    by (simp_all add: is_default_def)
  from check_promise_broken[OF shard_new_inv race_facts(1) this race_facts(2-5,7,6,8)] show ?thesis by blast
qed

end
