(* ===== verification/Coordinator.thy ===== *)
theory Coordinator
  imports Shard_Service
begin

text \<open>
  The server task of a node (tx-server/src/coordinator/mod.rs): it accepts clients, numbers their
  transactions, relays requests and responses between client handlers and the other servers,
  counts the votes of two-phase commits and announces the decision. Each handler is a function
  of the server's state that returns the new state and the effects it has on the outside, in
  order. Whether the receiving end of a channel is still there is up to the environment: it is
  an argument of the handlers.
\<close>

section \<open>State and effects\<close>

record ClientHandle =
  commit_count :: nat
  commit_status :: CommitStatus

record Server =
  server_node_id :: NodeId
  server_pool :: "NodeId list"
  server_shard_ids :: "NodeId list"
  clients :: "TransactionId \<rightharpoonup> ClientHandle"
  id_gen :: TransactionIdGenerator

text \<open>
  \<open>server_pool\<close> lists the keys of the connection pool in the order its iteration yields them.
  The sending ends in \<open>ClientHandle\<close> and in the pool are named by their transaction and their
  node in the effects below.
\<close>

datatype effect =
    SendServer NodeId Forwarded
  | SendClient TransactionId ClientResponse
  | SpawnRemote NodeId TransactionId ClientRequest
  | SpawnCommit TransactionId
  | SpawnClient TransactionId
  | ExitProcess
  | Panic

record channels =
  server_open :: "NodeId \<Rightarrow> bool"
  client_open :: "TransactionId \<Rightarrow> bool"

section \<open>Sending\<close>

text \<open>
  A send yields \<open>None\<close> where the source panics on a missing entry, and otherwise the effects it
  had with the success of the last send.
\<close>

definition pass_message :: "channels \<Rightarrow> NodeId \<Rightarrow> Forwarded \<Rightarrow> Server \<Rightarrow> (effect list \<times> bool) option" where
  "pass_message ch target m s =
     (if target \<in> set (server_pool s) then
        Some (if server_open ch target then ([SendServer target m], True) else ([], False))
      else None)"

definition pass_to_client :: "channels \<Rightarrow> TransactionId \<Rightarrow> ClientResponse \<Rightarrow> Server \<Rightarrow>
    (effect list \<times> bool) option" where
  "pass_to_client ch tx m s =
     (case clients s tx of
        None \<Rightarrow> None
      | Some _ \<Rightarrow> Some (if client_open ch tx then ([SendClient tx m], True) else ([], False)))"

fun broadcast_to :: "channels \<Rightarrow> NodeId list \<Rightarrow> Forwarded \<Rightarrow> effect list \<times> bool" where
  "broadcast_to ch [] m = ([], True)"
| "broadcast_to ch (n # ns) m =
     (if server_open ch n then let (es, ok) = broadcast_to ch ns m in (SendServer n m # es, ok)
      else ([], False))"

definition broadcast :: "channels \<Rightarrow> Forwarded \<Rightarrow> Server \<Rightarrow> effect list \<times> bool" where
  "broadcast ch m s = broadcast_to ch (server_pool s) m"

text \<open>Sending and exiting on failure, as every caller does.\<close>

definition or_exit :: "effect list \<times> bool \<Rightarrow> effect list" where
  "or_exit r = (if snd r then fst r else fst r @ [ExitProcess])"

definition or_panic :: "(effect list \<times> bool) option \<Rightarrow> effect list" where
  "or_panic r = (case r of None \<Rightarrow> [Panic] | Some q \<Rightarrow> or_exit q)"

section \<open>Handlers\<close>

fun handle_client_state :: "channels \<Rightarrow> ClientState \<Rightarrow> Server \<Rightarrow> effect list \<times> Server" where
  "handle_client_state ch (Finished tx) s = ([], s\<lparr>clients := (clients s)(tx := None)\<rparr>)"
| "handle_client_state ch (Forward Broadcast tx req) s =
     (or_exit (broadcast ch (Request tx req) s), s)"
| "handle_client_state ch (Forward (Node n) tx req) s =
     (or_panic (pass_message ch n (Request tx req) s), s)"

definition handle_remote_request :: "NodeId \<Rightarrow> TransactionId \<Rightarrow> ClientRequest \<Rightarrow> Server \<Rightarrow>
    effect list \<times> Server" where
  "handle_remote_request sender tx req s =
     (if sender \<in> set (server_pool s) then ([SpawnRemote sender tx req], s) else ([Panic], s))"

definition handle_two_phase_commit :: "channels \<Rightarrow> TransactionId \<Rightarrow> CommitStatus \<Rightarrow> Server \<Rightarrow>
    effect list \<times> Server" where
  "handle_two_phase_commit ch tx status s =
     (case clients s tx of
        None \<Rightarrow> ([Panic], s)
      | Some h \<Rightarrow>
          let h1 = h\<lparr>commit_count := commit_count h + 1\<rparr>;
              h2 = (if status = CannotCommit then h1\<lparr>commit_status := status\<rparr> else h1);
              s' = s\<lparr>clients := (clients s)(tx \<mapsto> h2)\<rparr>
          in if commit_count h2 = length (server_pool s) then
               (case commit_status h2 of
                  ReadyToCommit \<Rightarrow>
                    (case pass_to_client ch tx CommitOk s' of
                       None \<Rightarrow> ([Panic], s')
                     | Some (es, False) \<Rightarrow> (es @ [ExitProcess], s')
                     | Some (es, True) \<Rightarrow> (es @ or_exit (broadcast ch (DoCommit tx) s'), s'))
                | CannotCommit \<Rightarrow> (or_panic (pass_to_client ch tx Aborted s'), s'))
             else ([], s'))"

fun handle_server_state :: "channels \<Rightarrow> Forwarded ServerStateMessage \<Rightarrow> Server \<Rightarrow>
    effect list \<times> Server" where
  "handle_server_state ch st s =
     (case msg st of
        Message (Request tx req) \<Rightarrow> handle_remote_request (member_id st) tx req s
      | Message (Response tx resp) \<Rightarrow> (or_panic (pass_to_client ch tx resp s), s)
      | Message (TwoPhaseCommitStatus tx status) \<Rightarrow> handle_two_phase_commit ch tx status s
      | Message (DoCommit tx) \<Rightarrow> ([SpawnCommit tx], s)
      | Disconnected \<Rightarrow> ([ExitProcess], s))"

text \<open>A new connection: a fresh transaction, its handle with no votes, and the handler task.\<close>

definition accept_client :: "u128 \<Rightarrow> Server \<Rightarrow> effect list \<times> Server" where
  "accept_client now s =
     (let (tx, g) = next_id now (id_gen s)
      in ([SpawnClient tx],
          s\<lparr>id_gen := g,
            clients := (clients s)(tx \<mapsto> \<lparr>commit_count = 0, commit_status = ReadyToCommit\<rparr>)\<rparr>))"

datatype server_event = Accept u128 | FromClient ClientState | FromServer "Forwarded ServerStateMessage"

fun serve_step :: "channels \<Rightarrow> server_event \<Rightarrow> Server \<Rightarrow> effect list \<times> Server" where
  "serve_step ch (Accept now) s = accept_client now s"
| "serve_step ch (FromClient st) s = handle_client_state ch st s"
| "serve_step ch (FromServer m) s = handle_server_state ch m s"

definition server_start :: "NodeId \<Rightarrow> NodeId list \<Rightarrow> NodeId list \<Rightarrow> Server" where
  "server_start n pool ids =
     \<lparr>server_node_id = n, server_pool = pool, server_shard_ids = ids, clients = Map.empty,
      id_gen = new_generator n\<rparr>"


section \<open>Whole runs of the server task\<close>

text \<open>The loop of \<open>serve\<close> on a list of events: it ends with the process, on an exit or a panic.\<close>

fun serve_run :: "channels \<Rightarrow> server_event list \<Rightarrow> Server \<Rightarrow> effect list \<times> Server" where
  "serve_run ch [] s = ([], s)"
| "serve_run ch (e # evs) s =
     (let (out, s') = serve_step ch e s
      in if ExitProcess \<in> set out \<or> Panic \<in> set out then (out, s')
         else let (out', s'') = serve_run ch evs s' in (out @ out', s''))"

text \<open>The votes on a transaction among the events, in the order they arrive.\<close>

fun vote_of :: "TransactionId \<Rightarrow> server_event \<Rightarrow> CommitStatus list" where
  "vote_of tx (FromServer m) =
     (case msg m of Message (TwoPhaseCommitStatus t st) \<Rightarrow> if t = tx then [st] else [] | _ \<Rightarrow> [])"
| "vote_of tx _ = []"

definition votes :: "TransactionId \<Rightarrow> server_event list \<Rightarrow> CommitStatus list" where
  "votes tx evs = concat (map (vote_of tx) evs)"

lemma broadcast_to_effects:
  "SendServer n m \<in> set (fst (broadcast_to ch ns m')) \<Longrightarrow> m' = m \<and> n \<in> set ns"
  by (induction ns) (auto split: if_splits prod.splits)

lemma broadcast_to_open:
  "(\<forall>n \<in> set ns. server_open ch n) \<Longrightarrow> broadcast_to ch ns m = (map (\<lambda>n. SendServer n m) ns, True)"
  by (induction ns) auto

lemma broadcast_to_only_servers:
  "e \<in> set (fst (broadcast_to ch ns m)) \<Longrightarrow> \<exists>n. e = SendServer n m"
  by (induction ns) (auto split: if_splits prod.splits)

lemma handle_client_state_frame [simp]:
  "server_pool (snd (handle_client_state ch st s)) = server_pool s"
  "server_shard_ids (snd (handle_client_state ch st s)) = server_shard_ids s"
  by (cases "(ch, st, s)" rule: handle_client_state.cases; simp)+

lemma handle_two_phase_commit_frame [simp]:
  "server_pool (snd (handle_two_phase_commit ch tx st s)) = server_pool s"
  "server_shard_ids (snd (handle_two_phase_commit ch tx st s)) = server_shard_ids s"
  by (auto simp: handle_two_phase_commit_def Let_def
      split: option.split CommitStatus.split prod.split bool.split)

lemma serve_step_pool [simp]: "server_pool (snd (serve_step ch e s)) = server_pool s"
  by (cases e) (auto simp: accept_client_def handle_remote_request_def Let_def
      split: ServerStateMessageType.split Forwarded.split prod.split)

lemma serve_step_shard_ids [simp]: "server_shard_ids (snd (serve_step ch e s)) = server_shard_ids s"
  by (cases e) (auto simp: accept_client_def handle_remote_request_def Let_def
      split: ServerStateMessageType.split Forwarded.split prod.split)

lemma serve_run_pool [simp]: "server_pool (snd (serve_run ch evs s)) = server_pool s"
proof (induction evs arbitrary: s)
  case (Cons e evs)
  obtain out s1 where s1: "serve_step ch e s = (out, s1)" by (cases "serve_step ch e s")
  obtain out' s2 where s2: "serve_run ch evs s1 = (out', s2)" by (cases "serve_run ch evs s1")
  have "server_pool s1 = server_pool s" using serve_step_pool[of ch e s] s1 by simp
  with Cons.IH[of s1] s1 s2 show ?case by simp
qed simp

section \<open>Counting votes\<close>

definition vote_inv :: "TransactionId \<Rightarrow> CommitStatus list \<Rightarrow> Server \<Rightarrow> bool" where
  "vote_inv tx vs s \<longleftrightarrow> (\<exists>h. clients s tx = Some h \<and> commit_count h = length vs \<and>
     (commit_status h = CannotCommit \<longleftrightarrow> CannotCommit \<in> set vs))"

lemma handle_two_phase_commit_clients:
  "clients (snd (handle_two_phase_commit ch tx st s)) =
     (case clients s tx of
        None \<Rightarrow> clients s
      | Some h \<Rightarrow> (clients s)(tx \<mapsto> h\<lparr>commit_count := commit_count h + 1,
          commit_status := if st = CannotCommit then CannotCommit else commit_status h\<rparr>))"
  by (auto simp: handle_two_phase_commit_def Let_def fun_eq_iff
      split: option.split CommitStatus.split prod.split bool.split)

lemma handle_client_state_clients:
  "st \<noteq> Finished tx \<Longrightarrow> clients (snd (handle_client_state ch st s)) tx = clients s tx"
  by (cases "(ch, st, s)" rule: handle_client_state.cases) auto

lemma vote_step:
  assumes "vote_inv tx vs s" and "serve_step ch e s = (out, s')"
    and "SpawnClient tx \<notin> set out" and "e \<noteq> FromClient (Finished tx)"
  shows "vote_inv tx (vs @ vote_of tx e) s'"
proof (cases e)
  case (Accept now)
  with assms show ?thesis by (auto simp: accept_client_def vote_inv_def split: prod.splits)
next
  case (FromClient st)
  with assms handle_client_state_clients[of st tx ch s] show ?thesis by (auto simp: vote_inv_def)
next
  case (FromServer m)
  then have out: "handle_server_state ch m s = (out, s')" using assms(2) by simp
  show ?thesis
  proof (cases "\<exists>t st. msg m = Message (TwoPhaseCommitStatus t st)")
    case True
    then obtain t st where m: "msg m = Message (TwoPhaseCommitStatus t st)" by blast
    with out have "s' = snd (handle_two_phase_commit ch t st s)" by simp
    with FromServer m assms(1) handle_two_phase_commit_clients[of ch t st s] show ?thesis
      by (cases "t = tx"; cases st) (auto simp: vote_inv_def split: option.splits)
  next
    case False
    with out have "clients s' = clients s" and "vote_of tx e = []"
      by (auto simp: FromServer handle_remote_request_def
          split: ServerStateMessageType.splits Forwarded.splits if_splits)
    with assms(1) show ?thesis by (simp add: vote_inv_def)
  qed
qed

lemma or_exit_effects: "e \<in> set (or_exit r) \<Longrightarrow> e \<in> set (fst r) \<or> e = ExitProcess"
  by (auto simp: or_exit_def split: if_splits)

lemma handle_client_state_no_decision:
  "SendServer n (DoCommit tx) \<notin> set (fst (handle_client_state ch st s))"
  by (cases "(ch, st, s)" rule: handle_client_state.cases)
    (auto simp: broadcast_def or_panic_def pass_message_def dest!: or_exit_effects broadcast_to_only_servers)

lemma decision_needs_votes:
  assumes "vote_inv tx vs s" and "serve_step ch e s = (out, s')"
    and "SendServer n (DoCommit tx) \<in> set out"
  shows "vote_of tx e = [ReadyToCommit]" and "CannotCommit \<notin> set vs"
    and "length vs + 1 = length (server_pool s)"
proof -
  from assms(3) have "SendServer n (DoCommit tx) \<in> set (fst (serve_step ch e s))"
    using assms(2) by simp
  then obtain m where e: "e = FromServer m"
    by (cases e) (auto simp: accept_client_def handle_client_state_no_decision split: prod.splits)
  with assms(2,3) obtain t st where m: "msg m = Message (TwoPhaseCommitStatus t st)"
    by (auto simp: handle_remote_request_def or_panic_def pass_to_client_def
        split: ServerStateMessageType.splits Forwarded.splits if_splits option.splits
        dest!: or_exit_effects)
  with e assms(2,3) have d: "SendServer n (DoCommit tx) \<in> set (fst (handle_two_phase_commit ch t st s))" by simp
  then have t: "t = tx"
    by (auto simp: handle_two_phase_commit_def Let_def pass_to_client_def broadcast_def or_panic_def
        split: option.splits CommitStatus.splits if_splits dest!: or_exit_effects broadcast_to_only_servers)
  from assms(1) obtain h where h: "clients s tx = Some h" "commit_count h = length vs"
    "commit_status h = CannotCommit \<longleftrightarrow> CannotCommit \<in> set vs" by (auto simp: vote_inv_def)
  from d h have "st = ReadyToCommit \<and> commit_status h = ReadyToCommit \<and> length vs + 1 = length (server_pool s)"
    unfolding t by (cases st; cases "commit_status h")
      (auto simp: handle_two_phase_commit_def Let_def pass_to_client_def or_panic_def
        split: if_splits dest!: or_exit_effects)
  with e m t h(3) show "vote_of tx e = [ReadyToCommit]" "CannotCommit \<notin> set vs"
    "length vs + 1 = length (server_pool s)" by auto
qed

lemma run_decision:
  assumes "vote_inv tx vs s" and "SpawnClient tx \<notin> set (fst (serve_run ch evs s))"
    and "FromClient (Finished tx) \<notin> set evs"
    and "SendServer n (DoCommit tx) \<in> set (fst (serve_run ch evs s))"
  shows "length (server_pool s) \<le> length (vs @ votes tx evs) \<and>
    CannotCommit \<notin> set (take (length (server_pool s)) (vs @ votes tx evs))"
  using assms
proof (induction evs arbitrary: vs s)
  case (Cons e evs)
  obtain out s1 where s1: "serve_step ch e s = (out, s1)" by (cases "serve_step ch e s")
  have spawn: "SpawnClient tx \<notin> set out"
    using Cons.prems(2) s1 by (auto split: if_splits prod.splits)
  show ?case
  proof (cases "SendServer n (DoCommit tx) \<in> set out")
    case True
    note d = decision_needs_votes[OF Cons.prems(1) s1 True]
    from d(3) have "length (server_pool s) = Suc (length vs)" by simp
    with d(1,2) show ?thesis by (auto simp: votes_def)
  next
    case False
    have inv: "vote_inv tx (vs @ vote_of tx e) s1"
      using vote_step[OF Cons.prems(1) s1 spawn] Cons.prems(3) by auto
    from False Cons.prems(4) s1 have run: "fst (serve_run ch (e # evs) s) = out @ fst (serve_run ch evs s1)"
      by (auto split: if_splits prod.splits)
    have "server_pool s1 = server_pool s" using serve_step_pool[of ch e s] s1 by simp
    with Cons.IH[OF inv] Cons.prems False run show ?thesis by (simp add: votes_def)
  qed
qed simp

section \<open>Two-phase commit\<close>

text \<open>The handle of a transaction that has just begun, and the vote of a node.\<close>

abbreviation fresh_handle :: ClientHandle where
  "fresh_handle \<equiv> \<lparr>commit_count = 0, commit_status = ReadyToCommit\<rparr>"

abbreviation vote_msg :: "TransactionId \<Rightarrow> NodeId \<times> CommitStatus \<Rightarrow> server_event" where
  "vote_msg tx v \<equiv> FromServer \<lparr>msg = Message (TwoPhaseCommitStatus tx (snd v)), member_id = fst v\<rparr>"

text \<open>
  A commit is announced only when it is unanimous: in every run of the server task from a
  transaction that has no votes yet, whatever other clients and servers do in between, a
  \<open>DoCommit\<close> for it is sent only if as many votes as there are other shards arrived and
  each of these was \<open>ReadyToCommit\<close>.
\<close>

theorem do_commit_only_if_unanimous:
  assumes "clients s tx = Some fresh_handle"
    and "SpawnClient tx \<notin> set (fst (serve_run ch evs s))"
    and "FromClient (Finished tx) \<notin> set evs"
    and "SendServer n (DoCommit tx) \<in> set (fst (serve_run ch evs s))"
  shows "length (server_pool s) \<le> length (votes tx evs) \<and>
    CannotCommit \<notin> set (take (length (server_pool s)) (votes tx evs))"
proof -
  have "vote_inv tx [] s" using assms(1) by (simp add: vote_inv_def)
  from run_decision[OF this assms(2-4)] show ?thesis by simp
qed

lemma votes_vote_msg: "votes tx (map (vote_msg tx) vs) = map snd vs"
  by (induction vs) (auto simp: votes_def)

lemma votes_run:
  assumes "clients s tx = Some h" and "commit_count h + length vs < length (server_pool s)"
  shows "serve_run ch (map (vote_msg tx) vs @ evs) s =
    serve_run ch evs (s\<lparr>clients := (clients s)(tx \<mapsto> \<lparr>commit_count = commit_count h + length vs,
      commit_status = if CannotCommit \<in> snd ` set vs then CannotCommit else commit_status h\<rparr>)\<rparr>)"
  using assms
proof (induction vs arbitrary: s h)
  case Nil
  then have "(clients s)(tx \<mapsto> \<lparr>commit_count = commit_count h, commit_status = commit_status h\<rparr>) = clients s"
    by (simp add: map_upd_triv)
  then show ?case by simp
next
  case (Cons v vs)
  let ?h = "\<lparr>commit_count = commit_count h + 1,
    commit_status = if snd v = CannotCommit then CannotCommit else commit_status h\<rparr>"
  let ?s = "s\<lparr>clients := (clients s)(tx \<mapsto> ?h)\<rparr>"
  have "serve_step ch (vote_msg tx v) s = ([], ?s)"
    using Cons.prems by (cases h) (auto simp: handle_two_phase_commit_def Let_def)
  then have "serve_run ch (map (vote_msg tx) (v # vs) @ evs) s = serve_run ch (map (vote_msg tx) vs @ evs) ?s"
    by (simp del: serve_step.simps)
  also have "\<dots> = serve_run ch evs (?s\<lparr>clients := (clients ?s)(tx \<mapsto> \<lparr>commit_count = commit_count ?h + length vs,
      commit_status = if CannotCommit \<in> snd ` set vs then CannotCommit else commit_status ?h\<rparr>)\<rparr>)"
    using Cons.prems by (intro Cons.IH) auto
  also have "\<dots> = serve_run ch evs (s\<lparr>clients := (clients s)(tx \<mapsto> \<lparr>commit_count = commit_count h + length (v # vs),
      commit_status = if CannotCommit \<in> snd ` set (v # vs) then CannotCommit else commit_status h\<rparr>)\<rparr>)"
    by (intro arg_cong[where f = "serve_run ch evs"]) (cases "snd v", auto)
  finally show ?case .
qed

theorem do_commit_only_if_unanimous_witness:
  "CannotCommit \<notin> set (take 1 (votes (tx_at 1) [vote_msg (tx_at 1) (CHR ''B'', ReadyToCommit)]))"
proof -
  let ?s = "(server_start CHR ''A'' [CHR ''B''] [CHR ''A'', CHR ''B''])
    \<lparr>clients := [tx_at 1 \<mapsto> fresh_handle]\<rparr>"
  let ?ch = "\<lparr>server_open = \<lambda>_. True, client_open = \<lambda>_. True\<rparr>"
  let ?evs = "[vote_msg (tx_at 1) (CHR ''B'', ReadyToCommit)]"
  have run: "fst (serve_run ?ch ?evs ?s) =
      [SendClient (tx_at 1) CommitOk, SendServer CHR ''B'' (DoCommit (tx_at 1))]"
    by (simp add: server_start_def handle_two_phase_commit_def pass_to_client_def broadcast_def or_exit_def)
  have "length (server_pool ?s) = 1" by (simp add: server_start_def)
  with do_commit_only_if_unanimous[of ?s "tx_at 1" ?ch ?evs "CHR ''B''"] run show ?thesis by simp
qed

text \<open>
  C15. The decision is made, with the last vote and not before. As long as fewer votes than there are
  other shards have arrived, whatever they say, the server task does nothing: a \<open>CannotCommit\<close>
  does not abort the transaction when it arrives. When as many have arrived and the client handler
  and the servers are still there, the last vote makes the server task answer the handler, with
  \<open>CommitOk\<close> and a \<open>DoCommit\<close> to every other shard when all votes were \<open>ReadyToCommit\<close>, with
  \<open>Aborted\<close> and nothing to the shards otherwise.
\<close>

theorem two_phase_commit_decides:
  assumes "clients s tx = Some fresh_handle" and "length vs = length (server_pool s)" and "vs \<noteq> []"
    and "client_open ch tx" and "\<forall>n \<in> set (server_pool s). server_open ch n"
  shows "(\<forall>ws. length ws < length (server_pool s) \<longrightarrow> fst (serve_run ch (map (vote_msg tx) ws) s) = []) \<and>
    fst (serve_run ch (map (vote_msg tx) vs) s) =
      (if CannotCommit \<in> snd ` set vs then [SendClient tx Aborted]
       else SendClient tx CommitOk # map (\<lambda>n. SendServer n (DoCommit tx)) (server_pool s))"
proof -
  have early: "fst (serve_run ch (map (vote_msg tx) ws) s) = []" if "length ws < length (server_pool s)" for ws
    using votes_run[OF assms(1), of ws ch "[]"] that by simp
  obtain ws w where vs: "vs = ws @ [w]" using assms(3) by (cases vs rule: rev_cases) auto
  let ?s = "s\<lparr>clients := (clients s)(tx \<mapsto> \<lparr>commit_count = length ws,
    commit_status = if CannotCommit \<in> snd ` set ws then CannotCommit else ReadyToCommit\<rparr>)\<rparr>"
  have "serve_run ch (map (vote_msg tx) vs) s = serve_run ch [vote_msg tx w] ?s"
    using votes_run[OF assms(1), of ws ch "[vote_msg tx w]"] assms(2) by (simp add: vs)
  moreover have "fst (serve_run ch [vote_msg tx w] ?s) =
    (if CannotCommit \<in> snd ` set vs then [SendClient tx Aborted]
     else SendClient tx CommitOk # map (\<lambda>n. SendServer n (DoCommit tx)) (server_pool s))"
    using assms(2,4,5) by (cases "snd w") (auto simp: vs handle_two_phase_commit_def pass_to_client_def
        broadcast_def broadcast_to_open or_exit_def or_panic_def Let_def)
  ultimately show ?thesis using early by simp
qed

theorem two_phase_commit_decides_witness:
  "fst (serve_run \<lparr>server_open = \<lambda>_. True, client_open = \<lambda>_. True\<rparr>
      (map (vote_msg (tx_at 1)) [(CHR ''C'', CannotCommit)])
      ((server_start CHR ''A'' [CHR ''B'', CHR ''C''] ''ABC'')\<lparr>clients := [tx_at 1 \<mapsto> fresh_handle]\<rparr>)) = [] \<and>
   fst (serve_run \<lparr>server_open = \<lambda>_. True, client_open = \<lambda>_. True\<rparr>
      (map (vote_msg (tx_at 1)) [(CHR ''C'', ReadyToCommit), (CHR ''B'', CannotCommit)])
      ((server_start CHR ''A'' [CHR ''B'', CHR ''C''] ''ABC'')\<lparr>clients := [tx_at 1 \<mapsto> fresh_handle]\<rparr>)) =
   [SendClient (tx_at 1) Aborted]"
  using two_phase_commit_decides[of
      "(server_start CHR ''A'' [CHR ''B'', CHR ''C''] ''ABC'')\<lparr>clients := [tx_at 1 \<mapsto> fresh_handle]\<rparr>"
      "tx_at 1" "[(CHR ''C'', ReadyToCommit), (CHR ''B'', CannotCommit)]"
      "\<lparr>server_open = \<lambda>_. True, client_open = \<lambda>_. True\<rparr>"]
  by (simp add: server_start_def del: serve_run.simps list.map)

end
