(* ===== verification/Client_Handler.thy ===== *)
theory Client_Handler
  imports Coordinator
begin

text \<open>
  The task that serves one client and coordinates its transaction
  (tx-server/src/coordinator/client.rs). The task is a state machine: its position \<open>pc\<close> is the
  \<open>await\<close> it is at, and one step consumes the event that \<open>await\<close> was waiting for: a request
  from the client's stream, a response the server task passed on, or another pass of the local
  shard operation it is in. A pass that ends suspended leaves the task asleep on a notification,
  and the next pass comes when that has been fired.
\<close>

section \<open>State\<close>

datatype client_pc =
    AwaitRequest
  | LocalChangeRead AccountId BalanceDiff
  | LocalChangeWrite AccountId Amount
  | LocalBalance AccountId
  | AwaitForward
  | AbortLocal ClientResponse
  | AbortWait nat ClientResponse
  | CommitCheck
  | CommitWait
  | CommitLocal ClientResponse
  | ClientDone
  | ClientPanic

record Client =
  client_server_id :: NodeId
  transaction_id :: TransactionId
  client_shard_ids :: "NodeId list"
  client_pc :: client_pc
  client_wait :: "notify option"

text \<open>What a client handler does to the outside: a response on the stream, a message to the
  server task, the line that reports a commit.\<close>

datatype client_effect =
    StreamSend ClientResponse
  | ToServer ClientState
  | ClientPrint "string option"

datatype client_event =
    GotRequest ClientRequest
  | StreamClosed
  | GotForward ClientResponse
  | ForwardClosed
  | LocalPass "(AccountId \<times> addr) list"

definition Client_new :: "NodeId \<Rightarrow> TransactionId \<Rightarrow> NodeId list \<Rightarrow> Client" where
  "Client_new n tx ids =
     \<lparr>client_server_id = n, transaction_id = tx, client_shard_ids = ids, client_pc = AwaitRequest, client_wait = None\<rparr>"

definition extract_shard :: "Client \<Rightarrow> AccountId \<Rightarrow> TargetShard" where
  "extract_shard c acct =
     (case acct of
        [] \<Rightarrow> DoesNotExist
      | first # _ \<Rightarrow>
          if first \<in> set (client_shard_ids c) then
            if client_server_id c = first then Local else Remote first
          else DoesNotExist)"

section \<open>The steps\<close>

text \<open>
  The end of the task: the last response on the stream, then \<open>Finished\<close> to the server task.
\<close>

definition finish_with :: "ClientResponse \<Rightarrow> Client \<Rightarrow> Client \<times> client_effect list" where
  "finish_with resp c =
     (c\<lparr>client_pc := ClientDone\<rparr>, [StreamSend resp, ToServer (Finished (transaction_id c))])"

text \<open>
  What both balance handlers do with the response they computed or received: an error aborts the
  transaction first and ends the task, anything else is sent and the task takes the next request.
\<close>

definition respond :: "ClientResponse \<Rightarrow> Client \<Rightarrow> Client \<times> client_effect list" where
  "respond resp c =
     (if response_is_err resp then (c\<lparr>client_pc := AbortLocal resp\<rparr>, [])
      else (c\<lparr>client_pc := AwaitRequest\<rparr>, [StreamSend resp]))"

definition handle_balance_change_request :: "AccountId \<Rightarrow> BalanceDiff \<Rightarrow> Client \<Rightarrow>
    Client \<times> client_effect list" where
  "handle_balance_change_request k d c =
     (case extract_shard c k of
        Remote n \<Rightarrow> (c\<lparr>client_pc := AwaitForward\<rparr>,
                     [ToServer (Forward (Node n) (transaction_id c) (WriteBalance k d))])
      | Local \<Rightarrow> (c\<lparr>client_pc := LocalChangeRead k d\<rparr>, [])
      | DoesNotExist \<Rightarrow> respond ClientResponse.AbortedNotFound c)"

definition handle_balance_request :: "AccountId \<Rightarrow> Client \<Rightarrow> Client \<times> client_effect list" where
  "handle_balance_request k c =
     (case extract_shard c k of
        Remote n \<Rightarrow> (c\<lparr>client_pc := AwaitForward\<rparr>,
                     [ToServer (Forward (Node n) (transaction_id c) (ReadBalance k))])
      | Local \<Rightarrow> (c\<lparr>client_pc := LocalBalance k\<rparr>, [])
      | DoesNotExist \<Rightarrow> respond ClientResponse.AbortedNotFound c)"

text \<open>The abort loop: it counts the shards that have aborted, its own included.\<close>

definition abort_loop :: "nat \<Rightarrow> ClientResponse \<Rightarrow> Client \<Rightarrow> Client \<times> client_effect list" where
  "abort_loop n resp c =
     (if n < length (client_shard_ids c) then (c\<lparr>client_pc := AbortWait n resp\<rparr>, [])
      else finish_with resp c)"

definition do_abort :: "(AccountId \<times> addr) list \<Rightarrow> ClientResponse \<Rightarrow> Client \<Rightarrow> AtomicShard \<Rightarrow>
    Client \<times> AtomicShard \<times> client_effect list" where
  "do_abort es resp c sh =
     (let (c', out) = abort_loop 1 resp c
      in (c', shard_abort es (transaction_id c) sh,
          ToServer (Forward Broadcast (transaction_id c) ClientRequest.Abort) # out))"

definition do_commit :: "(AccountId \<times> addr) list \<Rightarrow> ClientResponse \<Rightarrow> Client \<Rightarrow> AtomicShard \<Rightarrow>
    Client \<times> AtomicShard \<times> client_effect list" where
  "do_commit es resp c sh =
     (case commit_pass es (transaction_id c) sh of
        None \<Rightarrow> (c\<lparr>client_pc := ClientPanic\<rparr>, sh, [])
      | Some (Suspended n, sh') \<Rightarrow> (c\<lparr>client_wait := Some n\<rparr>, sh', [])
      | Some (Return (Err _), sh') \<Rightarrow> let (c', out) = finish_with resp c in (c', sh', out)
      | Some (Return (Ok r), sh') \<Rightarrow>
          let (c', out) = finish_with resp c in (c', sh', ClientPrint (format_commit_result r) # out))"

definition handle_commit_request :: "(AccountId \<times> addr) list \<Rightarrow> Client \<Rightarrow> AtomicShard \<Rightarrow>
    Client \<times> AtomicShard \<times> client_effect list" where
  "handle_commit_request es c sh =
     (case check_commit_pass es (transaction_id c) sh of
        None \<Rightarrow> (c\<lparr>client_pc := ClientPanic\<rparr>, sh, [])
      | Some (Suspended n, sh') \<Rightarrow> (c\<lparr>client_wait := Some n\<rparr>, sh', [])
      | Some (Return (Err _), sh') \<Rightarrow> (c\<lparr>client_pc := AbortLocal Aborted\<rparr>, sh', [])
      | Some (Return (Ok _), sh') \<Rightarrow>
          (c\<lparr>client_pc := CommitWait\<rparr>, sh',
           [ToServer (Forward Broadcast (transaction_id c) Commit)]))"

definition commit_decision :: "ClientResponse \<Rightarrow> Client \<Rightarrow> Client \<times> client_effect list" where
  "commit_decision resp c =
     (case resp of
        CommitOk \<Rightarrow> (c\<lparr>client_pc := CommitLocal resp\<rparr>, [])
      | Aborted \<Rightarrow> (c\<lparr>client_pc := AbortLocal resp\<rparr>, [])
      | _ \<Rightarrow> finish_with resp c)"

fun on_request :: "ClientRequest \<Rightarrow> Client \<Rightarrow> Client \<times> client_effect list" where
  "on_request (WriteBalance k d) c = handle_balance_change_request k d c"
| "on_request (ReadBalance k) c = handle_balance_request k c"
| "on_request Commit c = (c\<lparr>client_pc := CommitCheck\<rparr>, [])"
| "on_request ClientRequest.Abort c = (c\<lparr>client_pc := AbortLocal Aborted\<rparr>, [])"

text \<open>A pass of the local shard operation the task is in.\<close>

fun local_pass :: "(AccountId \<times> addr) list \<Rightarrow> client_pc \<Rightarrow> Client \<Rightarrow> AtomicShard \<Rightarrow>
    (Client \<times> AtomicShard \<times> client_effect list) option" where
  "local_pass es (LocalChangeRead k d) c sh =
     (case read_pass (transaction_id c) k sh of
        (Suspended n, sh') \<Rightarrow> Some (c\<lparr>client_wait := Some n\<rparr>, sh', [])
      | (Return r, sh') \<Rightarrow>
          (case after_read (diff_amount d) r of
             Inl v \<Rightarrow> Some (c\<lparr>client_pc := LocalChangeWrite k v\<rparr>, sh', [])
           | Inr resp \<Rightarrow> let (c', out) = respond resp c in Some (c', sh', out)))"
| "local_pass es (LocalChangeWrite k v) c sh =
     (case write_pass (transaction_id c) k v sh of
        (Suspended n, sh') \<Rightarrow> Some (c\<lparr>client_wait := Some n\<rparr>, sh', [])
      | (Return r, sh') \<Rightarrow> let (c', out) = respond (after_write r) c in Some (c', sh', out))"
| "local_pass es (LocalBalance k) c sh =
     (case read_pass (transaction_id c) k sh of
        (Suspended n, sh') \<Rightarrow> Some (c\<lparr>client_wait := Some n\<rparr>, sh', [])
      | (Return r, sh') \<Rightarrow> let (c', out) = respond (after_balance k r) c in Some (c', sh', out))"
| "local_pass es (AbortLocal resp) c sh = Some (do_abort es resp c sh)"
| "local_pass es CommitCheck c sh = Some (handle_commit_request es c sh)"
| "local_pass es (CommitLocal resp) c sh = Some (do_commit es resp c sh)"
| "local_pass es _ c sh = None"

text \<open>\<open>handle\<close>: \<open>None\<close> when the task is not waiting for that event, or is asleep.\<close>

fun client_step :: "client_event \<Rightarrow> Client \<Rightarrow> AtomicShard \<Rightarrow>
    (Client \<times> AtomicShard \<times> client_effect list) option" where
  "client_step (GotRequest req) c sh =
     (if client_pc c = AwaitRequest then let (c', out) = on_request req c in Some (c', sh, out)
      else None)"
| "client_step StreamClosed c sh =
     (if client_pc c = AwaitRequest
      then Some (c\<lparr>client_pc := ClientDone\<rparr>, sh, [ToServer (Finished (transaction_id c))])
      else None)"
| "client_step (GotForward resp) c sh =
     (case client_pc c of
        AwaitForward \<Rightarrow> let (c', out) = respond resp c in Some (c', sh, out)
      | AbortWait n final \<Rightarrow>
          let (c', out) = abort_loop (if resp = Aborted then n + 1 else n) final c in Some (c', sh, out)
      | CommitWait \<Rightarrow> let (c', out) = commit_decision resp c in Some (c', sh, out)
      | _ \<Rightarrow> None)"
| "client_step ForwardClosed c sh =
     (case client_pc c of
        AwaitForward \<Rightarrow> Some (c\<lparr>client_pc := ClientPanic\<rparr>, sh, [])
      | AbortWait n final \<Rightarrow> Some (c\<lparr>client_pc := ClientPanic\<rparr>, sh, [])
      | CommitWait \<Rightarrow> Some (c\<lparr>client_pc := ClientPanic\<rparr>, sh, [])
      | _ \<Rightarrow> None)"
| "client_step (LocalPass es) c sh =
     (if resumed (client_wait c) sh then local_pass es (client_pc c) (c\<lparr>client_wait := None\<rparr>) sh else None)"

text \<open>A sequence of events.\<close>

fun client_run :: "client_event list \<Rightarrow> Client \<Rightarrow> AtomicShard \<Rightarrow>
    (Client \<times> AtomicShard \<times> client_effect list) option" where
  "client_run [] c sh = Some (c, sh, [])"
| "client_run (e # evs) c sh =
     (case client_step e c sh of
        None \<Rightarrow> None
      | Some (c', sh', out) \<Rightarrow>
          (case client_run evs c' sh' of
             None \<Rightarrow> None
           | Some (c'', sh'', out') \<Rightarrow> Some (c'', sh'', out @ out')))"


section \<open>Routing\<close>

text \<open>
  C36. Accounts are partitioned: a coordinator that does not own an account forwards it to a node
  of the cluster, that node takes it as local, and no other node does.
\<close>

theorem routing_partition:
  assumes "set ids = set ids'"
  shows "(extract_shard (Client_new n tx ids) k = Remote m \<longrightarrow>
            m \<noteq> n \<and> m \<in> set ids \<and> extract_shard (Client_new m tx' ids') k = Local) \<and>
         (extract_shard (Client_new n tx ids) k = Local \<longrightarrow>
            n \<in> set ids \<and> (m \<noteq> n \<longrightarrow> extract_shard (Client_new m tx' ids') k = Remote n)) \<and>
         (extract_shard (Client_new n tx ids) k = DoesNotExist \<longleftrightarrow>
            extract_shard (Client_new m tx' ids') k = DoesNotExist)"
  using assms by (auto simp: extract_shard_def Client_new_def split: list.splits if_splits)

theorem routing_partition_witness:
  "extract_shard (Client_new CHR ''A'' (tx_at 1) [CHR ''A'', CHR ''B'']) ''B.bar'' = Remote CHR ''B'' \<and>
   extract_shard (Client_new CHR ''B'' (tx_at 2) [CHR ''B'', CHR ''A'']) ''B.bar'' = Local"
proof -
  have r: "extract_shard (Client_new CHR ''A'' (tx_at 1) [CHR ''A'', CHR ''B'']) ''B.bar'' = Remote CHR ''B''"
    by (simp add: extract_shard_def Client_new_def)
  have "set [CHR ''A'', CHR ''B''] = set [CHR ''B'', CHR ''A'']" by auto
  from routing_partition[OF this, of "CHR ''A''" "tx_at 1" "''B.bar''" "CHR ''B''" "tx_at 2"] r
  show ?thesis by simp
qed

section \<open>Aborting\<close>

lemma client_run_append:
  "client_run (evs @ evs') c sh = (case client_run evs c sh of None \<Rightarrow> None
     | Some (c', sh', out) \<Rightarrow> (case client_run evs' c' sh' of None \<Rightarrow> None
        | Some (c'', sh'', out') \<Rightarrow> Some (c'', sh'', out @ out')))"
  by (induction evs arbitrary: c sh) (auto split: option.splits)

definition confirmations :: "ClientResponse list \<Rightarrow> nat" where
  "confirmations rs = length (filter (\<lambda>r. r = Aborted) rs)"

lemma abort_waiting:
  assumes "client_pc c = AbortWait n resp" and "n + confirmations rs < length (client_shard_ids c)"
  shows "client_run (map GotForward rs) c sh =
    Some (c\<lparr>client_pc := AbortWait (n + confirmations rs) resp\<rparr>, sh, [])"
  using assms
proof (induction rs arbitrary: c n)
  case Nil
  then show ?case by (simp add: confirmations_def)
next
  case (Cons r rs)
  let ?n = "if r = Aborted then n + 1 else n"
  have "client_step (GotForward r) c sh = Some (c\<lparr>client_pc := AbortWait ?n resp\<rparr>, sh, [])"
    using Cons.prems by (auto simp: abort_loop_def confirmations_def)
  with Cons.IH[of "c\<lparr>client_pc := AbortWait ?n resp\<rparr>" ?n] Cons.prems show ?case
    by (auto simp: confirmations_def simp del: client_step.simps)
qed

text \<open>
  C35. An abort completes, and not before it is complete. The handler undoes the transaction on its
  own shard and tells every other shard. As long as fewer answers \<open>Aborted\<close> than there are other
  shards have come, among whatever other answers, it has sent nothing to the client and waits
  for more; with the last of them it sends the final response, and then it ends. In a cluster
  of one node it does so at once.
\<close>

theorem abort_completes:
  assumes "client_pc c = AbortLocal resp" and "client_wait c = None"
  shows "(1 + confirmations rs < length (client_shard_ids c) \<longrightarrow>
      client_run (LocalPass es # map GotForward rs) c sh =
        Some (c\<lparr>client_pc := AbortWait (1 + confirmations rs) resp\<rparr>, shard_abort es (transaction_id c) sh,
              [ToServer (Forward Broadcast (transaction_id c) ClientRequest.Abort)])) \<and>
    (2 + confirmations rs = length (client_shard_ids c) \<longrightarrow>
      client_run (LocalPass es # map GotForward (rs @ [Aborted])) c sh =
        Some (c\<lparr>client_pc := ClientDone\<rparr>, shard_abort es (transaction_id c) sh,
              [ToServer (Forward Broadcast (transaction_id c) ClientRequest.Abort), StreamSend resp,
               ToServer (Finished (transaction_id c))])) \<and>
    (length (client_shard_ids c) \<le> 1 \<longrightarrow>
      client_run [LocalPass es] c sh =
        Some (c\<lparr>client_pc := ClientDone\<rparr>, shard_abort es (transaction_id c) sh,
              [ToServer (Forward Broadcast (transaction_id c) ClientRequest.Abort), StreamSend resp,
               ToServer (Finished (transaction_id c))]))"
proof -
  let ?c = "c\<lparr>client_pc := AbortWait 1 resp\<rparr>" and ?sh = "shard_abort es (transaction_id c) sh"
    and ?b = "ToServer (Forward Broadcast (transaction_id c) ClientRequest.Abort)"
  have c: "c\<lparr>client_wait := None\<rparr> = c" using assms(2) by simp
  have first: "client_step (LocalPass es) c sh = Some (?c, ?sh, [?b])" if "1 < length (client_shard_ids c)"
    using assms that by (simp add: do_abort_def abort_loop_def resumed_def c)
  have wait: "client_run (LocalPass es # map GotForward rs) c sh =
      Some (c\<lparr>client_pc := AbortWait (1 + confirmations rs) resp\<rparr>, ?sh, [?b])"
    if "1 + confirmations rs < length (client_shard_ids c)"
    using first abort_waiting[of ?c 1 resp rs ?sh] that by (simp del: client_step.simps)
  have "client_run (LocalPass es # map GotForward (rs @ [Aborted])) c sh =
      Some (c\<lparr>client_pc := ClientDone\<rparr>, ?sh, [?b, StreamSend resp, ToServer (Finished (transaction_id c))])"
    if "2 + confirmations rs = length (client_shard_ids c)"
  proof -
    have "client_run [GotForward Aborted] (c\<lparr>client_pc := AbortWait (1 + confirmations rs) resp\<rparr>) ?sh =
        Some (c\<lparr>client_pc := ClientDone\<rparr>, ?sh, [StreamSend resp, ToServer (Finished (transaction_id c))])"
      using that by (simp add: abort_loop_def finish_with_def)
    with wait that client_run_append[of "LocalPass es # map GotForward rs" "[GotForward Aborted]" c sh]
    show ?thesis by (simp del: client_step.simps client_run.simps)
  qed
  moreover have "client_run [LocalPass es] c sh =
      Some (c\<lparr>client_pc := ClientDone\<rparr>, ?sh, [?b, StreamSend resp, ToServer (Finished (transaction_id c))])"
    if "length (client_shard_ids c) \<le> 1"
    using assms that by (simp add: do_abort_def abort_loop_def finish_with_def resumed_def c)
  ultimately show ?thesis using wait by blast
qed

theorem abort_completes_witness:
  "client_run [LocalPass [], GotForward Aborted]
     ((Client_new CHR ''A'' (tx_at 1) [CHR ''A'', CHR ''B''])\<lparr>client_pc := AbortLocal Aborted\<rparr>)
     (shard_new CHR ''A'') =
   Some ((Client_new CHR ''A'' (tx_at 1) [CHR ''A'', CHR ''B''])\<lparr>client_pc := ClientDone\<rparr>,
     shard_abort [] (tx_at 1) (shard_new CHR ''A''),
     [ToServer (Forward Broadcast (tx_at 1) ClientRequest.Abort), StreamSend Aborted,
      ToServer (Finished (tx_at 1))])"
  using abort_completes[of "(Client_new CHR ''A'' (tx_at 1) [CHR ''A'', CHR ''B''])\<lparr>client_pc := AbortLocal Aborted\<rparr>"
      Aborted "[]" "[]" "shard_new CHR ''A''"]
  by (simp add: Client_new_def confirmations_def del: client_run.simps)

section \<open>Disconnection\<close>

text \<open>
  C34. A client that disconnects before committing is not aborted: the handler ends without touching
  the shard and without telling any other shard, so every write of the transaction stays pending,
  and a newer transaction that reads one of those accounts is suspended.
\<close>

theorem disconnect_leaves_writes:
  assumes "shard_inv check_amount sh" and "client_pc c = AwaitRequest"
    and "client_step StreamClosed c sh = Some (c', sh', out)"
  shows "client_pc c' = ClientDone \<and> out = [ToServer (Finished (transaction_id c))] \<and>
    pending (store_of sh') (transaction_id c) = pending (store_of sh) (transaction_id c) \<and>
    (\<forall>k t. pending (store_of sh) (transaction_id c) k \<noteq> None \<longrightarrow> transaction_id c < t \<longrightarrow>
       pending (store_of sh) t k = None \<longrightarrow>
       (\<exists>n sh''. read_pass t k sh' = (Suspended n, sh'')))"
proof -
  have sh': "sh' = sh" and c': "client_pc c' = ClientDone"
    and out: "out = [ToServer (Finished (transaction_id c))]" using assms(2,3) by auto
  have "\<exists>n sh''. read_pass t k sh = (Suspended n, sh'')"
    if p: "pending (store_of sh) (transaction_id c) k \<noteq> None" and "transaction_id c < t"
      and np: "pending (store_of sh) t k = None" for k t
  proof -
    from p obtain ob where ob: "object_map sh k = Some ob"
      and w: "btree_get (tentative_writes ob) (transaction_id c) \<noteq> None"
      by (cases "object_map sh k") (auto simp: store_sel object_pending_value_def)
    have inv: "object_inv check_amount ob" using object_map_inv[OF assms(1) ob] .
    have key: "transaction_id c \<in> btree_keys (tentative_writes ob)"
      using w by (simp add: btree_get_None_iff)
    have "t \<notin> btree_keys (tentative_writes ob)"
      using np ob by (auto simp: store_sel object_pending_value_def btree_get_None_iff)
    then obtain u where r: "object_read t ob = (Err (RWFailure.WaitFor u), ob)"
      using key \<open>transaction_id c < t\<close> object_invD(3)[OF inv key]
      by (rule_tac object_read_cases[OF inv, of t]) (auto simp: btree_get_None_iff[symmetric])
    obtain p sh'' where rp: "shard_read_pass t k sh = (p, sh'')" by (cases "shard_read_pass t k sh")
    from shard_read_pass_present(2)[OF assms(1) ob r rp] rp show ?thesis
      by (auto simp: read_pass_def)
  qed
  with sh' c' out show ?thesis by blast
qed

theorem disconnect_leaves_writes_witness:
  "\<exists>n sh''. read_pass (tx_at 6) ''A.x'' demo_shard = (Suspended n, sh'')"
proof -
  let ?c = "Client_new CHR ''B'' (tx_at 5) [CHR ''A'', CHR ''B'']"
  have st: "client_step StreamClosed ?c demo_shard =
      Some (?c\<lparr>client_pc := ClientDone\<rparr>, demo_shard, [ToServer (Finished (tx_at 5))])"
    by (simp add: Client_new_def)
  have pend: "pending (store_of demo_shard) (tx_at 5) ''A.x'' \<noteq> None"
    "pending (store_of demo_shard) (tx_at 6) ''A.x'' = None"
    by (simp_all add: store_sel object_pending_value_def object_map_def demo_shard_def btree_get_def)
  have "client_pc ?c = AwaitRequest" and tx: "transaction_id ?c = tx_at 5" by (simp_all add: Client_new_def)
  from disconnect_leaves_writes[OF demo_facts(1) this(1) st, unfolded tx] pend show ?thesis by simp
qed

end
