(* ===== verification/Cluster.thy ===== *)
theory Cluster
  imports Client_Handler
begin

text \<open>
  The whole cluster as one step relation: the server task, the shard, the client handlers and the
  spawned tasks of every node, and everything that is on its way between them. A step is one
  event of one task. What is on its way is a multiset and is delivered in any order, so the
  results do not rest on the order the channels and connections keep. A task that its shard has
  suspended sleeps until the notification it awaits is fired. A node whose server task exits or
  panics takes no further step, and a node may stop at any time. Nothing keeps a server from
  issuing an id again that it has issued before: the new handler then takes the place of the old
  one in the table of clients. The history records votes, commits and aborts on shards and
  responses to clients.
\<close>

section \<open>State\<close>

datatype item =
    ItemServer NodeId ClientState
  | ItemWire NodeId NodeId Forwarded
  | ItemTask NodeId NodeId TransactionId "notify option" shard_task
  | ItemHandler TransactionId ClientResponse

text \<open>
  In the order of the constructors: a message of a client handler to the server task of a node, a
  message from a node to another, a task on a node that serves another one (with the notification
  it sleeps on, if it does), a message of the server task to a client handler.
\<close>

datatype log_entry =
    Voted NodeId TransactionId CommitStatus
  | Applied NodeId TransactionId
  | Undone NodeId TransactionId
  | Told TransactionId ClientResponse

record Cluster =
  srv :: "NodeId \<Rightarrow> Server"
  shd :: "NodeId \<Rightarrow> AtomicShard"
  hdl :: "TransactionId \<rightharpoonup> Client"
  items :: "item multiset"
  halted :: "NodeId set"
  history :: "log_entry set"
  orphans :: "Client multiset"
  reused :: "TransactionId set"

text \<open>
  \<open>hdl\<close> holds for each id the handler it was issued to last; a handler whose id has been issued
  again is among the \<open>orphans\<close>, and the ids that were issued more than once are the \<open>reused\<close> ones.
\<close>

fun fwd_tx :: "Forwarded \<Rightarrow> TransactionId" where
  "fwd_tx (Request tx r) = tx"
| "fwd_tx (Response tx r) = tx"
| "fwd_tx (TwoPhaseCommitStatus tx st) = tx"
| "fwd_tx (DoCommit tx) = tx"

fun item_tx :: "item \<Rightarrow> TransactionId" where
  "item_tx (ItemServer n (Forward tg tx r)) = tx"
| "item_tx (ItemServer n (Finished tx)) = tx"
| "item_tx (ItemWire m n f) = fwd_tx f"
| "item_tx (ItemTask n m tx w t) = tx"
| "item_tx (ItemHandler tx r) = tx"

fun entry_tx :: "log_entry \<Rightarrow> TransactionId" where
  "entry_tx (Voted n tx st) = tx"
| "entry_tx (Applied n tx) = tx"
| "entry_tx (Undone n tx) = tx"
| "entry_tx (Told tx r) = tx"

section \<open>Steps\<close>

text \<open>What the effects of the server task and of a client handler put on its way.\<close>

fun effect_items :: "NodeId \<Rightarrow> effect list \<Rightarrow> item multiset" where
  "effect_items n [] = {#}"
| "effect_items n (SendServer m f # es) = add_mset (ItemWire n m f) (effect_items n es)"
| "effect_items n (SendClient tx r # es) = add_mset (ItemHandler tx r) (effect_items n es)"
| "effect_items n (SpawnRemote m tx req # es) = add_mset (ItemTask n m tx None (remote_task req)) (effect_items n es)"
| "effect_items n (SpawnCommit tx # es) = add_mset (ItemTask n n tx None RemoteCommit) (effect_items n es)"
| "effect_items n (SpawnClient tx # es) = effect_items n es"
| "effect_items n (ExitProcess # es) = effect_items n es"
| "effect_items n (Panic # es) = effect_items n es"

fun client_items :: "NodeId \<Rightarrow> client_effect list \<Rightarrow> item multiset" where
  "client_items n [] = {#}"
| "client_items n (ToServer st # es) = add_mset (ItemServer n st) (client_items n es)"
| "client_items n (StreamSend r # es) = client_items n es"
| "client_items n (ClientPrint l # es) = client_items n es"

fun received :: "NodeId \<Rightarrow> item \<Rightarrow> server_event option" where
  "received n (ItemServer n' st) = (if n' = n then Some (FromClient st) else None)"
| "received n (ItemWire m n' f) =
     (if n' = n then Some (FromServer \<lparr>msg = Message f, member_id = m\<rparr>) else None)"
| "received n _ = None"

definition task_log :: "NodeId \<Rightarrow> TransactionId \<Rightarrow> shard_task \<Rightarrow> shard_task \<Rightarrow> log_entry set" where
  "task_log n tx t t' =
     (case t of
        RemoteCheck \<Rightarrow> (case t' of TaskSend (TwoPhaseCommitStatus _ st) \<Rightarrow> {Voted n tx st} | _ \<Rightarrow> {})
      | RemoteCommit \<Rightarrow> {Applied n tx}
      | RemoteAbort \<Rightarrow> {Undone n tx}
      | _ \<Rightarrow> {})"

definition pass_log :: "NodeId \<Rightarrow> TransactionId \<Rightarrow> client_pc \<Rightarrow> client_pc \<Rightarrow> log_entry set" where
  "pass_log n tx pc pc' =
     (case pc of
        CommitCheck \<Rightarrow>
          (case pc' of
             CommitWait \<Rightarrow> {Voted n tx ReadyToCommit}
           | AbortLocal _ \<Rightarrow> {Voted n tx CannotCommit}
           | _ \<Rightarrow> {})
      | CommitLocal _ \<Rightarrow> {Applied n tx}
      | AbortLocal _ \<Rightarrow> {Undone n tx}
      | _ \<Rightarrow> {})"

fun told_log :: "TransactionId \<Rightarrow> client_effect list \<Rightarrow> log_entry set" where
  "told_log tx [] = {}"
| "told_log tx (StreamSend r # es) = insert (Told tx r) (told_log tx es)"
| "told_log tx (_ # es) = told_log tx es"

text \<open>The message a handler takes out of its channel.\<close>

fun taken :: "TransactionId \<Rightarrow> client_event \<Rightarrow> item multiset" where
  "taken tx (GotForward r) = {#ItemHandler tx r#}"
| "taken tx _ = {#}"

inductive cluster_step :: "Cluster \<Rightarrow> Cluster \<Rightarrow> bool" where
  accept: "n \<notin> halted \<sigma> \<Longrightarrow> serve_step ch (Accept now) (srv \<sigma> n) = ([SpawnClient tx], s') \<Longrightarrow>
    hdl \<sigma> tx = None \<Longrightarrow>
    cluster_step \<sigma> (\<sigma>\<lparr>srv := (srv \<sigma>)(n := s'),
      hdl := (hdl \<sigma>)(tx \<mapsto> Client_new n tx (server_shard_ids s'))\<rparr>)"
| accept_again: "n \<notin> halted \<sigma> \<Longrightarrow> serve_step ch (Accept now) (srv \<sigma> n) = ([SpawnClient tx], s') \<Longrightarrow>
    hdl \<sigma> tx = Some c \<Longrightarrow>
    cluster_step \<sigma> (\<sigma>\<lparr>srv := (srv \<sigma>)(n := s'),
      hdl := (hdl \<sigma>)(tx \<mapsto> Client_new n tx (server_shard_ids s')),
      orphans := add_mset c (orphans \<sigma>), reused := insert tx (reused \<sigma>)\<rparr>)"
| serve: "n \<notin> halted \<sigma> \<Longrightarrow> x \<in># items \<sigma> \<Longrightarrow> received n x = Some ev \<Longrightarrow>
    serve_step ch ev (srv \<sigma> n) = (out, s') \<Longrightarrow>
    cluster_step \<sigma> (\<sigma>\<lparr>srv := (srv \<sigma>)(n := s'), items := items \<sigma> - {#x#} + effect_items n out,
      halted := if ExitProcess \<in> set out \<or> Panic \<in> set out then insert n (halted \<sigma>) else halted \<sigma>\<rparr>)"
| task: "n \<notin> halted \<sigma> \<Longrightarrow> ItemTask n m tx w t \<in># items \<sigma> \<Longrightarrow> resumed w (shd \<sigma> n) \<Longrightarrow>
    enumerates es (shd \<sigma> n) \<Longrightarrow> task_step es tx t (shd \<sigma> n) = (t', w', sh') \<Longrightarrow>
    cluster_step \<sigma> (\<sigma>\<lparr>shd := (shd \<sigma>)(n := sh'),
      items := items \<sigma> - {#ItemTask n m tx w t#} + {#ItemTask n m tx w' t'#},
      history := history \<sigma> \<union> task_log n tx t t'\<rparr>)"
| task_send: "n \<notin> halted \<sigma> \<Longrightarrow> ItemTask n m tx w (TaskSend f) \<in># items \<sigma> \<Longrightarrow>
    cluster_step \<sigma> (\<sigma>\<lparr>items := items \<sigma> - {#ItemTask n m tx w (TaskSend f)#} + {#ItemWire n m f#}\<rparr>)"
| task_lost: "n \<notin> halted \<sigma> \<Longrightarrow> ItemTask n m tx w (TaskSend f) \<in># items \<sigma> \<Longrightarrow>
    cluster_step \<sigma> (\<sigma>\<lparr>items := items \<sigma> - {#ItemTask n m tx w (TaskSend f)#}\<rparr>)"
| handler_request: "hdl \<sigma> tx = Some c \<Longrightarrow> client_server_id c = n \<Longrightarrow> n \<notin> halted \<sigma> \<Longrightarrow>
    client_step ev c (shd \<sigma> n) = Some (c', sh', out) \<Longrightarrow> ev = StreamClosed \<or> ev = GotRequest req \<Longrightarrow>
    cluster_step \<sigma> (\<sigma>\<lparr>hdl := (hdl \<sigma>)(tx \<mapsto> c'), items := items \<sigma> + client_items n out,
      history := history \<sigma> \<union> told_log tx out\<rparr>)"
| handler_forward: "hdl \<sigma> tx = Some c \<Longrightarrow> client_server_id c = n \<Longrightarrow> n \<notin> halted \<sigma> \<Longrightarrow>
    ItemHandler tx r \<in># items \<sigma> \<Longrightarrow> client_step (GotForward r) c (shd \<sigma> n) = Some (c', sh', out) \<Longrightarrow>
    cluster_step \<sigma> (\<sigma>\<lparr>hdl := (hdl \<sigma>)(tx \<mapsto> c'),
      items := items \<sigma> - {#ItemHandler tx r#} + client_items n out,
      history := history \<sigma> \<union> told_log tx out\<rparr>)"
| handler_pass: "hdl \<sigma> tx = Some c \<Longrightarrow> client_server_id c = n \<Longrightarrow> n \<notin> halted \<sigma> \<Longrightarrow>
    enumerates es (shd \<sigma> n) \<Longrightarrow> client_step (LocalPass es) c (shd \<sigma> n) = Some (c', sh', out) \<Longrightarrow>
    cluster_step \<sigma> (\<sigma>\<lparr>shd := (shd \<sigma>)(n := sh'), hdl := (hdl \<sigma>)(tx \<mapsto> c'),
      items := items \<sigma> + client_items n out,
      history := history \<sigma> \<union> pass_log n tx (client_pc c) (client_pc c') \<union> told_log tx out\<rparr>)"
| handler_closed: "hdl \<sigma> tx = Some c \<Longrightarrow> client_server_id c = n \<Longrightarrow> n \<notin> halted \<sigma> \<Longrightarrow>
    clients (srv \<sigma> n) tx = None \<Longrightarrow> \<forall>r. ItemHandler tx r \<notin># items \<sigma> \<Longrightarrow>
    client_step ForwardClosed c (shd \<sigma> n) = Some (c', sh', out) \<Longrightarrow>
    cluster_step \<sigma> (\<sigma>\<lparr>hdl := (hdl \<sigma>)(tx \<mapsto> c')\<rparr>)"
| orphan: "c \<in># orphans \<sigma> \<Longrightarrow> client_server_id c = n \<Longrightarrow> transaction_id c = tx \<Longrightarrow> n \<notin> halted \<sigma> \<Longrightarrow>
    \<forall>es. ev = LocalPass es \<longrightarrow> enumerates es (shd \<sigma> n) \<Longrightarrow> taken tx ev \<subseteq># items \<sigma> \<Longrightarrow>
    client_step ev c (shd \<sigma> n) = Some (c', sh', out) \<Longrightarrow>
    cluster_step \<sigma> (\<sigma>\<lparr>shd := (shd \<sigma>)(n := sh'), orphans := orphans \<sigma> - {#c#} + {#c'#},
      items := items \<sigma> - taken tx ev + client_items n out,
      history := history \<sigma> \<union> pass_log n tx (client_pc c) (client_pc c') \<union> told_log tx out\<rparr>)"
| stop: "cluster_step \<sigma> (\<sigma>\<lparr>halted := insert n (halted \<sigma>)\<rparr>)"

text \<open>
  A handler finds its channel closed (\<open>handler_closed\<close>) when the server task has dropped its entry
  and all that was sent to it has been received. An orphan has lost its entry to another handler:
  it may still take what was sent to it before, or find its channel closed. The last rule is a
  process that is killed, or that exits since the connection to another one was lost. At the
  start, the nodes of the cluster are running and connected to each other.
\<close>

definition cluster_init :: "NodeId set \<Rightarrow> Cluster \<Rightarrow> bool" where
  "cluster_init nodes \<sigma> \<longleftrightarrow>
     (\<forall>n. \<exists>pool ids. srv \<sigma> n = server_start n pool ids \<and> distinct pool \<and> set pool = nodes - {n} \<and>
        distinct ids \<and> set ids = nodes) \<and>
     (\<forall>n. shd \<sigma> n = shard_new n) \<and> hdl \<sigma> = Map.empty \<and> items \<sigma> = {#} \<and> halted \<sigma> = - nodes \<and>
     history \<sigma> = {} \<and> orphans \<sigma> = {#} \<and> reused \<sigma> = {}"

section \<open>What a step leaves alone\<close>

definition flight :: "TransactionId \<Rightarrow> Cluster \<Rightarrow> item multiset" where
  "flight tx \<sigma> = {#x \<in># items \<sigma>. item_tx x = tx#}"

definition entries :: "TransactionId \<Rightarrow> Cluster \<Rightarrow> log_entry set" where
  "entries tx \<sigma> = {e \<in> history \<sigma>. entry_tx e = tx}"

lemma effect_items_append [simp]: "effect_items n (es @ es') = effect_items n es + effect_items n es'"
  by (induction n es rule: effect_items.induct) auto

lemma effect_items_or_exit [simp]: "effect_items n (or_exit r) = effect_items n (fst r)"
  by (simp add: or_exit_def)

lemma broadcast_to_items: "x \<in># effect_items n (fst (broadcast_to ch ns f)) \<Longrightarrow> \<exists>m \<in> set ns. x = ItemWire n m f"
  by (induction ns) (auto split: if_splits prod.splits)

lemma or_panic_items:
  "x \<in># effect_items n (or_panic r) \<Longrightarrow> \<exists>q. r = Some q \<and> x \<in># effect_items n (fst q)"
  by (auto simp: or_panic_def split: option.splits)

lemma pass_message_items:
  "pass_message ch m f s = Some q \<Longrightarrow> x \<in># effect_items n (fst q) \<Longrightarrow> x = ItemWire n m f"
  by (auto simp: pass_message_def split: if_splits)

lemma pass_to_client_items:
  "pass_to_client ch tx r s = Some q \<Longrightarrow> x \<in># effect_items n (fst q) \<Longrightarrow> x = ItemHandler tx r"
  by (auto simp: pass_to_client_def split: if_splits option.splits)

lemmas item_dests = or_panic_items pass_message_items pass_to_client_items broadcast_to_items

lemma two_phase_items:
  "x \<in># effect_items n (fst (handle_two_phase_commit ch tx st s)) \<Longrightarrow> item_tx x = tx"
  by (auto simp: handle_two_phase_commit_def Let_def broadcast_def or_panic_def
      split: option.splits CommitStatus.splits if_splits bool.splits
      dest!: pass_to_client_items broadcast_to_items)

lemma serve_step_frame:
  assumes "received n x = Some ev" and "serve_step ch ev s = (out, s')"
  shows "y \<in># effect_items n out \<Longrightarrow> item_tx y = item_tx x"
    and "tx \<noteq> item_tx x \<Longrightarrow> clients s' tx = clients s tx"
proof -
  have "(y \<in># effect_items n out \<longrightarrow> item_tx y = item_tx x) \<and> (tx \<noteq> item_tx x \<longrightarrow> clients s' tx = clients s tx)"
  proof (cases x)
    case (ItemServer m st)
    with assms have st: "handle_client_state ch st s = (out, s')" by (auto split: if_splits)
    show ?thesis
    proof (cases st)
      case (Forward tg t r)
      with st ItemServer show ?thesis
        by (cases tg) (auto simp: broadcast_def dest!: item_dests)
    next
      case (Finished t)
      with st ItemServer show ?thesis by auto
    qed
  next
    case (ItemWire m k f)
    with assms have st: "handle_server_state ch \<lparr>msg = Message f, member_id = m\<rparr> s = (out, s')"
      by (auto split: if_splits)
    show ?thesis
    proof (cases f)
      case (TwoPhaseCommitStatus t v)
      with st ItemWire two_phase_items[of y n ch t v s] handle_two_phase_commit_clients[of ch t v s]
      show ?thesis by (auto split: option.splits)
    qed (use st ItemWire in \<open>auto simp: handle_remote_request_def split: if_splits dest!: item_dests\<close>)
  qed (use assms in auto)
  then show "y \<in># effect_items n out \<Longrightarrow> item_tx y = item_tx x"
    and "tx \<noteq> item_tx x \<Longrightarrow> clients s' tx = clients s tx" by blast+
qed

lemma task_log_tx: "e \<in> task_log n tx t t' \<Longrightarrow> entry_tx e = tx"
  by (auto simp: task_log_def split: shard_task.splits Forwarded.splits)

lemma pass_log_tx: "e \<in> pass_log n tx pc pc' \<Longrightarrow> entry_tx e = tx"
  by (auto simp: pass_log_def split: client_pc.splits)

lemma told_log_tx: "e \<in> told_log tx out \<Longrightarrow> entry_tx e = tx"
  by (induction tx out rule: told_log.induct) auto

section \<open>The phases of a transaction\<close>

fun is_data :: "ClientRequest \<Rightarrow> bool" where
  "is_data (WriteBalance k d) \<longleftrightarrow> True"
| "is_data (ReadBalance k) \<longleftrightarrow> True"
| "is_data _ \<longleftrightarrow> False"

definition data_task :: "TransactionId \<Rightarrow> shard_task \<Rightarrow> bool" where
  "data_task tx t \<longleftrightarrow>
     (case t of
        RemoteWriteRead k d \<Rightarrow> True
      | RemoteWriteWrite k v \<Rightarrow> True
      | RemoteRead k \<Rightarrow> True
      | TaskSend (Response t' r) \<Rightarrow> t' = tx \<and> r \<noteq> CommitOk
      | _ \<Rightarrow> False)"

text \<open>What can be on its way for a transaction with coordinator \<open>c\<close>: a request for data and its answer,\<close>

definition data_item :: "NodeId \<Rightarrow> TransactionId \<Rightarrow> item \<Rightarrow> bool" where
  "data_item c tx x \<longleftrightarrow>
     (case x of
        ItemServer n (Forward (Node m) t r) \<Rightarrow> n = c \<and> t = tx \<and> is_data r
      | ItemWire a b (Request t r) \<Rightarrow> a = c \<and> t = tx \<and> is_data r
      | ItemWire a b (Response t r) \<Rightarrow> b = c \<and> t = tx \<and> r \<noteq> CommitOk
      | ItemTask n m t w k \<Rightarrow> m = c \<and> t = tx \<and> data_task tx k
      | ItemHandler t r \<Rightarrow> t = tx \<and> r \<noteq> CommitOk
      | _ \<Rightarrow> False)"

text \<open>the vote of a node, from the request for it to its arrival,\<close>

definition vote_node :: "item \<Rightarrow> NodeId" where
  "vote_node x = (case x of ItemWire a b (Request t r) \<Rightarrow> b | ItemWire a b f \<Rightarrow> a | ItemTask n s t w k \<Rightarrow> n
     | ItemServer n st \<Rightarrow> n | ItemHandler t r \<Rightarrow> coordinator t)"

definition vote_item :: "log_entry set \<Rightarrow> NodeId \<Rightarrow> TransactionId \<Rightarrow> item \<Rightarrow> bool" where
  "vote_item H c tx x \<longleftrightarrow>
     (case x of
        ItemWire a b (Request t r) \<Rightarrow> a = c \<and> t = tx \<and> r = Commit
      | ItemWire a b (TwoPhaseCommitStatus t st) \<Rightarrow> b = c \<and> t = tx \<and> Voted a tx st \<in> H
      | ItemTask n s t w k \<Rightarrow> s = c \<and> t = tx \<and>
          (k = RemoteCheck \<or> k = TaskPanic \<or>
           (\<exists>st. k = TaskSend (TwoPhaseCommitStatus tx st) \<and> Voted n tx st \<in> H))
      | _ \<Rightarrow> False)"

text \<open>the second phase of a commit, and an abort.\<close>

definition commit_item :: "TransactionId \<Rightarrow> item \<Rightarrow> bool" where
  "commit_item tx x \<longleftrightarrow>
     (case x of
        ItemServer n (Finished t) \<Rightarrow> t = tx
      | ItemWire a b (DoCommit t) \<Rightarrow> t = tx
      | ItemTask n s t w k \<Rightarrow> t = tx \<and> (k = RemoteCommit \<or> k = TaskPanic \<or> (\<exists>l. k = TaskPrint l))
      | ItemHandler t r \<Rightarrow> t = tx \<and> r = CommitOk
      | _ \<Rightarrow> False)"

definition abort_item :: "TransactionId \<Rightarrow> item \<Rightarrow> bool" where
  "abort_item tx x \<longleftrightarrow>
     (case x of
        ItemServer n (Finished t) \<Rightarrow> t = tx
      | ItemServer n (Forward Broadcast t r) \<Rightarrow> t = tx \<and> r = ClientRequest.Abort
      | ItemWire a b (Request t r) \<Rightarrow> t = tx \<and> r = ClientRequest.Abort
      | ItemWire a b (Response t r) \<Rightarrow> t = tx \<and> r = Aborted
      | ItemTask n s t w k \<Rightarrow> t = tx \<and> (k = RemoteAbort \<or> k = TaskSend (Response tx Aborted))
      | ItemHandler t r \<Rightarrow> t = tx \<and> r = Aborted
      | _ \<Rightarrow> False)"

lemmas item_defs = data_item_def vote_item_def commit_item_def abort_item_def data_task_def

definition undecided :: "TransactionId \<Rightarrow> log_entry set \<Rightarrow> bool" where
  "undecided tx H \<longleftrightarrow> (\<forall>n. Applied n tx \<notin> H \<and> Undone n tx \<notin> H) \<and> Told tx CommitOk \<notin> H"

definition quiet_pc :: "client_pc \<Rightarrow> bool" where
  "quiet_pc pc \<longleftrightarrow> (case pc of
     AwaitRequest \<Rightarrow> True | LocalChangeRead k d \<Rightarrow> True | LocalChangeWrite k v \<Rightarrow> True
   | LocalBalance k \<Rightarrow> True | CommitCheck \<Rightarrow> True | _ \<Rightarrow> False)"

definition active :: "NodeId \<Rightarrow> TransactionId \<Rightarrow> client_pc \<Rightarrow> ClientHandle option \<Rightarrow> item multiset \<Rightarrow>
    log_entry set \<Rightarrow> bool" where
  "active c tx pc h F H \<longleftrightarrow> h = Some fresh_handle \<and> undecided tx H \<and>
     (\<forall>x \<in># F. data_item c tx x) \<and> (F = {#} \<and> quiet_pc pc \<or> size F \<le> 1 \<and> pc = AwaitForward)"

definition ballots :: "NodeId \<Rightarrow> NodeId set \<Rightarrow> TransactionId \<Rightarrow> ClientHandle \<Rightarrow> item multiset \<Rightarrow>
    log_entry set \<Rightarrow> NodeId set \<Rightarrow> bool" where
  "ballots c pool tx h F H S \<longleftrightarrow> S \<subseteq> pool \<and> commit_count h = card S \<and>
     (commit_status h = ReadyToCommit \<longrightarrow> (\<forall>m \<in> S. Voted m tx ReadyToCommit \<in> H)) \<and>
     (\<forall>x \<in># F. vote_item H c tx x \<and> vote_node x \<in> pool - S) \<and>
     (\<forall>m. count (image_mset vote_node F) m \<le> 1)"

definition voting :: "NodeId \<Rightarrow> NodeId set \<Rightarrow> TransactionId \<Rightarrow> client_pc \<Rightarrow> ClientHandle option \<Rightarrow>
    item multiset \<Rightarrow> log_entry set \<Rightarrow> bool" where
  "voting c pool tx pc h F H \<longleftrightarrow> pc = CommitWait \<and> undecided tx H \<and> Voted c tx ReadyToCommit \<in> H \<and>
     (F = {#ItemServer c (Forward Broadcast tx Commit)#} \<and> h = Some fresh_handle \<or>
      (\<exists>h' S. h = Some h' \<and> ballots c pool tx h' F H S))"

definition committing :: "NodeId \<Rightarrow> NodeId set \<Rightarrow> TransactionId \<Rightarrow> client_pc \<Rightarrow> item multiset \<Rightarrow>
    log_entry set \<Rightarrow> bool" where
  "committing c pool tx pc F H \<longleftrightarrow> pc \<in> {CommitWait, CommitLocal CommitOk, ClientDone, ClientPanic} \<and>
     (\<forall>m \<in> insert c pool. Voted m tx ReadyToCommit \<in> H) \<and> (\<forall>x \<in># F. commit_item tx x) \<and>
     (\<forall>n. Undone n tx \<notin> H)"

definition aborting :: "TransactionId \<Rightarrow> client_pc \<Rightarrow> item multiset \<Rightarrow> log_entry set \<Rightarrow> bool" where
  "aborting tx pc F H \<longleftrightarrow>
     (case pc of
        CommitWait \<Rightarrow> True | ClientDone \<Rightarrow> True | ClientPanic \<Rightarrow> True
      | AbortLocal r \<Rightarrow> r \<noteq> CommitOk | AbortWait k r \<Rightarrow> r \<noteq> CommitOk | _ \<Rightarrow> False) \<and>
     (\<forall>x \<in># F. abort_item tx x) \<and> (\<forall>n. Applied n tx \<notin> H) \<and> Told tx CommitOk \<notin> H"

definition phase :: "NodeId \<Rightarrow> NodeId set \<Rightarrow> TransactionId \<Rightarrow> client_pc \<Rightarrow> ClientHandle option \<Rightarrow>
    item multiset \<Rightarrow> log_entry set \<Rightarrow> bool" where
  "phase c pool tx pc h F H \<longleftrightarrow> active c tx pc h F H \<or> voting c pool tx pc h F H \<or>
     committing c pool tx pc F H \<or> aborting tx pc F H"

section \<open>Server steps move a transaction along its phases\<close>

lemma broadcast_to_subset:
  "effect_items n (fst (broadcast_to ch ns f)) \<subseteq># mset (map (\<lambda>m. ItemWire n m f) ns)"
  by (induction ns) (auto split: prod.splits)

lemma serve_forward_node:
  assumes "serve_step ch (FromClient (Forward (Node m) tx r)) s = (out, s')"
  shows "effect_items n out \<subseteq># {#ItemWire n m (Request tx r)#}" and "clients s' = clients s"
  using assms by (auto simp: or_panic_def pass_message_def or_exit_def split: if_splits)

lemma serve_forward_all:
  assumes "serve_step ch (FromClient (Forward Broadcast tx r)) s = (out, s')"
  shows "effect_items n out \<subseteq># mset (map (\<lambda>m. ItemWire n m (Request tx r)) (server_pool s))"
    and "clients s' = clients s"
  using assms broadcast_to_subset by (auto simp: broadcast_def)

lemma serve_request:
  assumes "serve_step ch (FromServer \<lparr>msg = Message (Request tx r), member_id = m\<rparr>) s = (out, s')"
  shows "effect_items n out \<subseteq># {#ItemTask n m tx None (remote_task r)#}" and "clients s' = clients s"
  using assms by (auto simp: handle_remote_request_def split: if_splits)

lemma serve_response:
  assumes "serve_step ch (FromServer \<lparr>msg = Message (Response tx r), member_id = m\<rparr>) s = (out, s')"
  shows "effect_items n out \<subseteq># {#ItemHandler tx r#}" and "clients s' = clients s"
  using assms by (auto simp: or_panic_def pass_to_client_def or_exit_def split: if_splits option.splits)

lemma serve_finished:
  assumes "serve_step ch (FromClient (Finished tx)) s = (out, s')"
  shows "effect_items n out = {#}"
  using assms by auto

lemma serve_do_commit:
  assumes "serve_step ch (FromServer \<lparr>msg = Message (DoCommit tx), member_id = m\<rparr>) s = (out, s')"
  shows "effect_items n out = {#ItemTask n n tx None RemoteCommit#}"
  using assms by auto

lemma subset_single: "N \<subseteq># {#y#} \<Longrightarrow> z \<in># N \<Longrightarrow> z = y"
  using mset_subset_eqD by fastforce

lemma replace_all:
  assumes "\<forall>z \<in># F. P z" and "\<And>z. z \<in># N \<Longrightarrow> P z"
  shows "\<forall>z \<in># F - {#x#} + N. P z"
  using assms by (auto dest: in_diffD)

lemma remote_task_data: "is_data r \<Longrightarrow> data_task tx (remote_task r)"
  by (cases r) (auto simp: data_task_def)

lemma serve_data_item:
  assumes "data_item c tx x" and "received n x = Some ev" and "serve_step ch ev s = (out, s')"
  shows "\<exists>y. data_item c tx y \<and> effect_items n out \<subseteq># {#y#} \<and> clients s' = clients s"
proof (cases x)
  case (ItemServer k st)
  with assms(1,2) obtain m r where "st = Forward (Node m) tx r" "k = c" "n = c" "is_data r"
    by (auto simp: data_item_def split: ClientState.splits ForwardTarget.splits if_splits)
  moreover from this assms(2,3) ItemServer
  have st: "serve_step ch (FromClient (Forward (Node m) tx r)) s = (out, s')" by simp
  ultimately show ?thesis using serve_forward_node(1)[OF st, of n] serve_forward_node(2)[OF st]
    by (intro exI[of _ "ItemWire c m (Request tx r)"]) (auto simp: data_item_def)
next
  case (ItemWire a b f)
  with assms(2) have b: "b = n" and ev: "ev = FromServer \<lparr>msg = Message f, member_id = a\<rparr>"
    by (auto split: if_splits)
  show ?thesis
  proof (cases f)
    case (Request t r)
    with assms(1) ItemWire have "a = c" "t = tx" "is_data r" by (auto simp: data_item_def)
    moreover have st: "serve_step ch (FromServer \<lparr>msg = Message (Request t r), member_id = a\<rparr>) s = (out, s')"
      using assms(3) unfolding ev Request .
    ultimately show ?thesis
      using serve_request(1)[OF st, of n] serve_request(2)[OF st] remote_task_data
      by (intro exI[of _ "ItemTask n a tx None (remote_task r)"]) (auto simp: data_item_def)
  next
    case (Response t r)
    with assms(1) ItemWire have "b = c" "t = tx" "r \<noteq> CommitOk" by (auto simp: data_item_def)
    moreover have st: "serve_step ch (FromServer \<lparr>msg = Message (Response t r), member_id = a\<rparr>) s = (out, s')"
      using assms(3) unfolding ev Response .
    ultimately show ?thesis
      using serve_response(1)[OF st, of n] serve_response(2)[OF st]
      by (intro exI[of _ "ItemHandler tx r"]) (auto simp: data_item_def)
  qed (use assms(1) ItemWire in \<open>auto simp: data_item_def\<close>)
qed (use assms(2) in auto)

lemma serve_active:
  assumes "active c tx pc h F H" and "x \<in># F" and "received n x = Some ev"
    and "serve_step ch ev s = (out, s')" and "n = c \<Longrightarrow> h = clients s tx"
  shows "active c tx pc (if n = c then clients s' tx else h) (F - {#x#} + effect_items n out) H"
proof -
  from assms(1,2) have "data_item c tx x" and pc: "pc = AwaitForward" and "size F \<le> 1"
    by (auto simp: active_def)
  then have F: "F - {#x#} = {#}" using assms(2) by (auto dest!: multi_member_split)
  obtain y where y: "data_item c tx y" "effect_items n out \<subseteq># {#y#}" "clients s' = clients s"
    using serve_data_item[OF \<open>data_item c tx x\<close> assms(3,4)] by blast
  then have "size (effect_items n out) \<le> 1" using size_mset_mono[OF y(2)] by simp
  with assms(1,5) F pc y subset_single[OF y(2)] show ?thesis by (auto simp: active_def)
qed

lemma serve_committing:
  assumes "committing c pool tx pc F H" and "x \<in># F" and "received n x = Some ev"
    and "serve_step ch ev s = (out, s')"
  shows "committing c pool tx pc (F - {#x#} + effect_items n out) H"
proof -
  have "commit_item tx x" using assms(1,2) by (simp add: committing_def)
  then have "commit_item tx y" if "y \<in># effect_items n out" for y
    using assms(3,4) that by (cases x) (auto simp: commit_item_def
        split: if_splits ClientState.splits Forwarded.splits)
  with assms(1) replace_all[of F "commit_item tx" "effect_items n out" x] show ?thesis
    unfolding committing_def by blast
qed

lemma abort_item_serve:
  assumes "abort_item tx x" and "received n x = Some ev" and "serve_step ch ev s = (out, s')"
    and "y \<in># effect_items n out"
  shows "abort_item tx y"
proof (cases x)
  case (ItemServer k st)
  with assms show ?thesis
    by (auto simp: abort_item_def broadcast_def split: if_splits ClientState.splits ForwardTarget.splits
        dest!: broadcast_to_items)
next
  case (ItemWire a b f)
  with assms show ?thesis
    by (auto simp: abort_item_def handle_remote_request_def
        split: if_splits Forwarded.splits dest!: or_panic_items pass_to_client_items)
qed (use assms in auto)

lemma serve_aborting:
  assumes "aborting tx pc F H" and "x \<in># F" and "received n x = Some ev"
    and "serve_step ch ev s = (out, s')"
  shows "aborting tx pc (F - {#x#} + effect_items n out) H"
  using assms(1,2) replace_all[of F "abort_item tx" "effect_items n out" x] abort_item_serve[OF _ assms(3,4)]
  unfolding aborting_def by blast

section \<open>Votes\<close>

lemma vote_item_mono: "vote_item H c tx z \<Longrightarrow> H \<subseteq> H' \<Longrightarrow> vote_item H' c tx z"
  by (auto simp: vote_item_def split: item.splits Forwarded.splits)

lemma ballots_replace:
  assumes "ballots c pool tx h F H S" and "x \<in># F" and "N \<subseteq># {#y#}" and "vote_item H' c tx y"
    and "vote_node y = vote_node x" and "H \<subseteq> H'"
  shows "ballots c pool tx h (F - {#x#} + N) H' S"
proof -
  obtain A where F: "F = add_mset x A" using assms(2) by (auto dest: multi_member_split)
  have "image_mset vote_node N \<subseteq># {#vote_node x#}"
    using image_mset_subseteq_mono[OF assms(3), of vote_node] assms(5) by simp
  then have "image_mset vote_node (A + N) \<subseteq># image_mset vote_node F" by (simp add: F)
  then have "count (image_mset vote_node (A + N)) m \<le> 1" for m
    using assms(1) by (meson ballots_def mset_subset_eq_count order_trans)
  moreover have "vote_item H' c tx z" if "z \<in># A" for z
    using that assms(1,6) F vote_item_mono by (auto simp: ballots_def)
  ultimately show ?thesis
    using assms subset_single[OF assms(3)] by (auto simp: ballots_def F)
qed

lemma ballots_count:
  assumes "ballots c pool tx h (add_mset x A) H S" and "finite pool"
    and "commit_count h' = commit_count h + 1"
    and "commit_status h' = ReadyToCommit \<longrightarrow> commit_status h = ReadyToCommit \<and> Voted (vote_node x) tx ReadyToCommit \<in> H"
  shows "ballots c pool tx h' A H (insert (vote_node x) S)"
proof -
  have "count (image_mset vote_node A) (vote_node x) = 0"
    using assms(1) by (auto simp: ballots_def dest!: spec[of _ "vote_node x"])
  then have "vote_node z \<noteq> vote_node x" if "z \<in># A" for z
    using that by (metis count_eq_zero_iff imageI set_image_mset)
  moreover have "vote_node x \<in> pool - S" "finite S"
    using assms(1,2) by (auto simp: ballots_def intro: finite_subset)
  moreover have "count (image_mset vote_node A) m \<le> 1" for m
  proof -
    have "count (image_mset vote_node A) m \<le> count (image_mset vote_node (add_mset x A)) m" by simp
    also have "\<dots> \<le> 1" using assms(1) unfolding ballots_def by blast
    finally show ?thesis .
  qed
  ultimately show ?thesis using assms by (auto simp: ballots_def)
qed

lemma serve_vote:
  assumes "serve_step ch (FromServer \<lparr>msg = Message (TwoPhaseCommitStatus tx st), member_id = m\<rparr>) s = (out, s')"
    and "clients s tx = Some h"
  shows "\<exists>h'. clients s' tx = Some h' \<and> commit_count h' = commit_count h + 1 \<and>
    (commit_status h' = ReadyToCommit \<longleftrightarrow> commit_status h = ReadyToCommit \<and> st = ReadyToCommit) \<and>
    (commit_count h' \<noteq> length (server_pool s) \<longrightarrow> effect_items n out = {#}) \<and>
    (commit_status h' = ReadyToCommit \<longrightarrow> (\<forall>y \<in># effect_items n out. commit_item tx y)) \<and>
    (commit_status h' \<noteq> ReadyToCommit \<longrightarrow> (\<forall>y \<in># effect_items n out. abort_item tx y))"
proof -
  from assms(1) have r: "handle_two_phase_commit ch tx st s = (out, s')" by simp
  define h' where "h' = h\<lparr>commit_count := commit_count h + 1,
    commit_status := if st = CannotCommit then CannotCommit else commit_status h\<rparr>"
  have "clients s' tx = Some h'"
    using handle_two_phase_commit_clients[of ch tx st s] r assms(2) by (simp add: h'_def)
  moreover have "commit_status h' = ReadyToCommit \<longleftrightarrow> commit_status h = ReadyToCommit \<and> st = ReadyToCommit"
    by (cases st; cases "commit_status h") (auto simp: h'_def)
  moreover have "effect_items n out = {#}" if "commit_count h + 1 \<noteq> length (server_pool s)"
    using r assms(2) that by (cases st) (auto simp: handle_two_phase_commit_def Let_def)
  moreover have "commit_item tx y" if "y \<in># effect_items n out" "commit_status h = ReadyToCommit" "st = ReadyToCommit" for y
  proof -
    have "y = ItemHandler tx CommitOk \<or> (\<exists>m. y = ItemWire n m (DoCommit tx))"
      using r assms(2) that by (auto simp: handle_two_phase_commit_def Let_def broadcast_def pass_to_client_def
          split: if_splits dest!: broadcast_to_items)
    then show ?thesis by (auto simp: commit_item_def)
  qed
  moreover have "abort_item tx y" if "y \<in># effect_items n out" "commit_status h \<noteq> ReadyToCommit \<or> st \<noteq> ReadyToCommit" for y
    using r assms(2) that by (cases st; cases "commit_status h")
      (auto simp: handle_two_phase_commit_def Let_def abort_item_def
        split: if_splits dest!: or_panic_items pass_to_client_items)
  ultimately show ?thesis by (intro exI[of _ h']) (auto simp: h'_def)
qed

lemma count_wires: "distinct ns \<Longrightarrow> count (image_mset vote_node (mset (map (\<lambda>m. ItemWire c m (Request tx r)) ns))) k \<le> 1"
  by (simp add: vote_node_def multiset.map_comp comp_def distinct_count_atmost_1)

lemma serve_ballots:
  assumes "ballots c (set (server_pool sc)) tx h F H S" and "distinct (server_pool sc)"
    and "undecided tx H" and "Voted c tx ReadyToCommit \<in> H" and "x \<in># F" and "received n x = Some ev"
    and "serve_step ch ev s = (out, s')" and "n = c \<Longrightarrow> s = sc" and "clients sc tx = Some h"
  shows "phase c (set (server_pool sc)) tx CommitWait (if n = c then clients s' tx else Some h)
    (F - {#x#} + effect_items n out) H"
proof -
  from assms(1,5) have x: "vote_item H c tx x" "vote_node x \<in> set (server_pool sc) - S" by (auto simp: ballots_def)
  then consider (req) "x = ItemWire c n (Request tx Commit)" "ev = FromServer \<lparr>msg = Message (Request tx Commit), member_id = c\<rparr>"
    | (vote) m st where "x = ItemWire m c (TwoPhaseCommitStatus tx st)" "n = c" "Voted m tx st \<in> H"
      "ev = FromServer \<lparr>msg = Message (TwoPhaseCommitStatus tx st), member_id = m\<rparr>"
    using assms(6) by (cases x) (auto simp: vote_item_def split: Forwarded.splits if_splits)
  then show ?thesis
  proof cases
    case req
    note st = serve_request[OF assms(7)[unfolded req(2)]]
    have "ballots c (set (server_pool sc)) tx h (F - {#x#} + effect_items n out) H S"
      by (rule ballots_replace[OF assms(1,5) st(1)[of n]])
        (auto simp: vote_item_def vote_node_def req)
    moreover have "(if n = c then clients s' tx else Some h) = Some h" using st(2) assms(8,9) by auto
    ultimately show ?thesis using assms(3,4) by (auto simp: phase_def voting_def)
  next
    case vote
    obtain A where F: "F = add_mset x A" using assms(5) by (auto dest: multi_member_split)
    have cl: "clients s tx = Some h" using assms(8,9) vote by simp
    obtain h' where h': "clients s' tx = Some h'" "commit_count h' = commit_count h + 1"
      "commit_status h' = ReadyToCommit \<longleftrightarrow> commit_status h = ReadyToCommit \<and> st = ReadyToCommit"
      "commit_count h' \<noteq> length (server_pool s) \<longrightarrow> effect_items n out = {#}"
      "commit_status h' = ReadyToCommit \<longrightarrow> (\<forall>y \<in># effect_items n out. commit_item tx y)"
      "commit_status h' \<noteq> ReadyToCommit \<longrightarrow> (\<forall>y \<in># effect_items n out. abort_item tx y)"
      using serve_vote[OF assms(7)[unfolded vote(4)] cl, of n] by blast
    let ?S = "insert (vote_node x) S"
    have b: "ballots c (set (server_pool sc)) tx h' A H ?S"
      using h'(2,3) vote by (intro ballots_count[OF assms(1)[unfolded F]]) (auto simp: vote_node_def)
    show ?thesis
    proof (cases "commit_count h' = length (server_pool s)")
      case False
      with h' b assms(3,4) F vote show ?thesis by (auto simp: phase_def voting_def)
    next
      case True
      have "?S \<subseteq> set (server_pool sc)" "card ?S = card (set (server_pool sc))"
        using b True assms(2,8) vote by (auto simp: ballots_def distinct_card)
      then have all: "?S = set (server_pool sc)" by (intro card_subset_eq) auto
      with b have "A = {#}" by (auto simp: ballots_def)
      show ?thesis
      proof (cases "commit_status h' = ReadyToCommit")
        case ready: True
        with b all have "\<forall>m \<in> set (server_pool sc). Voted m tx ReadyToCommit \<in> H" by (auto simp: ballots_def)
        with ready h'(5) assms(3,4) F \<open>A = {#}\<close> show ?thesis
          by (auto simp: phase_def committing_def undecided_def)
      next
        case no: False
        with h'(6) assms(3) F \<open>A = {#}\<close> show ?thesis
          by (auto simp: phase_def aborting_def undecided_def)
      qed
    qed
  qed
qed

lemma serve_voting:
  assumes "voting c (set (server_pool sc)) tx pc h F H" and "distinct (server_pool sc)" and "x \<in># F"
    and "received n x = Some ev" and "serve_step ch ev s = (out, s')"
    and "n = c \<Longrightarrow> s = sc" and "h = clients sc tx"
  shows "phase c (set (server_pool sc)) tx pc (if n = c then clients s' tx else h)
    (F - {#x#} + effect_items n out) H"
proof (cases "F = {#ItemServer c (Forward Broadcast tx Commit)#}")
  case True
  with assms(3,4) have x: "x = ItemServer c (Forward Broadcast tx Commit)" "n = c"
    "ev = FromClient (Forward Broadcast tx Commit)" by (auto split: if_splits)
  note st = serve_forward_all[OF assms(5)[unfolded x(3)]]
  have h: "h = Some fresh_handle" using assms(1) True by (auto simp: voting_def ballots_def vote_item_def)
  have sub: "effect_items c out \<subseteq># mset (map (\<lambda>m. ItemWire c m (Request tx Commit)) (server_pool sc))"
    using st(1)[of c] assms(6) x by simp
  have "count (image_mset vote_node (effect_items c out)) m \<le> 1" for m
    using count_wires[OF assms(2), of c tx Commit m] image_mset_subseteq_mono[OF sub, of vote_node]
    by (meson mset_subset_eq_count order_trans)
  moreover have "vote_item H c tx y \<and> vote_node y \<in> set (server_pool sc)" if "y \<in># effect_items c out" for y
    using mset_subset_eqD[OF sub that] by (auto simp: vote_item_def vote_node_def)
  ultimately have "ballots c (set (server_pool sc)) tx fresh_handle (effect_items c out) H {}"
    by (simp add: ballots_def)
  with assms(1,6,7) True x h st(2) show ?thesis by (auto simp: phase_def voting_def)
next
  case False
  with assms(1) obtain h' S where "h = Some h'" "ballots c (set (server_pool sc)) tx h' F H S"
    "pc = CommitWait" "undecided tx H" "Voted c tx ReadyToCommit \<in> H" by (auto simp: voting_def)
  with serve_ballots[of c sc tx h' F H S x n ev ch s out s'] assms(2-7) show ?thesis by auto
qed

lemma serve_phase:
  assumes "phase c (set (server_pool sc)) tx pc h F H" and "distinct (server_pool sc)" and "x \<in># F"
    and "received n x = Some ev" and "serve_step ch ev s = (out, s')"
    and "n = c \<Longrightarrow> s = sc" and "h = clients sc tx"
  shows "phase c (set (server_pool sc)) tx pc (if n = c then clients s' tx else h)
    (F - {#x#} + effect_items n out) H"
proof -
  consider "active c tx pc h F H" | "voting c (set (server_pool sc)) tx pc h F H"
    | "committing c (set (server_pool sc)) tx pc F H" | "aborting tx pc F H"
    using assms(1) unfolding phase_def by blast
  then show ?thesis
  proof cases
    case 1
    with serve_active[OF 1 assms(3-5)] assms(6,7) show ?thesis unfolding phase_def by blast
  next
    case 2
    from serve_voting[OF 2 assms(2-7)] show ?thesis .
  next
    case 3
    with serve_committing[OF 3 assms(3-5)] show ?thesis unfolding phase_def by blast
  next
    case 4
    with serve_aborting[OF 4 assms(3-5)] show ?thesis unfolding phase_def by blast
  qed
qed

section \<open>Task steps\<close>

lemma undecided_Voted [simp]: "undecided tx (H \<union> {Voted n tx st}) \<longleftrightarrow> undecided tx H"
  by (auto simp: undecided_def)

lemma data_task_step:
  assumes "data_task tx t" and "task_step es tx t sh = (t', w', sh')"
  shows "data_task tx t'" and "task_log n tx t t' = {}"
  using assms
  by (auto simp: data_task_def task_log_def split: shard_task.splits prod.splits pass.splits sum.splits
      elim!: after_read.elims after_write.elims after_balance.elims)

lemma check_task_step:
  assumes "task_step es tx RemoteCheck sh = (t', w', sh')"
  shows "t' = RemoteCheck \<or> t' = TaskPanic \<or> (\<exists>st. t' = TaskSend (TwoPhaseCommitStatus tx st))"
  using assms by (auto split: option.splits prod.splits pass.splits result.splits)

lemma commit_task_step:
  assumes "task_step es tx RemoteCommit sh = (t', w', sh')"
  shows "t' = RemoteCommit \<or> t' = TaskPanic \<or> (\<exists>l. t' = TaskPrint l)"
  using assms by (auto split: option.splits prod.splits pass.splits result.splits)

lemma task_voting:
  assumes "voting c pool tx pc h F H" and "ItemTask n m tx w t \<in># F" and "task_step es tx t sh = (t', w', sh')"
  shows "voting c pool tx pc h (F - {#ItemTask n m tx w t#} + {#ItemTask n m tx w' t'#}) (H \<union> task_log n tx t t')"
proof -
  from assms(1,2) obtain h' S where h: "h = Some h'" and b: "ballots c pool tx h' F H S"
    by (auto simp: voting_def)
  have v: "vote_item H c tx (ItemTask n m tx w t)" using b assms(2) by (auto simp: ballots_def)
  have "vote_item (H \<union> task_log n tx t t') c tx (ItemTask n m tx w' t')"
    using v assms(3) check_task_step[of es tx sh t' w' sh'] by (auto simp: vote_item_def task_log_def)
  then have "ballots c pool tx h' (F - {#ItemTask n m tx w t#} + {#ItemTask n m tx w' t'#}) (H \<union> task_log n tx t t') S"
    by (intro ballots_replace[OF b assms(2) subset_mset.order_refl]) (auto simp: vote_node_def)
  moreover have "undecided tx (H \<union> task_log n tx t t') \<longleftrightarrow> undecided tx H"
    using v by (auto simp: vote_item_def task_log_def undecided_def split: shard_task.splits Forwarded.splits)
  ultimately show ?thesis using assms(1) h by (auto simp: voting_def)
qed

lemma task_phase:
  assumes "phase c pool tx pc h F H" and "ItemTask n m tx w t \<in># F" and "task_step es tx t sh = (t', w', sh')"
  shows "phase c pool tx pc h (F - {#ItemTask n m tx w t#} + {#ItemTask n m tx w' t'#}) (H \<union> task_log n tx t t')"
proof -
  let ?F = "F - {#ItemTask n m tx w t#} + {#ItemTask n m tx w' t'#}" and ?H = "H \<union> task_log n tx t t'"
  have sz: "size ?F = size F" using assms(2) by (auto dest!: multi_member_split)
  consider "active c tx pc h F H" | "voting c pool tx pc h F H"
    | "committing c pool tx pc F H" | "aborting tx pc F H"
    using assms(1) unfolding phase_def by blast
  then show ?thesis
  proof cases
    case 1
    then have "data_item c tx (ItemTask n m tx w t)" using assms(2) by (auto simp: active_def)
    then have t: "data_task tx t" "m = c" by (auto simp: data_item_def)
    have "\<forall>z \<in># ?F. data_item c tx z"
      using 1 data_task_step(1)[OF t(1) assms(3)] t(2)
      by (intro replace_all) (auto simp: active_def data_item_def)
    with 1 sz data_task_step(2)[OF t(1) assms(3), of n] assms(2) have "active c tx pc h ?F ?H"
      by (auto simp: active_def)
    then show ?thesis by (simp add: phase_def)
  next
    case 2
    from task_voting[OF 2 assms(2,3)] show ?thesis by (simp add: phase_def)
  next
    case 3
    then have t: "commit_item tx (ItemTask n m tx w t)" using assms(2) by (auto simp: committing_def)
    then have "commit_item tx (ItemTask n m tx w' t')"
      using commit_task_step[of es tx sh t' w' sh'] assms(3) by (auto simp: commit_item_def)
    with 3 have "\<forall>z \<in># ?F. commit_item tx z" by (intro replace_all) (auto simp: committing_def)
    moreover have "Undone k tx \<notin> task_log n tx t t'" for k
      using t by (auto simp: commit_item_def task_log_def)
    ultimately have "committing c pool tx pc ?F ?H" using 3 by (auto simp: committing_def)
    then show ?thesis by (simp add: phase_def)
  next
    case 4
    then have t: "abort_item tx (ItemTask n m tx w t)" using assms(2) by (auto simp: aborting_def)
    then have "abort_item tx (ItemTask n m tx w' t')" using assms(3) by (auto simp: abort_item_def)
    with 4 have "\<forall>z \<in># ?F. abort_item tx z" by (intro replace_all) (auto simp: aborting_def)
    moreover have "Applied k tx \<notin> task_log n tx t t'" "Told tx r \<notin> task_log n tx t t'" for k r
      using t by (auto simp: abort_item_def task_log_def)
    ultimately have "aborting tx pc ?F ?H" using 4 by (auto simp: aborting_def)
    then show ?thesis by (simp add: phase_def)
  qed
qed

lemma task_send_phase:
  assumes "phase c pool tx pc h F H" and "ItemTask n m tx w (TaskSend f) \<in># F" (is "?x \<in># F")
    and "N \<subseteq># {#ItemWire n m f#}"
  shows "phase c pool tx pc h (F - {#?x#} + N) H" and "fwd_tx f = tx"
proof -
  note N = subset_single[OF assms(3)]
  have sz: "size (F - {#?x#} + N) \<le> size F"
    using assms(2) size_mset_mono[OF assms(3)] by (auto dest!: multi_member_split)
  have "phase c pool tx pc h (F - {#?x#} + N) H \<and> fwd_tx f = tx"
  proof -
    consider "active c tx pc h F H" | "voting c pool tx pc h F H"
      | "committing c pool tx pc F H" | "aborting tx pc F H"
      using assms(1) unfolding phase_def by blast
    then show ?thesis
    proof cases
      case 1
      then have "data_item c tx ?x" using assms(2) by (auto simp: active_def)
      then obtain r where f: "f = Response tx r" "r \<noteq> CommitOk" "m = c"
        by (cases f) (auto simp: data_item_def data_task_def)
      have "\<forall>z \<in># F - {#?x#} + N. data_item c tx z"
        using 1 N f by (intro replace_all) (auto simp: active_def data_item_def dest!: N)
      moreover from 1 assms(2) have "size F \<le> 1" "pc = AwaitForward" by (auto simp: active_def)
      ultimately have "active c tx pc h (F - {#?x#} + N) H"
        using 1 order_trans[OF sz] unfolding active_def by blast
      with f show ?thesis by (simp add: phase_def)
    next
      case 2
      from 2 assms(2) obtain h' S where h: "h = Some h'" and b: "ballots c pool tx h' F H S"
        by (auto simp: voting_def)
      have "vote_item H c tx ?x" using b assms(2) by (auto simp: ballots_def)
      then obtain st where f: "f = TwoPhaseCommitStatus tx st" "m = c" "Voted n tx st \<in> H"
        by (auto simp: vote_item_def)
      have "ballots c pool tx h' (F - {#?x#} + N) H S"
        using f by (intro ballots_replace[OF b assms(2,3)]) (auto simp: vote_item_def vote_node_def)
      with 2 h f show ?thesis by (auto simp: phase_def voting_def)
    next
      case 3
      then have "commit_item tx ?x" using assms(2) by (auto simp: committing_def)
      then show ?thesis by (simp add: commit_item_def)
    next
      case 4
      then have "abort_item tx ?x" using assms(2) by (auto simp: aborting_def)
      then have f: "f = Response tx Aborted" by (simp add: abort_item_def)
      have "\<forall>z \<in># F - {#?x#} + N. abort_item tx z"
        using 4 f by (intro replace_all) (auto simp: aborting_def abort_item_def dest!: N)
      with 4 f show ?thesis by (auto simp: phase_def aborting_def)
    qed
  qed
  then show "phase c pool tx pc h (F - {#?x#} + N) H" and "fwd_tx f = tx" by blast+
qed

section \<open>Steps of the client handler\<close>

text \<open>What a handler does to its transaction: its new position, what it sends and what it is on record for.\<close>

lemmas handler_defs = handle_balance_change_request_def handle_balance_request_def respond_def
  finish_with_def abort_loop_def do_abort_def do_commit_def handle_commit_request_def commit_decision_def

lemma local_pass_frame:
  assumes "local_pass es pc c sh = Some (c', sh', out)"
  shows "client_server_id c' = client_server_id c \<and> transaction_id c' = transaction_id c \<and>
    client_shard_ids c' = client_shard_ids c"
  using assms by (cases pc) (auto simp: handler_defs Let_def
      split: prod.splits pass.splits sum.splits if_splits option.splits result.splits)

lemma client_pass:
  "client_step (LocalPass es) c sh = Some r \<Longrightarrow> local_pass es (client_pc c) (c\<lparr>client_wait := None\<rparr>) sh = Some r"
  by (simp split: if_splits)

lemma client_step_frame:
  assumes "client_step ev c sh = Some (c', sh', out)"
  shows "client_server_id c' = client_server_id c \<and> transaction_id c' = transaction_id c \<and>
    client_shard_ids c' = client_shard_ids c"
proof (cases ev)
  case (GotRequest req)
  with assms show ?thesis
    by (cases req) (auto simp: handler_defs split: if_splits TargetShard.splits)
next
  case (GotForward r)
  with assms show ?thesis
    by (auto simp: handler_defs Let_def split: client_pc.splits if_splits ClientResponse.splits)
next
  case (LocalPass es)
  with local_pass_frame[OF client_pass] assms show ?thesis by fastforce
qed (use assms in \<open>auto split: client_pc.splits if_splits\<close>)

lemma handler_request_phase:
  assumes "phase n pool tx (client_pc c) h F H" and "client_step ev c sh = Some (c', sh', out)"
    and "ev = StreamClosed \<or> ev = GotRequest req" and "client_server_id c = n" and "transaction_id c = tx"
  shows "phase n pool tx (client_pc c') h (F + client_items n out) (H \<union> told_log tx out)"
proof -
  have pc: "client_pc c = AwaitRequest" using assms(2,3) by (auto split: if_splits)
  then have act: "active n tx AwaitRequest h F H"
    using assms(1) by (auto simp: phase_def voting_def committing_def aborting_def)
  then have F: "F = {#}" and h: "h = Some fresh_handle" and u: "undecided tx H"
    by (auto simp: active_def)
  show ?thesis
  proof (cases "ev = StreamClosed")
    case True
    with assms(2,5) pc F u show ?thesis
      by (auto simp: phase_def aborting_def abort_item_def undecided_def)
  next
    case False
    with assms(2,3) pc obtain out' where "on_request req c = (c', out)" by (auto split: prod.splits)
    then show ?thesis
      using assms(4,5) F h u
      by (cases req) (auto simp: handle_balance_change_request_def handle_balance_request_def respond_def
          phase_def active_def aborting_def quiet_pc_def undecided_def data_item_def split: TargetShard.splits)
  qed
qed

lemma handler_forward_phase:
  assumes "phase n pool tx (client_pc c) h F H" and "ItemHandler tx r \<in># F" (is "?x \<in># F")
    and "client_step (GotForward r) c sh = Some (c', sh', out)" and "transaction_id c = tx"
  shows "phase n pool tx (client_pc c') h (F - {#ItemHandler tx r#} + client_items n out) (H \<union> told_log tx out)"
proof -
  consider "active n tx (client_pc c) h F H" | "voting n pool tx (client_pc c) h F H"
    | "committing n pool tx (client_pc c) F H" | "aborting tx (client_pc c) F H"
    using assms(1) unfolding phase_def by blast
  then show ?thesis
  proof cases
    case 1
    then have pc: "client_pc c = AwaitForward" and r: "r \<noteq> CommitOk" and F: "F - {#?x#} = {#}"
      using assms(2) by (auto simp: active_def data_item_def dest!: multi_member_split)
    from assms(3) pc have "respond r c = (c', out)" by (auto split: prod.splits)
    with 1 r F show ?thesis
      by (cases "response_is_err r") (auto simp: respond_def phase_def active_def aborting_def
          quiet_pc_def undecided_def)
  next
    case 2
    then have False using assms(2) by (auto simp: voting_def ballots_def vote_item_def)
    then show ?thesis ..
  next
    case 3
    then have r: "r = CommitOk" using assms(2) by (auto simp: committing_def commit_item_def)
    with 3 assms(3) have c': "client_pc c' = CommitLocal CommitOk" "out = []"
      by (auto simp: committing_def commit_decision_def)
    have "\<forall>z \<in># F - {#?x#} + {#}. commit_item tx z" using 3 by (intro replace_all) (auto simp: committing_def)
    with 3 c' show ?thesis by (auto simp: phase_def committing_def)
  next
    case 4
    then have r: "r = Aborted" using assms(2) by (auto simp: aborting_def abort_item_def)
    have all: "\<forall>z \<in># F - {#?x#} + N. abort_item tx z" if "\<And>z. z \<in># N \<Longrightarrow> abort_item tx z" for N
      using 4 that by (intro replace_all) (auto simp: aborting_def)
    have "(case client_pc c' of ClientDone \<Rightarrow> True | AbortLocal r \<Rightarrow> r \<noteq> CommitOk | AbortWait k r \<Rightarrow> r \<noteq> CommitOk
        | _ \<Rightarrow> False) \<and> (\<forall>z \<in># client_items n out. abort_item tx z) \<and> Told tx CommitOk \<notin> told_log tx out"
      using 4 assms(3,4) r by (auto simp: aborting_def commit_decision_def abort_loop_def finish_with_def abort_item_def
          split: client_pc.splits if_splits)
    moreover have "Applied k tx \<notin> told_log tx out" for k using told_log_tx by (induction tx out rule: told_log.induct) auto
    ultimately show ?thesis
      using 4 all[of "client_items n out"] by (auto simp: phase_def aborting_def split: client_pc.splits)
  qed
qed

lemma after_not_commit [simp]: "CommitOk \<noteq> after_write r" "CommitOk \<noteq> after_balance k r'"
  by (cases r rule: after_write.cases; simp) (cases "(k, r')" rule: after_balance.cases; simp)

lemma local_quiet:
  assumes "local_pass es pc c sh = Some (c', sh', out)" and "quiet_pc pc" and "pc \<noteq> CommitCheck"
  shows "pass_log n tx pc pc' = {} \<and> client_items n out = {#} \<and> Told tx CommitOk \<notin> told_log tx out \<and>
    (\<forall>k. Applied k tx \<notin> told_log tx out \<and> Undone k tx \<notin> told_log tx out) \<and>
    (client_pc c' = client_pc c \<or> quiet_pc (client_pc c') \<or> (\<exists>r. client_pc c' = AbortLocal r \<and> r \<noteq> CommitOk))"
  using assms by (cases pc) (auto simp: pass_log_def respond_def quiet_pc_def Let_def
      split: prod.splits pass.splits sum.splits if_splits
      elim!: after_read.elims)

lemma handler_pass_phase:
  assumes "phase n pool tx (client_pc c) h F H" and "client_step (LocalPass es) c sh = Some (c', sh', out)"
    and "client_server_id c = n" and "transaction_id c = tx"
  shows "phase n pool tx (client_pc c') h (F + client_items n out)
    (H \<union> pass_log n tx (client_pc c) (client_pc c') \<union> told_log tx out)"
proof -
  let ?c = "c\<lparr>client_wait := None\<rparr>"
  have lp: "local_pass es (client_pc c) ?c sh = Some (c', sh', out)" using client_pass[OF assms(2)] .
  consider (quiet) "quiet_pc (client_pc c)" "client_pc c \<noteq> CommitCheck" | (check) "client_pc c = CommitCheck"
    | (undo) r where "client_pc c = AbortLocal r" | (commit) r where "client_pc c = CommitLocal r"
    using lp by (cases "client_pc c") (auto simp: quiet_pc_def)
  then show ?thesis
  proof cases
    case quiet
    then have act: "active n tx (client_pc c) h F H"
      using assms(1) by (auto simp: phase_def voting_def committing_def aborting_def quiet_pc_def
          split: client_pc.splits)
    then have "F = {#}" "h = Some fresh_handle" "undecided tx H" using quiet(1) by (auto simp: active_def quiet_pc_def)
    with local_quiet[OF lp quiet, of n tx "client_pc c'"] quiet(1) show ?thesis
      by (auto simp: phase_def active_def aborting_def undecided_def)
  next
    case check
    then have act: "active n tx CommitCheck h F H"
      using assms(1) by (auto simp: phase_def voting_def committing_def aborting_def)
    then have "F = {#}" "h = Some fresh_handle" "undecided tx H" by (auto simp: active_def)
    moreover from lp check have "handle_commit_request es ?c sh = (c', sh', out)" by simp
    then have "client_pc c' = ClientPanic \<and> out = [] \<or> client_pc c' = client_pc c \<and> out = [] \<or>
        client_pc c' = AbortLocal Aborted \<and> out = [] \<or>
        client_pc c' = CommitWait \<and> out = [ToServer (Forward Broadcast tx Commit)]"
      using assms(4) by (auto simp: handle_commit_request_def
          split: option.splits prod.splits pass.splits result.splits)
    ultimately show ?thesis
      using check assms(3) by (elim disjE) (simp_all add: pass_log_def phase_def active_def voting_def
          aborting_def quiet_pc_def undecided_def)
  next
    case undo
    then have ab: "aborting tx (AbortLocal r) F H"
      using assms(1) by (auto simp: phase_def voting_def committing_def active_def quiet_pc_def)
    then show ?thesis
      using lp assms(3,4) undo by (auto simp: do_abort_def abort_loop_def finish_with_def pass_log_def phase_def
          aborting_def abort_item_def split: if_splits)
  next
    case commit
    then have co: "committing n pool tx (CommitLocal r) F H"
      using assms(1) by (auto simp: phase_def voting_def aborting_def active_def quiet_pc_def)
    then show ?thesis
      using lp assms(3,4) commit by (auto simp: do_commit_def finish_with_def pass_log_def phase_def committing_def
          commit_item_def split: option.splits prod.splits pass.splits result.splits)
  qed
qed

section \<open>The invariant of the cluster\<close>

definition tx_ok :: "Cluster \<Rightarrow> TransactionId \<Rightarrow> bool" where
  "tx_ok \<sigma> tx \<longleftrightarrow>
     (case hdl \<sigma> tx of
        None \<Rightarrow> flight tx \<sigma> = {#} \<and> entries tx \<sigma> = {}
      | Some c \<Rightarrow> transaction_id c = tx \<and>
          phase (client_server_id c) (set (server_pool (srv \<sigma> (client_server_id c)))) tx (client_pc c)
            (clients (srv \<sigma> (client_server_id c)) tx) (flight tx \<sigma>) (entries tx \<sigma>))"

text \<open>Everything bears the id of its transaction, reused or not.\<close>

fun tagged :: "item \<Rightarrow> bool" where
  "tagged (ItemTask n m tx w (TaskSend f)) \<longleftrightarrow> fwd_tx f = tx"
| "tagged _ \<longleftrightarrow> True"

definition tags_ok :: "Cluster \<Rightarrow> bool" where
  "tags_ok \<sigma> \<longleftrightarrow> (\<forall>tx c. hdl \<sigma> tx = Some c \<longrightarrow> transaction_id c = tx) \<and>
     (\<forall>c \<in># orphans \<sigma>. transaction_id c \<in> reused \<sigma>) \<and> (\<forall>x \<in># items \<sigma>. tagged x)"

definition cluster_inv :: "NodeId set \<Rightarrow> Cluster \<Rightarrow> bool" where
  "cluster_inv nodes \<sigma> \<longleftrightarrow>
     (\<forall>n. distinct (server_pool (srv \<sigma> n)) \<and> set (server_pool (srv \<sigma> n)) = nodes - {n}) \<and> tags_ok \<sigma> \<and>
     (\<forall>tx. tx \<notin> reused \<sigma> \<longrightarrow> tx_ok \<sigma> tx)"

lemma tx_ok_frame:
  assumes "tx_ok \<sigma> tx" and "hdl \<sigma>' tx = hdl \<sigma> tx" and "flight tx \<sigma>' = flight tx \<sigma>"
    and "entries tx \<sigma>' = entries tx \<sigma>" and "\<And>n. clients (srv \<sigma>' n) tx = clients (srv \<sigma> n) tx"
    and "\<And>n. server_pool (srv \<sigma>' n) = server_pool (srv \<sigma> n)"
  shows "tx_ok \<sigma>' tx"
  using assms by (cases "hdl \<sigma> tx") (simp_all add: tx_ok_def)

lemma filter_same_tx:
  assumes "\<And>y. y \<in># N \<Longrightarrow> item_tx y = t"
  shows "{#y \<in># N. item_tx y = tx#} = (if t = tx then N else {#})"
proof -
  have "{#y \<in># N. item_tx y = tx#} = {#y \<in># N. t = tx#}" using assms by (intro filter_mset_cong) auto
  then show ?thesis by simp
qed

lemma flight_replace:
  assumes "\<And>y. y \<in># N \<Longrightarrow> item_tx y = item_tx x" and "x \<in># items \<sigma>" and "items \<sigma>' = items \<sigma> - {#x#} + N"
  shows "flight tx \<sigma>' = (if item_tx x = tx then flight tx \<sigma> - {#x#} + N else flight tx \<sigma>)"
  using filter_same_tx[of N "item_tx x" tx, OF assms(1)] assms(2,3)
  by (auto simp: flight_def dest!: multi_member_split)

lemma flight_add:
  assumes "\<And>y. y \<in># N \<Longrightarrow> item_tx y = t" and "items \<sigma>' = items \<sigma> + N"
  shows "flight tx \<sigma>' = (if t = tx then flight tx \<sigma> + N else flight tx \<sigma>)"
  using filter_same_tx[of N t tx, OF assms(1)] assms(2) by (simp add: flight_def)

lemma flight_others:
  assumes "\<And>y. y \<in># A \<Longrightarrow> item_tx y \<noteq> tx" and "\<And>y. y \<in># B \<Longrightarrow> item_tx y \<noteq> tx" and "items \<sigma>' = items \<sigma> - A + B"
  shows "flight tx \<sigma>' = flight tx \<sigma>"
proof (rule multiset_eqI)
  fix y
  have "count A y = 0 \<and> count B y = 0" if "item_tx y = tx" using assms(1,2)[of y] that by (auto simp: count_eq_zero_iff)
  then show "count (flight tx \<sigma>') y = count (flight tx \<sigma>) y" by (simp add: flight_def assms(3))
qed

lemma entries_add:
  assumes "\<And>e. e \<in> L \<Longrightarrow> entry_tx e = t" and "history \<sigma>' = history \<sigma> \<union> L"
  shows "entries tx \<sigma>' = (if t = tx then entries tx \<sigma> \<union> L else entries tx \<sigma>)"
  using assms by (auto simp: entries_def)

lemma tx_ok_item:
  assumes "tx_ok \<sigma> tx" and "x \<in># items \<sigma>" and "item_tx x = tx"
  obtains c where "hdl \<sigma> tx = Some c" and "transaction_id c = tx" and "x \<in># flight tx \<sigma>"
    and "phase (client_server_id c) (set (server_pool (srv \<sigma> (client_server_id c)))) tx (client_pc c)
      (clients (srv \<sigma> (client_server_id c)) tx) (flight tx \<sigma>) (entries tx \<sigma>)"
proof -
  have x: "x \<in># flight tx \<sigma>" using assms(2,3) by (simp add: flight_def)
  with assms(1) obtain c where "hdl \<sigma> tx = Some c" by (cases "hdl \<sigma> tx") (auto simp: tx_ok_def)
  with assms(1) x that[of c] show thesis by (simp add: tx_ok_def)
qed

lemma cluster_pools: "cluster_step \<sigma> \<sigma>' \<Longrightarrow> server_pool (srv \<sigma>' n) = server_pool (srv \<sigma> n)"
proof (induction rule: cluster_step.induct)
  case (accept k \<sigma> ch now tx s')
  then show ?case using serve_step_pool[of ch "Accept now" "srv \<sigma> k"] by auto
next
  case (accept_again k \<sigma> ch now tx s' c)
  then show ?case using serve_step_pool[of ch "Accept now" "srv \<sigma> k"] by auto
next
  case (serve k \<sigma> x ev ch out s')
  then show ?case using serve_step_pool[of ch ev "srv \<sigma> k"] by auto
qed auto

lemma accept_ok:
  assumes "serve_step ch (Accept now) s = ([SpawnClient tx], s')"
  shows "clients s' = (clients s)(tx \<mapsto> fresh_handle)"
  using assms by (auto simp: accept_client_def split: prod.splits)

lemma serve_ok:
  assumes "cluster_inv nodes \<sigma>" and "x \<in># items \<sigma>" and "received n x = Some ev"
    and "serve_step ch ev (srv \<sigma> n) = (out, s')" and "srv \<sigma>' = (srv \<sigma>)(n := s')" and "hdl \<sigma>' = hdl \<sigma>"
    and "items \<sigma>' = items \<sigma> - {#x#} + effect_items n out" and "history \<sigma>' = history \<sigma>" and "tx \<notin> reused \<sigma>"
  shows "tx_ok \<sigma>' tx"
proof -
  note frame = serve_step_frame[OF assms(3,4)]
  have ok: "tx_ok \<sigma> tx" and dist: "distinct (server_pool (srv \<sigma> m))" for m
    using assms(1,9) by (auto simp: cluster_inv_def)
  have pool: "server_pool (srv \<sigma>' m) = server_pool (srv \<sigma> m)" for m
    using serve_step_pool[of ch ev "srv \<sigma> n"] assms(4,5) by auto
  note fl = flight_replace[OF frame(1) assms(2,7)]
  have en: "entries tx \<sigma>' = entries tx \<sigma>" using assms(8) by (simp add: entries_def)
  show ?thesis
  proof (cases "item_tx x = tx")
    case True
    obtain c where c: "hdl \<sigma> tx = Some c" "transaction_id c = tx" "x \<in># flight tx \<sigma>"
      "phase (client_server_id c) (set (server_pool (srv \<sigma> (client_server_id c)))) tx (client_pc c)
        (clients (srv \<sigma> (client_server_id c)) tx) (flight tx \<sigma>) (entries tx \<sigma>)"
      using tx_ok_item[OF ok assms(2) True] .
    have "phase (client_server_id c) (set (server_pool (srv \<sigma> (client_server_id c)))) tx (client_pc c)
        (if n = client_server_id c then clients s' tx else clients (srv \<sigma> (client_server_id c)) tx)
        (flight tx \<sigma> - {#x#} + effect_items n out) (entries tx \<sigma>)"
      using serve_phase[OF c(4) dist c(3) assms(3,4)] by blast
    moreover have "clients (srv \<sigma>' (client_server_id c)) tx =
        (if n = client_server_id c then clients s' tx else clients (srv \<sigma> (client_server_id c)) tx)"
      using assms(5) by auto
    ultimately show ?thesis using c(1,2) True fl[of tx] en pool assms(6) by (simp add: tx_ok_def)
  next
    case False
    then show ?thesis
      using assms(5,6) frame(2)[of tx] fl[of tx] en pool by (intro tx_ok_frame[OF ok]) auto
  qed
qed

lemma local_pass_items:
  assumes "local_pass es pc c sh = Some (c', sh', out)" and "y \<in># client_items n out"
  shows "item_tx y = transaction_id c"
  using assms by (cases pc) (auto simp: handler_defs Let_def
      split: prod.splits pass.splits sum.splits if_splits option.splits result.splits)

lemma client_step_items:
  assumes "client_step ev c sh = Some (c', sh', out)" and "y \<in># client_items n out"
  shows "item_tx y = transaction_id c"
proof (cases ev)
  case (GotRequest req)
  with assms show ?thesis
    by (cases req) (auto simp: handler_defs split: if_splits TargetShard.splits)
next
  case (GotForward r)
  with assms show ?thesis
    by (auto simp: handler_defs Let_def split: client_pc.splits if_splits ClientResponse.splits)
next
  case (LocalPass es)
  with local_pass_items[OF client_pass] assms show ?thesis by fastforce
qed (use assms in \<open>auto split: client_pc.splits if_splits\<close>)

text \<open>A step of a task, or of a handler, as a change of its own transaction.\<close>

lemma task_item_ok:
  assumes "cluster_inv nodes \<sigma>" and "x \<in># items \<sigma>" and "item_tx x = t"
    and "items \<sigma>' = items \<sigma> - {#x#} + N" and "\<And>y. y \<in># N \<Longrightarrow> item_tx y = t"
    and "history \<sigma>' = history \<sigma> \<union> L" and "\<And>e. e \<in> L \<Longrightarrow> entry_tx e = t"
    and "srv \<sigma>' = srv \<sigma>" and "hdl \<sigma>' = hdl \<sigma>"
    and "\<And>c pool pc h F H. phase c pool t pc h F H \<Longrightarrow> x \<in># F \<Longrightarrow> phase c pool t pc h (F - {#x#} + N) (H \<union> L)"
    and "tx \<notin> reused \<sigma>"
  shows "tx_ok \<sigma>' tx"
proof -
  have ok: "tx_ok \<sigma> tx" using assms(1,11) by (simp add: cluster_inv_def)
  have N: "\<And>y. y \<in># N \<Longrightarrow> item_tx y = item_tx x" using assms(3,5) by simp
  have fl: "flight tx \<sigma>' = (if t = tx then flight tx \<sigma> - {#x#} + N else flight tx \<sigma>)"
    using flight_replace[OF N assms(2,4), of tx] assms(3) by simp
  have en: "entries tx \<sigma>' = (if t = tx then entries tx \<sigma> \<union> L else entries tx \<sigma>)"
    by (rule entries_add[OF assms(7,6)])
  show ?thesis
  proof (cases "t = tx")
    case True
    obtain c where "hdl \<sigma> tx = Some c" "transaction_id c = tx" "x \<in># flight tx \<sigma>"
      "phase (client_server_id c) (set (server_pool (srv \<sigma> (client_server_id c)))) tx (client_pc c)
        (clients (srv \<sigma> (client_server_id c)) tx) (flight tx \<sigma>) (entries tx \<sigma>)"
      using tx_ok_item[OF ok assms(2)] True assms(3) by blast
    with True fl en assms(8-10) show ?thesis by (simp add: tx_ok_def)
  next
    case False
    then show ?thesis using fl en assms(8,9) by (intro tx_ok_frame[OF ok]) auto
  qed
qed

lemma handler_ok:
  assumes "cluster_inv nodes \<sigma>" and "hdl \<sigma> t = Some c" and "hdl \<sigma>' = (hdl \<sigma>)(t \<mapsto> c')"
    and "srv \<sigma>' = srv \<sigma>" and "history \<sigma>' = history \<sigma> \<union> L" and "\<And>e. e \<in> L \<Longrightarrow> entry_tx e = t"
    and "client_server_id c' = client_server_id c \<and> transaction_id c' = transaction_id c"
    and "\<And>tx. flight tx \<sigma>' = (if t = tx then F' else flight tx \<sigma>)"
    and "\<And>pool h H. phase (client_server_id c) pool t (client_pc c) h (flight t \<sigma>) H \<Longrightarrow> transaction_id c = t \<Longrightarrow>
      phase (client_server_id c) pool t (client_pc c') h F' (H \<union> L)"
    and "tx \<notin> reused \<sigma>"
  shows "tx_ok \<sigma>' tx"
proof -
  have ok: "tx_ok \<sigma> tx" using assms(1,10) by (simp add: cluster_inv_def)
  have en: "entries tx \<sigma>' = (if t = tx then entries tx \<sigma> \<union> L else entries tx \<sigma>)"
    by (rule entries_add[OF assms(6,5)])
  show ?thesis
  proof (cases "t = tx")
    case True
    with ok assms(2) have "transaction_id c = t"
      "phase (client_server_id c) (set (server_pool (srv \<sigma> (client_server_id c)))) t (client_pc c)
        (clients (srv \<sigma> (client_server_id c)) t) (flight t \<sigma>) (entries t \<sigma>)" by (auto simp: tx_ok_def)
    with True en assms(3,4,7-9) show ?thesis by (simp add: tx_ok_def)
  next
    case False
    then show ?thesis using en assms(3,4,8) by (intro tx_ok_frame[OF ok]) auto
  qed
qed

lemma accept_tx_ok:
  assumes "cluster_inv nodes \<sigma>" and "serve_step ch (Accept now) (srv \<sigma> n) = ([SpawnClient t], s')"
    and "hdl \<sigma> t = None \<or> t \<noteq> tx" and "srv \<sigma>' = (srv \<sigma>)(n := s')"
    and "hdl \<sigma>' = (hdl \<sigma>)(t \<mapsto> Client_new n t ids)" and "items \<sigma>' = items \<sigma>" and "history \<sigma>' = history \<sigma>"
    and "tx \<notin> reused \<sigma>"
  shows "tx_ok \<sigma>' tx"
proof -
  have ok: "tx_ok \<sigma> tx" using assms(1,8) by (simp add: cluster_inv_def)
  have same: "flight s \<sigma>' = flight s \<sigma>" "entries s \<sigma>' = entries s \<sigma>" for s
    using assms(6,7) by (simp_all add: flight_def entries_def)
  note cl = accept_ok[OF assms(2)]
  show ?thesis
  proof (cases "tx = t")
    case True
    with ok assms(3) have "flight t \<sigma> = {#}" "entries t \<sigma> = {}" by (auto simp: tx_ok_def)
    with True same cl assms(4,5) show ?thesis
      by (simp add: tx_ok_def Client_new_def phase_def active_def quiet_pc_def undecided_def)
  next
    case False
    have "server_pool (srv \<sigma>' m) = server_pool (srv \<sigma> m)" for m
      using serve_step_pool[of ch "Accept now" "srv \<sigma> n"] assms(2,4) by auto
    with False same cl assms(4,5) show ?thesis by (intro tx_ok_frame[OF ok]) auto
  qed
qed

lemma handler_closed_phase:
  assumes "phase n pool tx (client_pc c) None F H" and "client_step ForwardClosed c sh = Some (c', sh', out)"
  shows "phase n pool tx (client_pc c') None F H"
proof -
  have "client_pc c' = ClientPanic" using assms(2) by (auto split: client_pc.splits)
  with assms(1) show ?thesis
    by (auto simp: phase_def active_def voting_def committing_def aborting_def split: client_pc.splits)
qed

lemma cluster_step_tx_ok:
  assumes "cluster_step \<sigma> \<sigma>'" and "cluster_inv nodes \<sigma>" and "tx \<notin> reused \<sigma>'"
  shows "tx_ok \<sigma>' tx"
  using assms
proof (induction rule: cluster_step.induct)
  case (accept n \<sigma> ch now t s')
  then show ?case by (intro accept_tx_ok[OF accept(4,2)]) auto
next
  case (accept_again n \<sigma> ch now t s' c)
  then show ?case by (intro accept_tx_ok[OF accept_again(4,2)]) auto
next
  case (serve n \<sigma> x ev ch out s')
  then show ?case by (intro serve_ok[OF serve(5,2,3,4)]) simp_all
next
  case (task n \<sigma> m t w k es k' w' sh')
  then show ?case
    using task_phase[OF _ _ task(5), of _ _ _ _ _ _ n m w]
    by (intro task_item_ok[OF task(6,2), where t = t and N = "{#ItemTask n m t w' k'#}" and L = "task_log n t k k'"])
      (auto simp: task_log_tx)
next
  case (task_send n \<sigma> m t w f)
  then have "fwd_tx f = t" by (auto simp: cluster_inv_def tags_ok_def)
  with task_send show ?case
    using task_send_phase(1)[OF _ _ subset_mset.order_refl, of _ _ t _ _ _ _ n m w f]
    by (intro task_item_ok[OF task_send(3,2), where t = t and N = "{#ItemWire n m f#}" and L = "{}"]) auto
next
  case (task_lost n \<sigma> m t w f)
  then show ?case
    using task_send_phase(1)[OF _ _ empty_le, of _ _ t _ _ _ _ n m w f]
    by (intro task_item_ok[OF task_lost(3,2), where t = t and N = "{#}" and L = "{}"]) auto
next
  case (handler_request \<sigma> t c n ev c' sh' out req)
  note fr = client_step_frame[OF handler_request(4)] and it = client_step_items[OF handler_request(4)]
  have id: "transaction_id c = t" using handler_request(1,6) by (auto simp: cluster_inv_def tags_ok_def)
  show ?case
    using handler_request(2,4,5,7) it id
    by (intro handler_ok[OF handler_request(6,1), where c' = c' and L = "told_log t out" and F' = "flight t \<sigma> + client_items n out"])
      (auto simp: fr told_log_tx flight_add[of "client_items n out" t]
        simp del: client_step.simps intro: handler_request_phase)
next
  case (handler_forward \<sigma> t c n r c' sh' out)
  note fr = client_step_frame[OF handler_forward(5)] and it = client_step_items[OF handler_forward(5)]
  have id: "transaction_id c = t" using handler_forward(1,6) by (auto simp: cluster_inv_def tags_ok_def)
  have mem: "ItemHandler t r \<in># flight t \<sigma>" using handler_forward(4) by (simp add: flight_def)
  show ?case
    using handler_forward(2,4,7) it id handler_forward_phase[OF _ mem handler_forward(5) id, of n]
    by (intro handler_ok[OF handler_forward(6,1), where c' = c' and L = "told_log t out"
          and F' = "flight t \<sigma> - {#ItemHandler t r#} + client_items n out"])
      (auto simp: fr told_log_tx flight_replace[of "client_items n out" "ItemHandler t r"] )
next
  case (handler_pass \<sigma> t c n es c' sh' out)
  note fr = client_step_frame[OF handler_pass(5)] and it = client_step_items[OF handler_pass(5)]
  have id: "transaction_id c = t" using handler_pass(1,6) by (auto simp: cluster_inv_def tags_ok_def)
  show ?case
    using handler_pass(2,5,7) it id handler_pass_phase[OF _ handler_pass(5,2) id]
    by (intro handler_ok[OF handler_pass(6,1), where c' = c' and F' = "flight t \<sigma> + client_items n out"
          and L = "pass_log n t (client_pc c) (client_pc c') \<union> told_log t out"])
      (auto simp: fr told_log_tx pass_log_tx flight_add[of "client_items n out" t] Un_assoc[symmetric]
        simp del: client_step.simps)
next
  case (handler_closed \<sigma> t c n c' sh' out)
  have ok: "tx_ok \<sigma> tx" using handler_closed(7,8) by (simp add: cluster_inv_def)
  show ?case
  proof (cases "t = tx")
    case True
    with ok handler_closed(1,2,4) have "transaction_id c = tx"
      and "phase n (set (server_pool (srv \<sigma> n))) tx (client_pc c) None (flight tx \<sigma>) (entries tx \<sigma>)"
      by (auto simp: tx_ok_def)
    with handler_closed_phase[OF this(2) handler_closed(6)] client_step_frame[OF handler_closed(6)] True handler_closed(2,4)
    show ?thesis by (auto simp: tx_ok_def flight_def entries_def)
  next
    case False
    then show ?thesis by (intro tx_ok_frame[OF ok]) (auto simp: flight_def entries_def)
  qed
next
  case (orphan c \<sigma> n t ev c' sh' out)
  have "t \<in> reused \<sigma>" using orphan(1,3,8) by (auto simp: cluster_inv_def tags_ok_def)
  then have t: "t \<noteq> tx" using orphan(9) by auto
  have "item_tx y \<noteq> tx" if "y \<in># taken t ev" for y using that t by (cases ev) auto
  moreover have "item_tx y \<noteq> tx" if "y \<in># client_items n out" for y
    using client_step_items[OF orphan(7) that] orphan(3) t by simp
  ultimately have fl: "flight tx (\<sigma>\<lparr>shd := S, orphans := O', items := items \<sigma> - taken t ev + client_items n out,
      history := H\<rparr>) = flight tx \<sigma>" for S O' H by (intro flight_others) auto
  have L: "entry_tx e = t" if "e \<in> pass_log n t (client_pc c) (client_pc c') \<union> told_log t out" for e
    using that pass_log_tx told_log_tx by blast
  have en: "entries tx (\<sigma>\<lparr>shd := S, orphans := O', items := I,
      history := history \<sigma> \<union> (pass_log n t (client_pc c) (client_pc c') \<union> told_log t out)\<rparr>) = entries tx \<sigma>" for S O' I
    using L t by (auto simp: entries_def)
  have "tx_ok \<sigma> tx" using orphan(8,9) by (simp add: cluster_inv_def)
  then show ?case by (rule tx_ok_frame) (simp_all add: fl en t Un_assoc)
next
  case (stop \<sigma> n)
  then have "tx_ok \<sigma> tx" by (simp add: cluster_inv_def)
  then show ?case by (simp add: tx_ok_def flight_def entries_def split: option.splits)
qed

lemma effects_tagged: "y \<in># effect_items n out \<Longrightarrow> tagged y"
proof (induction n out rule: effect_items.induct)
  case (4 n m tx req es)
  then show ?case by (cases req) auto
qed auto

lemma client_tagged: "y \<in># client_items n out \<Longrightarrow> tagged y"
  by (induction n out rule: client_items.induct) auto

lemma task_step_tagged:
  assumes "task_step es tx t sh = (t', w', sh')" and "tagged (ItemTask n m tx w t)"
  shows "tagged (ItemTask n m tx w' t')"
  using assms by (auto elim!: task_step.elims split: prod.splits pass.splits sum.splits option.splits result.splits)

lemma cluster_step_tags:
  assumes "cluster_step \<sigma> \<sigma>'" and "tags_ok \<sigma>"
  shows "tags_ok \<sigma>'"
  using assms
proof (induction rule: cluster_step.induct)
  case (task n \<sigma> m t w k es k' w' sh')
  with task_step_tagged[OF task(5), of n m w] show ?case by (auto simp: tags_ok_def dest: in_diffD)
next
  case (orphan c \<sigma> n t ev c' sh' out)
  have "\<forall>y \<in># items \<sigma> - taken t ev + client_items n out. tagged y"
    using orphan(8) client_tagged by (auto simp: tags_ok_def dest: in_diffD)
  with orphan(1,3,8) client_step_frame[OF orphan(7)] show ?case by (auto simp: tags_ok_def dest: in_diffD)
next
  case (serve n \<sigma> x ev ch out s')
  then have "\<forall>y \<in># items \<sigma>. tagged y" by (simp add: tags_ok_def)
  from replace_all[OF this effects_tagged] serve(5) show ?case by (simp add: tags_ok_def)
next
  case (handler_request \<sigma> t c n ev c' sh' out req)
  with client_step_frame[OF handler_request(4)] client_tagged show ?case by (auto simp: tags_ok_def)
next
  case (handler_forward \<sigma> t c n r c' sh' out)
  then have "\<forall>y \<in># items \<sigma>. tagged y" by (simp add: tags_ok_def)
  from replace_all[OF this client_tagged] handler_forward(1,6) client_step_frame[OF handler_forward(5)]
  show ?case by (simp add: tags_ok_def)
next
  case (handler_pass \<sigma> t c n es c' sh' out)
  with client_step_frame[OF handler_pass(5)] client_tagged show ?case by (auto simp: tags_ok_def)
next
  case (handler_closed \<sigma> t c n c' sh' out)
  with client_step_frame[OF handler_closed(6)] show ?case by (auto simp: tags_ok_def)
qed (auto simp: tags_ok_def Client_new_def dest: in_diffD)

interpretation cluster: step_invariant "cluster_init nodes" cluster_step "cluster_inv nodes" for nodes
proof unfold_locales
  fix \<sigma>
  assume i: "cluster_init nodes \<sigma>"
  have "distinct (server_pool (srv \<sigma> n)) \<and> set (server_pool (srv \<sigma> n)) = nodes - {n}" for n
  proof -
    obtain pool ids where "srv \<sigma> n = server_start n pool ids" "distinct pool" "set pool = nodes - {n}"
      using i unfolding cluster_init_def by blast
    then show ?thesis by (simp add: server_start_def)
  qed
  then show "cluster_inv nodes \<sigma>"
    using i by (auto simp: cluster_init_def cluster_inv_def tags_ok_def tx_ok_def flight_def entries_def)
next
  fix \<sigma> \<sigma>'
  assume "cluster_inv nodes \<sigma>" and "cluster_step \<sigma> \<sigma>'"
  then show "cluster_inv nodes \<sigma>'"
    using cluster_step_tx_ok cluster_pools cluster_step_tags by (auto simp: cluster_inv_def)
qed

lemma phase_outcome:
  assumes "phase c pool tx pc h F H" and "Applied n tx \<in> H \<or> Told tx CommitOk \<in> H"
  shows "committing c pool tx pc F H"
  using assms by (auto simp: phase_def active_def voting_def aborting_def undecided_def)

lemma outcome_committing:
  assumes "reach (cluster_init nodes) cluster_step \<sigma>"
    and "Applied n tx \<in> history \<sigma> \<or> Told tx CommitOk \<in> history \<sigma>" and "tx \<notin> reused \<sigma>"
  obtains c :: Client where "committing (client_server_id c) (nodes - {client_server_id c}) tx (client_pc c)
    (flight tx \<sigma>) (entries tx \<sigma>)"
proof -
  have inv: "cluster_inv nodes \<sigma>" using assms(1) by (rule cluster.reach_inv)
  then have ok: "tx_ok \<sigma> tx" using assms(3) by (simp add: cluster_inv_def)
  have e: "Applied n tx \<in> entries tx \<sigma> \<or> Told tx CommitOk \<in> entries tx \<sigma>"
    using assms(2) by (simp add: entries_def)
  then obtain c where c: "hdl \<sigma> tx = Some c" using ok by (cases "hdl \<sigma> tx") (auto simp: tx_ok_def)
  from ok c have "phase (client_server_id c) (set (server_pool (srv \<sigma> (client_server_id c)))) tx (client_pc c)
      (clients (srv \<sigma> (client_server_id c)) tx) (flight tx \<sigma>) (entries tx \<sigma>)" by (simp add: tx_ok_def)
  from phase_outcome[OF this e] that[of c] inv show thesis by (simp add: cluster_inv_def)
qed

section \<open>Atomic commitment\<close>

text \<open>
  C1. Agreement: in every reachable state of the cluster, whatever the interleaving of all tasks,
  the order of delivery and the nodes that have stopped, if a transaction has been applied on
  any shard, or its client has been told that it committed, then no shard has undone it. The id of
  the transaction must not have been issued twice.
\<close>

theorem cluster_agreement:
  assumes "reach (cluster_init nodes) cluster_step \<sigma>"
    and "Applied n tx \<in> history \<sigma> \<or> Told tx CommitOk \<in> history \<sigma>" and "tx \<notin> reused \<sigma>"
  shows "Undone m tx \<notin> history \<sigma>"
proof -
  obtain c :: Client where "committing (client_server_id c) (nodes - {client_server_id c}) tx (client_pc c)
      (flight tx \<sigma>) (entries tx \<sigma>)"
    using outcome_committing[OF assms] .
  then show ?thesis by (simp add: committing_def entries_def)
qed

text \<open>
  C2. Validity: in every reachable state, if a transaction has been applied on any shard, or its
  client has been told that it committed, then every node of the cluster, the coordinator
  included, has checked it successfully and voted for it. The id of the transaction must not
  have been issued twice.
\<close>

theorem cluster_validity:
  assumes "reach (cluster_init nodes) cluster_step \<sigma>"
    and "Applied n tx \<in> history \<sigma> \<or> Told tx CommitOk \<in> history \<sigma>" and "m \<in> nodes" and "tx \<notin> reused \<sigma>"
  shows "Voted m tx ReadyToCommit \<in> history \<sigma>"
proof -
  obtain c :: Client where "committing (client_server_id c) (nodes - {client_server_id c}) tx (client_pc c)
      (flight tx \<sigma>) (entries tx \<sigma>)"
    using outcome_committing[OF assms(1,2,4)] .
  with assms(3) show ?thesis by (auto simp: committing_def entries_def)
qed

section \<open>A cluster of two nodes that commits\<close>

abbreviation demo_tx :: TransactionId where
  "demo_tx \<equiv> ClockTransactionId 5 CHR ''A''"

abbreviation demo_ch :: channels where
  "demo_ch \<equiv> \<lparr>server_open = \<lambda>_. True, client_open = \<lambda>_. True\<rparr>"

definition demo_server :: "NodeId \<Rightarrow> Server" where
  "demo_server n = server_start n (filter (\<lambda>m. m \<noteq> n) ''AB'') ''AB''"

definition demo_server_at :: "nat \<Rightarrow> Server" where
  "demo_server_at k = (demo_server CHR ''A'')\<lparr>id_gen := snd (next_id 5 (new_generator CHR ''A'')),
     clients := [demo_tx \<mapsto> \<lparr>commit_count = k, commit_status = ReadyToCommit\<rparr>]\<rparr>"

definition demo_at :: "AtomicShard \<Rightarrow> nat \<Rightarrow> client_pc \<Rightarrow> item multiset \<Rightarrow> log_entry set \<Rightarrow> Cluster" where
  "demo_at sh k pc I H =
     \<lparr>srv = demo_server(CHR ''A'' := demo_server_at k), shd = shard_new(CHR ''A'' := sh),
      hdl = [demo_tx \<mapsto> (Client_new CHR ''A'' demo_tx ''AB'')\<lparr>client_pc := pc\<rparr>],
      items = I, halted = - {CHR ''A'', CHR ''B''}, history = H, orphans = {#}, reused = {}\<rparr>"

definition demo_start :: Cluster where
  "demo_start = \<lparr>srv = demo_server, shd = shard_new, hdl = Map.empty, items = {#}, halted = - {CHR ''A'', CHR ''B''},
     history = {}, orphans = {#}, reused = {}\<rparr>"

lemmas demo_defs = demo_at_def demo_server_at_def demo_server_def server_start_def Client_new_def

lemma demo_init: "cluster_init {CHR ''A'', CHR ''B''} demo_start"
proof -
  have "\<exists>pool ids. demo_server n = server_start n pool ids \<and> distinct pool \<and>
      set pool = {CHR ''A'', CHR ''B''} - {n} \<and> distinct ids \<and> set ids = {CHR ''A'', CHR ''B''}" for n
    unfolding demo_server_def by (intro exI[of _ "filter (\<lambda>m. m \<noteq> n) ''AB''"] exI[of _ "''AB''"]) auto
  then show ?thesis by (simp add: cluster_init_def demo_start_def)
qed

lemma demo_accept: "cluster_step demo_start (demo_at (shard_new CHR ''A'') 0 AwaitRequest {#} {})"
proof -
  have "serve_step demo_ch (Accept 5) (srv demo_start CHR ''A'') = ([SpawnClient demo_tx], demo_server_at 0)"
    by (simp add: demo_start_def demo_server_at_def demo_server_def server_start_def accept_client_def
        next_id_def new_generator_def Let_def)
  from cluster_step.accept[OF _ this] show ?thesis
    by (simp add: demo_start_def demo_at_def demo_server_at_def demo_server_def server_start_def Client_new_def)
qed

lemma demo_serve_A:
  assumes "received CHR ''A'' x = Some ev" and "serve_step demo_ch ev (demo_server_at k) = (out, demo_server_at k')"
    and "ExitProcess \<notin> set out \<and> Panic \<notin> set out" and "N = effect_items CHR ''A'' out"
  shows "cluster_step (demo_at sh k pc (add_mset x I) H) (demo_at sh k' pc (I + N) H)"
  using cluster_step.serve[of "CHR ''A''" "demo_at sh k pc (add_mset x I) H" x ev demo_ch out "demo_server_at k'"] assms
  by (simp add: demo_at_def)

lemma demo_serve_B:
  assumes "received CHR ''B'' x = Some ev" and "serve_step demo_ch ev (demo_server CHR ''B'') = (out, demo_server CHR ''B'')"
    and "ExitProcess \<notin> set out \<and> Panic \<notin> set out" and "N = effect_items CHR ''B'' out"
  shows "cluster_step (demo_at sh k pc (add_mset x I) H) (demo_at sh k pc (I + N) H)"
proof -
  have "(demo_server(CHR ''A'' := demo_server_at k))(CHR ''B'' := demo_server CHR ''B'') =
      demo_server(CHR ''A'' := demo_server_at k)" by auto
  then show ?thesis
    using cluster_step.serve[of "CHR ''B''" "demo_at sh k pc (add_mset x I) H" x ev demo_ch out "demo_server CHR ''B''"] assms
    by (simp add: demo_at_def)
qed

lemma demo_task:
  assumes "task_step [] demo_tx t (shard_new CHR ''B'') = (t', None, shard_new CHR ''B'')"
  shows "cluster_step (demo_at sh k pc (add_mset (ItemTask CHR ''B'' m demo_tx None t) I) H)
    (demo_at sh k pc (add_mset (ItemTask CHR ''B'' m demo_tx None t') I) (H \<union> task_log CHR ''B'' demo_tx t t'))"
  using cluster_step.task[of "CHR ''B''" "demo_at sh k pc (add_mset (ItemTask CHR ''B'' m demo_tx None t) I) H"
      m demo_tx None t "[]" t' None "shard_new CHR ''B''"] assms
  by (simp add: demo_at_def resumed_def enumerates_def shard_new_def fun_upd_idem)

abbreviation demo_client :: "client_pc \<Rightarrow> Client" where
  "demo_client pc \<equiv> (Client_new CHR ''A'' demo_tx ''AB'')\<lparr>client_pc := pc\<rparr>"

lemma demo_ask:
  assumes "client_step (GotRequest req) (demo_client AwaitRequest) sh = Some (demo_client pc', sh, [])"
  shows "cluster_step (demo_at sh k AwaitRequest {#} H) (demo_at sh k pc' {#} H)"
  using cluster_step.handler_request[of "demo_at sh k AwaitRequest {#} H" demo_tx "demo_client AwaitRequest" "CHR ''A''"
      "GotRequest req" "demo_client pc'" sh "[]" req] assms
  by (simp add: demo_at_def Client_new_def del: client_step.simps)

lemma demo_pass:
  assumes "client_step (LocalPass es) (demo_client pc) sh = Some (demo_client pc', sh', out)" and "enumerates es sh"
    and "N = client_items CHR ''A'' out" and "H' = H \<union> pass_log CHR ''A'' demo_tx pc pc' \<union> told_log demo_tx out"
  shows "cluster_step (demo_at sh k pc I H) (demo_at sh' k pc' (I + N) H')"
  using cluster_step.handler_pass[of "demo_at sh k pc I H" demo_tx "demo_client pc" "CHR ''A''" es
      "demo_client pc'" sh' out] assms
  by (simp add: demo_at_def Client_new_def del: client_step.simps)

lemma demo_check_ok:
  assumes "check_commit_pass es demo_tx sh = Some (Return (Ok ()), sh)" and "enumerates es sh"
  shows "cluster_step (demo_at sh k CommitCheck {#} H)
    (demo_at sh k CommitWait {#ItemServer CHR ''A'' (Forward Broadcast demo_tx Commit)#}
      (insert (Voted CHR ''A'' demo_tx ReadyToCommit) H))"
  using assms by (intro demo_pass[where out = "[ToServer (Forward Broadcast demo_tx Commit)]" and I = "{#}" and es = es,
        simplified]) (simp_all add: handle_commit_request_def Client_new_def pass_log_def)

lemma demo_commit_ask: "cluster_step (demo_at sh k AwaitRequest {#} H) (demo_at sh k CommitCheck {#} H)"
  by (rule demo_ask[where req = Commit]) simp

lemma demo_vote:
  "reach (cluster_init {CHR ''A'', CHR ''B''}) cluster_step
     (demo_at (shard_new CHR ''A'') 0 CommitWait {#ItemServer CHR ''A'' (Forward Broadcast demo_tx Commit)#}
        {Voted CHR ''A'' demo_tx ReadyToCommit})"
proof -
  have "check_commit_pass [] demo_tx (shard_new CHR ''A'') = Some (Return (Ok ()), shard_new CHR ''A'')"
    by (simp add: check_commit_pass_def shard_check_commit_pass_def)
  from demo_check_ok[OF this] show ?thesis
    using reach_init[of "cluster_init {CHR ''A'', CHR ''B''}", OF demo_init] demo_accept demo_commit_ask
    by (simp add: enumerates_def shard_new_def) (meson reach_step)
qed

lemma demo_reply:
  "cluster_step (demo_at sh k pc (add_mset (ItemTask CHR ''B'' m demo_tx None (TaskSend f)) I) H)
    (demo_at sh k pc (add_mset (ItemWire CHR ''B'' m f) I) H)"
  using cluster_step.task_send[of "CHR ''B''" "demo_at sh k pc (add_mset (ItemTask CHR ''B'' m demo_tx None (TaskSend f)) I) H"
      m demo_tx None f]
  by (simp add: demo_at_def)

lemma demo_request:
  "cluster_step (demo_at sh 0 pc {#ItemServer CHR ''A'' (Forward Broadcast demo_tx Commit)#} H)
     (demo_at sh 0 pc {#ItemWire CHR ''A'' CHR ''B'' (Request demo_tx Commit)#} H)"
  using demo_serve_A[of "ItemServer CHR ''A'' (Forward Broadcast demo_tx Commit)" _ 0
      "[SendServer CHR ''B'' (Request demo_tx Commit)]" 0 _ sh pc "{#}" H]
  by (simp add: demo_server_at_def demo_server_def server_start_def broadcast_def or_exit_def)

lemma demo_spawn:
  "cluster_step (demo_at sh k pc {#ItemWire CHR ''A'' CHR ''B'' (Request demo_tx Commit)#} H)
     (demo_at sh k pc {#ItemTask CHR ''B'' CHR ''A'' demo_tx None RemoteCheck#} H)"
  using demo_serve_B[of "ItemWire CHR ''A'' CHR ''B'' (Request demo_tx Commit)" _
      "[SpawnRemote CHR ''A'' demo_tx Commit]" _ sh k pc "{#}" H]
  by (simp add: demo_server_def server_start_def handle_remote_request_def)

lemma demo_check:
  "cluster_step (demo_at sh k pc {#ItemTask CHR ''B'' CHR ''A'' demo_tx None RemoteCheck#} H)
     (demo_at sh k pc {#ItemTask CHR ''B'' CHR ''A'' demo_tx None (TaskSend (TwoPhaseCommitStatus demo_tx ReadyToCommit))#}
       (H \<union> {Voted CHR ''B'' demo_tx ReadyToCommit}))"
  using demo_task[of RemoteCheck "TaskSend (TwoPhaseCommitStatus demo_tx ReadyToCommit)" sh k pc "CHR ''A''" "{#}" H]
  by (simp add: check_commit_pass_def shard_check_commit_pass_def task_log_def)

lemma demo_decide:
  "cluster_step (demo_at sh 0 pc {#ItemWire CHR ''B'' CHR ''A'' (TwoPhaseCommitStatus demo_tx ReadyToCommit)#} H)
     (demo_at sh 1 pc {#ItemHandler demo_tx CommitOk, ItemWire CHR ''A'' CHR ''B'' (DoCommit demo_tx)#} H)"
  using demo_serve_A[of "ItemWire CHR ''B'' CHR ''A'' (TwoPhaseCommitStatus demo_tx ReadyToCommit)" _ 0
      "[SendClient demo_tx CommitOk, SendServer CHR ''B'' (DoCommit demo_tx)]" 1 _ sh pc "{#}" H]
  by (simp add: demo_server_at_def demo_server_def server_start_def handle_two_phase_commit_def Let_def
      pass_to_client_def broadcast_def or_exit_def)

lemma demo_order:
  "cluster_step (demo_at sh k pc {#ItemHandler demo_tx CommitOk, ItemWire CHR ''A'' CHR ''B'' (DoCommit demo_tx)#} H)
     (demo_at sh k pc {#ItemTask CHR ''B'' CHR ''B'' demo_tx None RemoteCommit, ItemHandler demo_tx CommitOk#} H)"
  using demo_serve_B[of "ItemWire CHR ''A'' CHR ''B'' (DoCommit demo_tx)" _ "[SpawnCommit demo_tx]" _ sh k pc
      "{#ItemHandler demo_tx CommitOk#}" H]
  by (simp add: add_mset_commute)

lemma demo_apply:
  "cluster_step (demo_at sh k pc {#ItemTask CHR ''B'' CHR ''B'' demo_tx None RemoteCommit, ItemHandler demo_tx CommitOk#} H)
     (demo_at sh k pc {#ItemTask CHR ''B'' CHR ''B'' demo_tx None (TaskPrint None), ItemHandler demo_tx CommitOk#}
       (H \<union> {Applied CHR ''B'' demo_tx}))"
  using demo_task[of RemoteCommit "TaskPrint None" sh k pc "CHR ''B''" "{#ItemHandler demo_tx CommitOk#}" H]
  by (simp add: commit_pass_def shard_commit_pass_def shard_new_def task_log_def format_commit_result_def
      notify_and_remove_def)

lemma demo_round:
  assumes "reach (cluster_init {CHR ''A'', CHR ''B''}) cluster_step
     (demo_at sh 0 CommitWait {#ItemServer CHR ''A'' (Forward Broadcast demo_tx Commit)#} H)"
  shows "reach (cluster_init {CHR ''A'', CHR ''B''}) cluster_step
     (demo_at sh 1 CommitWait
       {#ItemTask CHR ''B'' CHR ''B'' demo_tx None (TaskPrint None), ItemHandler demo_tx CommitOk#}
       (H \<union> {Voted CHR ''B'' demo_tx ReadyToCommit} \<union> {Applied CHR ''B'' demo_tx}))"
  by (rule reach_step, rule reach_step, rule reach_step, rule reach_step,
      rule reach_step, rule reach_step, rule reach_step, rule assms)
    (rule demo_request demo_spawn demo_check demo_reply demo_decide demo_order demo_apply)+

lemmas demo_commit = demo_round[OF demo_vote]

theorem cluster_agreement_witness:
  "\<exists>\<sigma>. reach (cluster_init {CHR ''A'', CHR ''B''}) cluster_step \<sigma> \<and>
     Applied CHR ''B'' demo_tx \<in> history \<sigma> \<and> Undone CHR ''A'' demo_tx \<notin> history \<sigma>"
  using cluster_agreement[OF demo_commit, of "CHR ''B''" demo_tx "CHR ''A''"] demo_commit
  by (intro exI conjI) (auto simp: demo_at_def)

theorem cluster_validity_witness:
  "\<exists>\<sigma>. reach (cluster_init {CHR ''A'', CHR ''B''}) cluster_step \<sigma> \<and>
     Applied CHR ''B'' demo_tx \<in> history \<sigma> \<and> Voted CHR ''A'' demo_tx ReadyToCommit \<in> history \<sigma>"
  using cluster_validity[OF demo_commit, of "CHR ''B''" demo_tx "CHR ''A''"] demo_commit
  by (intro exI conjI) (auto simp: demo_at_def)

end
