(* ===== verification/Pool_Start.thy ===== *)
theory Pool_Start
  imports Pool Message_Stream Cluster
begin

text \<open>
  From the configuration to a running cluster: the connection pool builder
  (tx-server/src/pool/builder.rs) with its handshakes over message streams and its time limit, and
  \<open>Server::start\<close> (tx-server/src/coordinator/mod.rs). Binding the listener, connecting with
  retries and the moments at which connections come up are arguments. The result ties the
  start-up to the model of the cluster: servers that were all started from one configuration are
  an initial state of the cluster.
\<close>

section \<open>Opening a connection\<close>

datatype Handshake = Handshake NodeId

datatype 's dial_result = DialExit | DialDelivered "'s MessageStream" NodeId | DialLost

text \<open>
  \<open>connect_to_node\<close>, given how the retried connection attempt ended and whether the receiver of
  the stream is still there. A handshake that cannot be sent is only logged.
\<close>

definition connect_to_node :: "(Handshake \<Rightarrow> ('bytes, 'b) result) \<Rightarrow> ('bytes \<Rightarrow> 's \<Rightarrow> (unit, 'io) result \<times> 's) \<Rightarrow>
    ('t \<Rightarrow> 's) \<Rightarrow> ('t, 'io) result \<Rightarrow> bool \<Rightarrow> NodeId \<Rightarrow> NodeId \<Rightarrow> 's dial_result" where
  "connect_to_node ser fs new_framed connected receiver_open this_node node =
     (case connected of
        Ok tcp \<Rightarrow>
          let st = from_tcp_stream new_framed tcp;
              (_, st') = stream_send ser fs (Handshake this_node) st
          in if receiver_open then DialDelivered st' node else DialLost
      | Err _ \<Rightarrow> DialExit)"

text \<open>What accepting a connection sees of the handshake.\<close>

definition recv_handshake :: "('bytes \<Rightarrow> (Handshake, 'b) result) \<Rightarrow> ('s \<Rightarrow> ('bytes, 'io) result option \<times> 's) \<Rightarrow>
    's MessageStream \<Rightarrow> handshake" where
  "recv_handshake des fn st =
     (case fst (stream_recv des fn st) of
        Some (Ok (Handshake n)) \<Rightarrow> Hello n
      | Some (Err _) \<Rightarrow> BadHello
      | None \<Rightarrow> NoHello)"

section \<open>The builder\<close>

record ConnectionPoolBuilder =
  builder_group :: "NodeId list"
  builder_node_id :: NodeId
  timeout_secs :: "nat option"
  builder_config :: Config

record ConnectionPool =
  pool_group :: "NodeId list"
  pool_node_id :: NodeId

definition CONNECTION_POOL_INIT_TIMEOUT_SECS :: nat where
  "CONNECTION_POOL_INIT_TIMEOUT_SECS = 60"

text \<open>\<open>new\<close>: a missing configuration entry panics (\<open>None\<close>), a port that cannot be bound is an error.\<close>

definition builder_new :: "(u16 \<Rightarrow> (unit, 'io) result) \<Rightarrow> Config \<Rightarrow> NodeId \<Rightarrow> (ConnectionPoolBuilder, 'io) result option" where
  "builder_new bind config n =
     (case config n of
        None \<Rightarrow> None
      | Some node_config \<Rightarrow>
          Some (map_ok (\<lambda>_. \<lparr>builder_group = [], builder_node_id = n, timeout_secs = None, builder_config = config\<rparr>)
                  (bind (port node_config))))"

definition with_timeout :: "nat \<Rightarrow> ConnectionPoolBuilder \<Rightarrow> ConnectionPoolBuilder" where
  "with_timeout seconds b = b\<lparr>timeout_secs := Some seconds\<rparr>"

definition connect_inner :: "pool_event list \<Rightarrow> ConnectionPoolBuilder \<Rightarrow> NodeId list option option" where
  "connect_inner evs b =
     (case dial_targets (builder_config b) (builder_node_id b) of
        None \<Rightarrow> None
      | Some _ \<Rightarrow> Some (connect_loop (card (dom (builder_config b))) evs (builder_group b)))"

datatype Elapsed = Elapsed

text \<open>\<open>connect\<close>: each event with the time in seconds at which it comes; the limit cuts them off.\<close>

definition connect :: "(nat \<times> pool_event) list \<Rightarrow> ConnectionPoolBuilder \<Rightarrow> (ConnectionPool, Elapsed) result option" where
  "connect evs b =
     (let time_limit = (case timeout_secs b of None \<Rightarrow> CONNECTION_POOL_INIT_TIMEOUT_SECS | Some s \<Rightarrow> s);
          seen = map snd (takeWhile (\<lambda>(t, _). t < time_limit) evs)
      in case connect_inner seen b of
           None \<Rightarrow> None
         | Some None \<Rightarrow> Some (Err Elapsed)
         | Some (Some g) \<Rightarrow> Some (Ok \<lparr>pool_group = g, pool_node_id = builder_node_id b\<rparr>))"

section \<open>Starting a server\<close>

datatype start_outcome = StartPanic | StartExit string | Started Server

text \<open>
  \<open>ids\<close> is the order in which the keys of the configuration are listed, \<open>show_io\<close> the text of an
  error of the operating system.
\<close>

definition start :: "('io \<Rightarrow> string) \<Rightarrow> (u16 \<Rightarrow> (unit, 'io) result) \<Rightarrow> NodeId list \<Rightarrow> (nat \<times> pool_event) list \<Rightarrow>
    NodeId \<Rightarrow> Config \<Rightarrow> nat \<Rightarrow> start_outcome" where
  "start show_io bind ids evs n config timeout =
     (case builder_new bind config n of
        None \<Rightarrow> StartPanic
      | Some (Err e) \<Rightarrow> StartExit (''Unable to construct connection pool: '' @ show_io e)
      | Some (Ok b) \<Rightarrow>
          (case connect evs (with_timeout timeout b) of
             None \<Rightarrow> StartPanic
           | Some (Err _) \<Rightarrow>
               StartExit (''Failed to connect to all nodes within '' @ show_nat timeout @ ''s... Stopping.'')
           | Some (Ok p) \<Rightarrow> Started (server_start n (pool_group p) ids)))"

text \<open>The connections of a node have all come up: the ones it opens, and one from each node after it.\<close>

definition connections_up :: "Config \<Rightarrow> NodeId \<Rightarrow> pool_event list \<Rightarrow> bool" where
  "connections_up config n evs \<longleftrightarrow>
     distinct (admitted evs) \<and>
     set (admitted evs) = set (connection_list (the (config n))) \<union>
       {m. \<exists>cm. config m = Some cm \<and> n \<in> set (connection_list cm)} \<and>
     Accepted BadHello \<notin> set evs \<and> Accepted NoHello \<notin> set evs"

lemma dial_targets_of_Some: "\<forall>m \<in> set ns. m \<in> dom config \<Longrightarrow> dial_targets_of config ns \<noteq> None"
  by (induction ns) auto

lemma start_connects:
  assumes "parse_config (Ok (reads_of contents)) = Some (Ok config)" and "distinct (node_names (lines_of contents))"
    and "1 < card (dom config)" and "config n = Some cn" and "bind (port cn) = Ok ()"
    and "\<forall>(t, e) \<in> set evs. t < T" and "connections_up config n (map snd evs)"
  shows "\<exists>g. start show_io bind ids evs n config T = Started (server_start n g ids) \<and>
    distinct g \<and> set g = dom config - {n}"
proof -
  note inv = parse_config_inv[OF assms(1,2)]
  have up: "distinct (admitted (map snd evs))"
    "set (admitted (map snd evs)) = set (connection_list cn) \<union>
      {m. \<exists>cm. config m = Some cm \<and> n \<in> set (connection_list cm)}"
    "Accepted BadHello \<notin> set (map snd evs)" "Accepted NoHello \<notin> set (map snd evs)"
    using assms(4,7) by (simp_all add: connections_up_def)
  obtain g where g: "connect_loop (card (dom config)) (map snd evs) [] = Some g" "set g = dom config - {n}" "distinct g"
    using pool_complete[OF assms(1,2,4,3) up] by blast
  have "set (connection_list cn) \<subseteq> dom config"
    using config_inv_pairs[OF inv assms(2) assms(4,4)] inv assms(4) by (auto simp: config_inv_def in_set_conv_nth dest: in_set_takeD)
  then have "dial_targets config n \<noteq> None"
    using assms(4) dial_targets_of_Some[of "connection_list cn" config] by (auto simp: dial_targets_def)
  moreover have "takeWhile (\<lambda>(t, _). t < T) evs = evs" using assms(6) by (auto simp: takeWhile_eq_all_conv)
  ultimately show ?thesis
    using assms(4,5) g by (auto simp: start_def builder_new_def with_timeout_def connect_def connect_inner_def
        simp del: takeWhile_eq_all_conv)
qed

lemma started_cluster:
  assumes "\<And>n. n \<in> nodes \<Longrightarrow> \<exists>g. server n = server_start n g (ids n) \<and> distinct g \<and> set g = nodes - {n}"
    and "\<And>n. n \<in> nodes \<Longrightarrow> distinct (ids n) \<and> set (ids n) = nodes" and "finite nodes"
  shows "\<exists>\<sigma>. cluster_init nodes \<sigma> \<and> (\<forall>n \<in> nodes. srv \<sigma> n = server n)"
proof -
  obtain ns where ns: "set ns = nodes" "distinct ns" using finite_distinct_list[OF assms(3)] by blast
  let ?srv = "\<lambda>n. if n \<in> nodes then server n else server_start n ns ns"
  have "\<exists>pool l. ?srv n = server_start n pool l \<and> distinct pool \<and> set pool = nodes - {n} \<and> distinct l \<and> set l = nodes" for n
    using assms(1,2)[of n] ns by (cases "n \<in> nodes") fastforce+
  then have "cluster_init nodes \<lparr>srv = ?srv, shd = shard_new, hdl = Map.empty, items = {#}, halted = - nodes, history = {}, orphans = {#}, reused = {}\<rparr>"
    by (simp add: cluster_init_def)
  then show ?thesis by (intro exI conjI) (assumption, simp)
qed

text \<open>
  C29. The start-up makes a cluster: when the nodes of one configuration with at least two distinct
  names are started, each can bind its port, and all their connections come up within the time
  limit, in any order, then every \<open>Server::start\<close> returns, and the servers are an initial state
  of the cluster, connected to each other and to nobody else.
\<close>

theorem start_makes_cluster:
  assumes "parse_config (Ok (reads_of contents)) = Some (Ok config)" and "distinct (node_names (lines_of contents))"
    and "1 < card (dom config)"
    and "\<forall>n \<in> dom config. bind n (port (the (config n))) = Ok () \<and> (\<forall>(t, e) \<in> set (evs n). t < T) \<and>
      connections_up config n (map snd (evs n)) \<and> distinct (ids n) \<and> set (ids n) = dom config"
  shows "\<exists>\<sigma>. cluster_init (dom config) \<sigma> \<and>
    (\<forall>n \<in> dom config. start show_io (bind n) (ids n) (evs n) n config T = Started (srv \<sigma> n))"
proof -
  have "\<exists>g. start show_io (bind n) (ids n) (evs n) n config T = Started (server_start n g (ids n)) \<and>
      distinct g \<and> set g = dom config - {n}" if "n \<in> dom config" for n
    using that start_connects[OF assms(1-3), of n "the (config n)" "bind n" "evs n" T show_io "ids n"] assms(4)
    by (auto simp: domIff)
  then obtain g where g: "\<And>n. n \<in> dom config \<Longrightarrow>
      start show_io (bind n) (ids n) (evs n) n config T = Started (server_start n (g n) (ids n)) \<and>
      distinct (g n) \<and> set (g n) = dom config - {n}" by metis
  have "finite (dom config)" using assms(3) by (metis card.infinite not_less_zero)
  with started_cluster[of "dom config" "\<lambda>n. server_start n (g n) (ids n)" ids] g assms(4)
  obtain \<sigma> where "cluster_init (dom config) \<sigma>" "\<forall>n \<in> dom config. srv \<sigma> n = server_start n (g n) (ids n)" by blast
  with g show ?thesis by (intro exI[of _ \<sigma>]) simp
qed

lemma demo_config:
  obtains config ca cb where "parse_config (Ok (reads_of (concat (map render_node demo_nodes)))) = Some (Ok config)"
    and "dom config = {CHR ''A'', CHR ''B''}" and "config CHR ''A'' = Some ca" and "config CHR ''B'' = Some cb"
    and "connection_list ca = []" and "connection_list cb = [CHR ''A'']"
proof -
  let ?text = "concat (map render_node demo_nodes)"
  obtain config where c: "parse_config (Ok (reads_of ?text)) = Some (Ok config)" and d: "dom config = set (map fst demo_nodes)"
    using parse_config_round_trip_demo by blast
  have names: "node_names (lines_of ?text) = map fst demo_nodes" by (rule demo_names)
  then have dist: "distinct (node_names (lines_of ?text))" by simp
  from d have "CHR ''A'' \<in> dom config" "CHR ''B'' \<in> dom config" by simp_all
  then obtain ca cb where ab: "config CHR ''A'' = Some ca" "config CHR ''B'' = Some cb" by (meson domD)
  have inv: "config_inv config (map fst demo_nodes)" using parse_config_inv[OF c dist] names by simp
  note at = conjunct2[OF inv[unfolded config_inv_def], rule_format]
  have "connection_list ca = []" "connection_list cb = [CHR ''A'']" using at[of 0] at[of 1] ab by simp_all
  with c d ab that show thesis by simp
qed

theorem start_makes_cluster_witness:
  "\<exists>config \<sigma>. parse_config (Ok (reads_of (concat (map render_node demo_nodes)))) = Some (Ok config) \<and>
     cluster_init {CHR ''A'', CHR ''B''} \<sigma> \<and>
     start (\<lambda>_ :: string. []) (\<lambda>_. Ok ()) ''AB'' [(2, Accepted (Hello CHR ''B''))] CHR ''A'' config 60 = Started (srv \<sigma> CHR ''A'')"
proof -
  obtain config ca cb where c: "parse_config (Ok (reads_of (concat (map render_node demo_nodes)))) = Some (Ok config)"
    and d: "dom config = {CHR ''A'', CHR ''B''}" and ab: "config CHR ''A'' = Some ca" "config CHR ''B'' = Some cb"
    and l: "connection_list ca = []" "connection_list cb = [CHR ''A'']" by (rule demo_config)
  have dist: "distinct (node_names (lines_of (concat (map render_node demo_nodes))))" using demo_names by simp
  let ?evs = "\<lambda>n. if n = CHR ''A'' then [(2, Accepted (Hello CHR ''B''))] else [(1 :: nat, Dialed CHR ''A'')]"
  have only: "m = CHR ''A'' \<and> cm = ca \<or> m = CHR ''B'' \<and> cm = cb" if "config m = Some cm" for m cm
    using that ab d by (metis domI insertE option.inject singletonD)
  have peers: "{m. \<exists>cm. config m = Some cm \<and> CHR ''A'' \<in> set (connection_list cm)} = {CHR ''B''}"
    "{m. \<exists>cm. config m = Some cm \<and> CHR ''B'' \<in> set (connection_list cm)} = {}"
    using only ab l by fastforce+
  have two: "1 < card (dom config)" using d by simp
  have up: "\<forall>n \<in> dom config. (\<lambda>_ _. Ok ()) n (port (the (config n))) = Ok () \<and> (\<forall>(t, e) \<in> set (?evs n). t < 60) \<and>
      connections_up config n (map snd (?evs n)) \<and> distinct ((\<lambda>_. ''AB'') n) \<and> set ((\<lambda>_. ''AB'') n) = dom config"
    using ab l peers by (auto simp: d connections_up_def)
  from start_makes_cluster[OF c dist two up, of "\<lambda>_ :: string. []"]
  obtain \<sigma> where \<sigma>: "cluster_init (dom config) \<sigma>"
    "\<forall>n \<in> dom config. start (\<lambda>_ :: string. []) (\<lambda>_. Ok ()) ''AB'' (?evs n) n config 60 = Started (srv \<sigma> n)"
    by (elim exE conjE)
  from \<sigma>(2)[rule_format, of "CHR ''A''"] \<sigma>(1) c d show ?thesis by (intro exI[of _ config] exI[of _ \<sigma>]) simp
qed

end
