(* ===== verification/Cluster_Safety.thy ===== *)
theory Cluster_Safety
  imports Cluster
begin

text \<open>
  No part of the cluster panics, and no transaction waits for a message that nobody is going to
  send. Both rest on counting answers: everything on its way owes its transaction a number of
  answers, and the position of the client handler says how many are due. The steps of the
  cluster are first projected on one transaction.
\<close>

section \<open>The cluster as one transaction sees it\<close>

text \<open>The handler, its entry at the server task of its node, and what is on its way.\<close>

type_synonym tx_view = "Client \<times> ClientHandle option \<times> item multiset"

definition view :: "Cluster \<Rightarrow> TransactionId \<Rightarrow> Client \<Rightarrow> tx_view" where
  "view \<sigma> tx c = (c, clients (srv \<sigma> (client_server_id c)) tx, flight tx \<sigma>)"

text \<open>
  What a step of the cluster does to a transaction. The flag says that no message was lost in the
  step and no process ended.
\<close>

inductive tx_step :: "NodeId set \<Rightarrow> TransactionId \<Rightarrow> bool \<Rightarrow> tx_view \<Rightarrow> tx_view \<Rightarrow> bool"
  for nodes :: "NodeId set" and tx :: TransactionId
where
  tx_serve: "x \<in># F \<Longrightarrow> item_tx x = tx \<Longrightarrow> received n x = Some ev \<Longrightarrow> serve_step ch ev s = (out, s') \<Longrightarrow>
    distinct (server_pool s) \<Longrightarrow> set (server_pool s) = nodes - {n} \<Longrightarrow>
    n = client_server_id c \<longrightarrow> h = clients s tx \<Longrightarrow>
    h' = (if n = client_server_id c then clients s' tx else h) \<Longrightarrow>
    tx_step nodes tx (ExitProcess \<notin> set out \<and> Panic \<notin> set out) (c, h, F) (c, h', F - {#x#} + effect_items n out)"
| tx_task: "ItemTask n m tx w t \<in># F \<Longrightarrow> task_step es tx t sh = (t', w', sh') \<Longrightarrow> t' \<noteq> TaskPanic \<or> t = TaskPanic \<Longrightarrow>
    tx_step nodes tx True (c, h, F) (c, h, F - {#ItemTask n m tx w t#} + {#ItemTask n m tx w' t'#})"
| tx_send: "ItemTask n m tx w (TaskSend f) \<in># F \<Longrightarrow> N \<subseteq># {#ItemWire n m f#} \<Longrightarrow>
    tx_step nodes tx (N \<noteq> {#}) (c, h, F) (c, h, F - {#ItemTask n m tx w (TaskSend f)#} + N)"
| tx_request: "client_step ev c sh = Some (c', sh', out) \<Longrightarrow> ev = StreamClosed \<or> ev = GotRequest req \<Longrightarrow>
    tx_step nodes tx True (c, h, F) (c', h, F + client_items (client_server_id c) out)"
| tx_forward: "ItemHandler tx r \<in># F \<Longrightarrow> client_step (GotForward r) c sh = Some (c', sh', out) \<Longrightarrow>
    tx_step nodes tx True (c, h, F) (c', h, F - {#ItemHandler tx r#} + client_items (client_server_id c) out)"
| tx_pass: "client_step (LocalPass es) c sh = Some (c', sh', out) \<Longrightarrow>
    tx_step nodes tx True (c, h, F) (c', h, F + client_items (client_server_id c) out)"

definition ended :: "client_pc \<Rightarrow> bool" where
  "ended pc \<longleftrightarrow> pc = ClientDone \<or> pc = ClientPanic"

definition lost :: "Cluster \<Rightarrow> Cluster \<Rightarrow> bool" where
  "lost \<sigma> \<sigma>' \<longleftrightarrow> (\<exists>n m tx w f. ItemTask n m tx w (TaskSend f) \<in># items \<sigma> \<and>
     items \<sigma>' = items \<sigma> - {#ItemTask n m tx w (TaskSend f)#})"

definition healthy_step :: "Cluster \<Rightarrow> Cluster \<Rightarrow> bool" where
  "healthy_step \<sigma> \<sigma>' \<longleftrightarrow> cluster_step \<sigma> \<sigma>' \<and> halted \<sigma>' = halted \<sigma> \<and> \<not> lost \<sigma> \<sigma>'"

text \<open>The projection.\<close>

definition moves :: "NodeId set \<Rightarrow> Cluster \<Rightarrow> Cluster \<Rightarrow> TransactionId \<Rightarrow> Client \<Rightarrow> bool" where
  "moves nodes \<sigma> \<sigma>' tx c \<longleftrightarrow> (\<exists>c' ok. hdl \<sigma>' tx = Some c' \<and> (healthy_step \<sigma> \<sigma>' \<longrightarrow> ok) \<and>
     (view \<sigma>' tx c' = view \<sigma> tx c \<or> tx_step nodes tx ok (view \<sigma> tx c) (view \<sigma>' tx c')))"

lemma moves_stay:
  assumes "hdl \<sigma> tx = Some c" and "hdl \<sigma>' tx = hdl \<sigma> tx" and "flight tx \<sigma>' = flight tx \<sigma>"
    and "\<And>n. clients (srv \<sigma>' n) tx = clients (srv \<sigma> n) tx"
  shows "moves nodes \<sigma> \<sigma>' tx c"
  using assms by (auto simp: moves_def view_def)

lemma movesI:
  assumes "hdl \<sigma>' tx = Some c'" and "tx_step nodes tx ok (view \<sigma> tx c) v" and "v = view \<sigma>' tx c'"
    and "healthy_step \<sigma> \<sigma>' \<Longrightarrow> ok"
  shows "moves nodes \<sigma> \<sigma>' tx c"
  using assms by (auto simp: moves_def)

text \<open>A task of the transaction or of another one.\<close>

lemma moves_item:
  assumes "hdl \<sigma> tx = Some c" and "hdl \<sigma>' = hdl \<sigma>" and "srv \<sigma>' = srv \<sigma>" and "x \<in># items \<sigma>"
    and "items \<sigma>' = items \<sigma> - {#x#} + N" and "\<And>y. y \<in># N \<Longrightarrow> item_tx y = item_tx x"
    and "item_tx x = tx \<Longrightarrow> x \<in># flight tx \<sigma> \<Longrightarrow>
      \<exists>ok. tx_step nodes tx ok (view \<sigma> tx c) (c, clients (srv \<sigma> (client_server_id c)) tx, flight tx \<sigma> - {#x#} + N) \<and>
        (healthy_step \<sigma> \<sigma>' \<longrightarrow> ok)"
  shows "moves nodes \<sigma> \<sigma>' tx c"
proof (cases "item_tx x = tx")
  case True
  have x: "x \<in># flight tx \<sigma>" using True assms(4) by (simp add: flight_def)
  obtain ok where "tx_step nodes tx ok (view \<sigma> tx c) (c, clients (srv \<sigma> (client_server_id c)) tx, flight tx \<sigma> - {#x#} + N)"
    "healthy_step \<sigma> \<sigma>' \<longrightarrow> ok" using assms(7)[OF True x] by blast
  with assms(1-3) flight_replace[OF assms(6,4,5), of tx] True show ?thesis
    by (intro movesI[where ok = ok and c' = c]) (simp_all add: view_def)
next
  case False
  with assms flight_replace[OF assms(6,4,5), of tx] show ?thesis by (intro moves_stay) auto
qed

lemma moves_handler:
  assumes "hdl \<sigma> tx = Some c" and "hdl \<sigma> t = Some k" and "hdl \<sigma>' = (hdl \<sigma>)(t \<mapsto> k')" and "srv \<sigma>' = srv \<sigma>"
    and "client_server_id k' = client_server_id k"
    and "\<And>tx. flight tx \<sigma>' = (if t = tx then F' else flight tx \<sigma>)"
    and "tx_step nodes t True (view \<sigma> t k) (k', clients (srv \<sigma> (client_server_id k)) t, F')"
  shows "moves nodes \<sigma> \<sigma>' tx c"
proof (cases "t = tx")
  case True
  with assms show ?thesis by (intro movesI[where ok = True and c' = k']) (auto simp: view_def)
next
  case False
  with assms show ?thesis by (intro moves_stay) auto
qed

lemma healthy_exits:
  assumes "healthy_step \<sigma> (\<sigma>\<lparr>srv := s, items := I, halted := if P then insert n (halted \<sigma>) else halted \<sigma>\<rparr>)"
    and "n \<notin> halted \<sigma>"
  shows "\<not> P"
  using assms by (auto simp: healthy_step_def split: if_splits)

lemma not_healthy_lost:
  assumes "healthy_step \<sigma> \<sigma>'" and "ItemTask n m t w (TaskSend f) \<in># items \<sigma>"
    and "items \<sigma>' = items \<sigma> - {#ItemTask n m t w (TaskSend f)#}"
  shows False
  using assms unfolding healthy_step_def lost_def by blast

lemma cluster_step_moves:
  assumes "cluster_step \<sigma> \<sigma>'" and "cluster_inv nodes \<sigma>" and "hdl \<sigma> tx = Some c"
    and "\<And>n. shard_inv check_amount (shd \<sigma> n)" and "tx \<notin> reused \<sigma>'"
    and "ended (client_pc c) \<or> clients (srv \<sigma> (client_server_id c)) tx \<noteq> None"
  shows "moves nodes \<sigma> \<sigma>' tx c"
  using assms
proof (induction rule: cluster_step.induct)
  case (accept n \<sigma> ch now t s')
  then have "t \<noteq> tx" by auto
  with accept accept_ok[OF accept(2)] show ?case by (intro moves_stay) (auto simp: flight_def)
next
  case (accept_again n \<sigma> ch now t s' k)
  then have "t \<noteq> tx" by auto
  with accept_again accept_ok[OF accept_again(2)] show ?case by (intro moves_stay) (auto simp: flight_def)
next
  case (serve n \<sigma> x ev ch out s')
  let ?ok = "ExitProcess \<notin> set out \<and> Panic \<notin> set out"
  note frame = serve_step_frame[OF serve(3,4)]
  have pool: "distinct (server_pool (srv \<sigma> n))" "set (server_pool (srv \<sigma> n)) = nodes - {n}"
    using serve(5) by (auto simp: cluster_inv_def)
  show ?case
  proof (cases "item_tx x = tx")
    case True
    let ?\<sigma>' = "\<sigma>\<lparr>srv := (srv \<sigma>)(n := s'), items := items \<sigma> - {#x#} + effect_items n out,
      halted := if ExitProcess \<in> set out \<or> Panic \<in> set out then insert n (halted \<sigma>) else halted \<sigma>\<rparr>"
    have "x \<in># flight tx \<sigma>" using serve(2) True by (simp add: flight_def)
    from tx_serve[OF this True serve(3,4) pool, of c "clients (srv \<sigma> (client_server_id c)) tx"]
    have "tx_step nodes tx ?ok (view \<sigma> tx c) (c, if n = client_server_id c then clients s' tx
        else clients (srv \<sigma> (client_server_id c)) tx, flight tx \<sigma> - {#x#} + effect_items n out)"
      by (simp add: view_def)
    moreover have "flight tx ?\<sigma>' = flight tx \<sigma> - {#x#} + effect_items n out"
      using flight_replace[OF frame(1) serve(2), where \<sigma>' = ?\<sigma>' and tx = tx] True by simp
    ultimately show ?thesis
      using serve(1,6) by (intro movesI[where ok = ?ok and c' = c]) (auto simp: view_def dest: healthy_exits)
  next
    case False
    with serve frame flight_replace[OF frame(1) serve(2)] show ?thesis by (intro moves_stay) auto
  qed
next
  case (task n \<sigma> m t w k es k' w' sh')
  then show ?case using task_step_no_panic[OF task(8) task(4), of k t]
    by (intro moves_item[where x = "ItemTask n m t w k" and N = "{#ItemTask n m t w' k'#}"])
      (auto simp: view_def intro!: exI[of _ True] tx_task[simplified])
next
  case (task_send n \<sigma> m t w f)
  then have "fwd_tx f = t" by (auto simp: cluster_inv_def tags_ok_def)
  with task_send show ?case
    by (intro moves_item[where x = "ItemTask n m t w (TaskSend f)" and N = "{#ItemWire n m f#}"])
      (auto simp: view_def intro!: exI[of _ True] tx_send[where N = "{#ItemWire n m f#}", simplified])
next
  case (task_lost n \<sigma> m t w f)
  then show ?case
    by (intro moves_item[where x = "ItemTask n m t w (TaskSend f)" and N = "{#}"])
      (auto simp: view_def dest: not_healthy_lost intro!: exI[of _ False] tx_send[where N = "{#}", simplified])
next
  case (handler_request \<sigma> t k n ev k' sh' out req)
  note fr = client_step_frame[OF handler_request(4)] and it = client_step_items[OF handler_request(4)]
  have id: "transaction_id k = t" using handler_request(1,6) by (auto simp: cluster_inv_def tags_ok_def)
  show ?case
    using handler_request(2-5) it id tx_request[OF handler_request(4,5)]
    by (intro moves_handler[OF handler_request(7,1), where k' = k' and F' = "flight t \<sigma> + client_items n out"])
      (auto simp: fr view_def flight_add[of "client_items n out" t])
next
  case (handler_forward \<sigma> t k n r k' sh' out)
  note fr = client_step_frame[OF handler_forward(5)] and it = client_step_items[OF handler_forward(5)]
  have id: "transaction_id k = t" using handler_forward(1,6) by (auto simp: cluster_inv_def tags_ok_def)
  have mem: "ItemHandler t r \<in># flight t \<sigma>" using handler_forward(4) by (simp add: flight_def)
  show ?case
    using handler_forward(2,4) it id tx_forward[OF mem handler_forward(5)]
    by (intro moves_handler[OF handler_forward(7,1), where k' = k'
          and F' = "flight t \<sigma> - {#ItemHandler t r#} + client_items n out"])
      (auto simp: fr view_def flight_replace[of "client_items n out" "ItemHandler t r"])
next
  case (handler_pass \<sigma> t k n es k' sh' out)
  note fr = client_step_frame[OF handler_pass(5)] and it = client_step_items[OF handler_pass(5)]
  have id: "transaction_id k = t" using handler_pass(1,6) by (auto simp: cluster_inv_def tags_ok_def)
  show ?case
    using handler_pass(2-5) it id tx_pass[OF handler_pass(5)]
    by (intro moves_handler[OF handler_pass(7,1), where k' = k' and F' = "flight t \<sigma> + client_items n out"])
      (auto simp: fr view_def flight_add[of "client_items n out" t])
next
  case (handler_closed \<sigma> t k n k' sh' out)
  have "t \<noteq> tx"
  proof
    assume "t = tx"
    with handler_closed have "ended (client_pc k)" by auto
    with handler_closed(6) show False by (auto simp: ended_def)
  qed
  then show ?case using handler_closed(8) by (intro moves_stay) (auto simp: flight_def)
next
  case (orphan k \<sigma> n t ev k' sh' out)
  have "t \<in> reused \<sigma>" using orphan(1,3,8) by (auto simp: cluster_inv_def tags_ok_def)
  then have t: "t \<noteq> tx" using orphan(11) by auto
  have "item_tx y \<noteq> tx" if "y \<in># taken t ev" for y using that t by (cases ev) auto
  moreover have "item_tx y \<noteq> tx" if "y \<in># client_items n out" for y
    using client_step_items[OF orphan(7) that] orphan(3) t by simp
  ultimately show ?case using orphan(9) by (intro moves_stay flight_others) auto
next
  case (stop \<sigma> n)
  then show ?case by (intro moves_stay) (auto simp: flight_def)
qed

section \<open>Answers that are due\<close>

fun fwd_owes :: "Forwarded \<Rightarrow> nat" where
  "fwd_owes (DoCommit t) = 0"
| "fwd_owes (Request t r) = 1"
| "fwd_owes (Response t r) = 1"
| "fwd_owes (TwoPhaseCommitStatus t st) = 1"

fun task_owes :: "shard_task \<Rightarrow> nat" where
  "task_owes (TaskSend f) = fwd_owes f"
| "task_owes RemoteCommit = 0"
| "task_owes (TaskPrint l) = 0"
| "task_owes TaskPanic = 0"
| "task_owes (RemoteWriteRead k d) = 1"
| "task_owes (RemoteWriteWrite k v) = 1"
| "task_owes (RemoteRead k) = 1"
| "task_owes RemoteCheck = 1"
| "task_owes RemoteAbort = 1"

text \<open>The number of answers an item leads to, in a cluster with \<open>k\<close> nodes besides the coordinator.\<close>

fun owes :: "nat \<Rightarrow> item \<Rightarrow> nat" where
  "owes k (ItemServer n (Forward Broadcast t r)) = k"
| "owes k (ItemServer n (Forward (Node m) t r)) = 1"
| "owes k (ItemServer n (Finished t)) = 0"
| "owes k (ItemWire a b f) = fwd_owes f"
| "owes k (ItemTask n m t w p) = task_owes p"
| "owes k (ItemHandler t r) = 1"

definition debt :: "nat \<Rightarrow> item multiset \<Rightarrow> nat" where
  "debt k F = (\<Sum>x \<in># F. owes k x)"

lemma debt_simps [simp]:
  "debt k {#} = 0" "debt k (add_mset x F) = owes k x + debt k F" "debt k (F + G) = debt k F + debt k G"
  by (simp_all add: debt_def)

lemma debt_diff: "x \<in># F \<Longrightarrow> debt k (F - {#x#}) + owes k x = debt k F"
  by (auto dest!: multi_member_split)

lemma debt_member: "x \<in># F \<Longrightarrow> owes k x \<le> debt k F"
  using debt_diff[of x F k] by simp

lemma debt_mono: "F \<subseteq># G \<Longrightarrow> debt k F \<le> debt k G"
  by (auto simp: subset_mset.le_iff_add)

lemma debt_single: "N \<subseteq># {#y#} \<Longrightarrow> debt k N \<le> owes k y"
  using debt_mono[of N "{#y#}" k] by simp

section \<open>Where messages go\<close>

fun is_answer :: "Forwarded \<Rightarrow> bool" where
  "is_answer (Response t r) \<longleftrightarrow> True"
| "is_answer (TwoPhaseCommitStatus t st) \<longleftrightarrow> True"
| "is_answer (Request t r) \<longleftrightarrow> False"
| "is_answer (DoCommit t) \<longleftrightarrow> False"

fun task_routed :: "NodeId \<Rightarrow> NodeId \<Rightarrow> NodeId \<Rightarrow> shard_task \<Rightarrow> bool" where
  "task_routed s n m (TaskSend f) \<longleftrightarrow> is_answer f \<and> m = s \<and> n \<noteq> s"
| "task_routed s n m t \<longleftrightarrow> (task_owes t = 1 \<longrightarrow> m = s \<and> n \<noteq> s)"

fun routed :: "NodeId set \<Rightarrow> NodeId \<Rightarrow> item \<Rightarrow> bool" where
  "routed nodes s (ItemServer n (Forward (Node m) t r)) \<longleftrightarrow> n = s \<and> m \<in> nodes - {s}"
| "routed nodes s (ItemServer n st) \<longleftrightarrow> n = s"
| "routed nodes s (ItemWire a b f) \<longleftrightarrow> a \<in> nodes \<and> b \<in> nodes \<and> a \<noteq> b \<and> (if is_answer f then b else a) = s"
| "routed nodes s (ItemTask n m t w k) \<longleftrightarrow> n \<in> nodes \<and> task_routed s n m k"
| "routed nodes s (ItemHandler t r) \<longleftrightarrow> True"

lemma routed_forward [simp]: "routed nodes s (ItemServer n (Forward Broadcast t r)) \<longleftrightarrow> n = s"
  "routed nodes s (ItemServer n (Finished t)) \<longleftrightarrow> n = s"
  by simp_all

lemma remote_task_routed [simp]: "task_routed s n m (remote_task r) \<longleftrightarrow> m = s \<and> n \<noteq> s" "task_owes (remote_task r) = 1"
  by (cases r; simp)+

lemma task_step_owes:
  assumes "task_step es tx t sh = (t', w', sh')" and "t' \<noteq> TaskPanic \<or> t = TaskPanic"
  shows "task_owes t' = task_owes t" and "task_routed s n m t \<Longrightarrow> task_routed s n m t'"
  using assms by (auto elim!: task_step.elims split: prod.splits pass.splits sum.splits option.splits result.splits)

section \<open>What the server task makes of an item\<close>

lemma broadcast_to_ok:
  "snd (broadcast_to ch ns f) \<Longrightarrow> effect_items n (fst (broadcast_to ch ns f)) = mset (map (\<lambda>m. ItemWire n m f) ns)"
  by (induction ns) (auto split: if_splits prod.splits)

lemma debt_wires: "debt k {#ItemWire n m f. m \<in># mset ns#} = length ns * fwd_owes f"
  by (induction ns) auto

lemma debt_broadcast:
  "debt k (effect_items n (fst (broadcast_to ch ns f))) \<le> length ns * fwd_owes f"
  "snd (broadcast_to ch ns f) \<Longrightarrow> debt k (effect_items n (fst (broadcast_to ch ns f))) = length ns * fwd_owes f"
  using debt_mono[OF broadcast_to_subset[of n ch ns f], of k] broadcast_to_ok[of ch ns f n]
  by (simp_all add: debt_wires)

definition bounded :: "bool \<Rightarrow> nat \<Rightarrow> nat \<Rightarrow> bool" where
  "bounded ex a b \<longleftrightarrow> a \<le> b \<and> (ex \<longrightarrow> a = b)"

fun is_vote :: "item \<Rightarrow> bool" where
  "is_vote (ItemWire a b (TwoPhaseCommitStatus t st)) \<longleftrightarrow> True"
| "is_vote _ \<longleftrightarrow> False"

lemma serve_owes:
  assumes "routed nodes s x" and "received n x = Some ev" and "serve_step ch ev sv = (out, sv')"
    and "length (server_pool sv) = k" and "\<not> is_vote x"
  shows "bounded (ExitProcess \<notin> set out \<and> Panic \<notin> set out) (debt k (effect_items n out)) (owes k x)"
proof (cases x)
  case (ItemServer n' st)
  note b = debt_broadcast[where k = k and n = n and ch = ch and ns = "server_pool sv"]
  show ?thesis
  proof (cases st)
    case (Forward tg t r)
    with assms ItemServer b(1)[of "Request t r"] b(2)[of "Request t r"] show ?thesis
      by (cases tg) (auto simp: bounded_def broadcast_def or_exit_def or_panic_def pass_message_def split: if_splits)
  qed (use assms ItemServer in \<open>auto simp: bounded_def split: if_splits\<close>)
next
  case (ItemWire a b f)
  with assms show ?thesis
    by (cases f) (auto simp: bounded_def handle_remote_request_def or_panic_def pass_to_client_def or_exit_def
        split: if_splits option.splits)
qed (use assms in auto)

lemma two_phase_effects:
  assumes "y \<in># effect_items n (fst (handle_two_phase_commit ch t v sv))"
  shows "(\<exists>r. y = ItemHandler t r) \<or> (\<exists>m. y = ItemWire n m (DoCommit t) \<and> m \<in> set (server_pool sv))"
  using assms by (auto simp: handle_two_phase_commit_def Let_def broadcast_def or_panic_def
      split: option.splits CommitStatus.splits if_splits bool.splits dest!: pass_to_client_items broadcast_to_items)

lemma serve_routed:
  assumes "routed nodes s x" and "received n x = Some ev" and "serve_step ch ev sv = (out, sv')"
    and "set (server_pool sv) = nodes - {n}" and "s \<in> nodes" and "y \<in># effect_items n out"
  shows "routed nodes s y"
proof (cases x)
  case (ItemServer n' st)
  show ?thesis
  proof (cases st)
    case (Forward tg t r)
    show ?thesis
    proof (cases tg)
      case (Node m)
      from assms(2,3) ItemServer Forward Node
      have st: "serve_step ch (FromClient (Forward (Node m) t r)) sv = (out, sv')" "n' = n" by (auto split: if_splits)
      from subset_single[OF serve_forward_node(1)[OF st(1)] assms(6)] assms(1,5) ItemServer Forward Node st(2)
      show ?thesis by auto
    next
      case Broadcast
      from assms(2,3) ItemServer Forward Broadcast
      have st: "serve_step ch (FromClient (Forward Broadcast t r)) sv = (out, sv')" "n' = n" by (auto split: if_splits)
      from mset_subset_eqD[OF serve_forward_all(1)[OF st(1)] assms(6)]
      obtain m where "y = ItemWire n m (Request t r)" and "m \<in> set (server_pool sv)" by auto
      then show ?thesis using assms(1,4,5) ItemServer Forward Broadcast st(2) by auto
    qed
  qed (use assms(2,3,6) ItemServer in \<open>auto split: if_splits\<close>)
next
  case (ItemWire a b f)
  show ?thesis
  proof (cases f)
    case (TwoPhaseCommitStatus t v)
    with assms(2,3) ItemWire have "out = fst (handle_two_phase_commit ch t v sv)" "b = n" by (auto split: if_splits)
    note N = two_phase_effects[OF assms(6)[unfolded this(1)]]
    have "n = s" using \<open>b = n\<close> assms(1) ItemWire TwoPhaseCommitStatus by simp
    then have "m \<in> nodes" "s \<noteq> m" if "m \<in> set (server_pool sv)" for m using that assms(4) by auto
    with N assms(5) \<open>n = s\<close> show ?thesis by fastforce
  qed (use assms(1-3,5,6) ItemWire in \<open>auto simp: handle_remote_request_def split: if_splits dest!: or_panic_items pass_to_client_items\<close>)
qed (use assms in auto)

text \<open>A vote is counted; with the last one the handler is told the decision.\<close>

lemma serve_counts:
  assumes "serve_step ch (FromServer \<lparr>msg = Message (TwoPhaseCommitStatus t v), member_id = m\<rparr>) s = (out, s')"
    and "clients s t = Some h"
  shows "\<exists>h'. clients s' t = Some h' \<and> commit_count h' = commit_count h + 1 \<and>
    (if commit_count h' = length (server_pool s)
     then effect_items n out = {#} \<and> ExitProcess \<in> set out \<or>
       (\<exists>r. ItemHandler t r \<in># effect_items n out) \<and> debt k (effect_items n out) = 1
     else effect_items n out = {#})"
proof -
  from assms(1) have r: "handle_two_phase_commit ch t v s = (out, s')" by simp
  define h' where "h' = h\<lparr>commit_count := commit_count h + 1,
    commit_status := if v = CannotCommit then CannotCommit else commit_status h\<rparr>"
  have "clients s' t = Some h'"
    using handle_two_phase_commit_clients[of ch t v s] r assms(2) by (simp add: h'_def)
  moreover have "effect_items n out = {#} \<and> ExitProcess \<in> set out \<or>
      (\<exists>r. ItemHandler t r \<in># effect_items n out) \<and> debt k (effect_items n out) = 1"
    if "commit_count h + 1 = length (server_pool s)"
    using r assms(2) that debt_broadcast(1)[of k n ch "server_pool s" "DoCommit t"]
    by (cases v; cases "commit_status h") (auto simp: handle_two_phase_commit_def Let_def or_panic_def or_exit_def
        pass_to_client_def broadcast_def split: if_splits)
  moreover have "effect_items n out = {#}" if "commit_count h + 1 \<noteq> length (server_pool s)"
    using r assms(2) that by (cases v) (auto simp: handle_two_phase_commit_def Let_def)
  ultimately show ?thesis by (intro exI[of _ h']) (auto simp: h'_def)
qed

section \<open>The books of a transaction\<close>

fun in_commit :: "item \<Rightarrow> bool" where
  "in_commit (ItemServer n (Forward Broadcast t r)) \<longleftrightarrow> r = Commit"
| "in_commit (ItemServer n (Forward (Node m) t r)) \<longleftrightarrow> False"
| "in_commit (ItemServer n (Finished t)) \<longleftrightarrow> True"
| "in_commit (ItemWire a b (Request t r)) \<longleftrightarrow> r = Commit"
| "in_commit (ItemWire a b (Response t r)) \<longleftrightarrow> False"
| "in_commit (ItemWire a b (TwoPhaseCommitStatus t v)) \<longleftrightarrow> True"
| "in_commit (ItemWire a b (DoCommit t)) \<longleftrightarrow> True"
| "in_commit (ItemTask n m t w k) \<longleftrightarrow> k = RemoteCheck \<or> (\<exists>t v. k = TaskSend (TwoPhaseCommitStatus t v)) \<or> task_owes k = 0"
| "in_commit (ItemHandler t r) \<longleftrightarrow> True"

fun is_handler :: "item \<Rightarrow> bool" where
  "is_handler (ItemHandler t r) \<longleftrightarrow> True"
| "is_handler _ \<longleftrightarrow> False"

fun is_finish :: "item \<Rightarrow> bool" where
  "is_finish (ItemServer n (Finished t)) \<longleftrightarrow> True"
| "is_finish _ \<longleftrightarrow> False"

definition decided :: "item multiset \<Rightarrow> bool" where
  "decided F \<longleftrightarrow> (\<exists>x \<in># F. is_handler x)"

definition books :: "bool \<Rightarrow> nat \<Rightarrow> client_pc \<Rightarrow> ClientHandle option \<Rightarrow> item multiset \<Rightarrow> bool" where
  "books ex k pc h F \<longleftrightarrow>
     (case pc of
        AwaitForward \<Rightarrow> bounded ex (debt k F) 1
      | AbortWait i r \<Rightarrow> bounded ex (debt k F + i) (k + 1) \<and> i < k + 1
      | CommitWait \<Rightarrow> (\<forall>x \<in># F. in_commit x) \<and>
          (if decided F then bounded ex (debt k F) 1
           else \<exists>h'. h = Some h' \<and> bounded ex (commit_count h' + debt k F) k \<and>
             (ex \<and> 0 < k \<longrightarrow> commit_count h' < k))
      | _ \<Rightarrow> debt k F = 0)"

fun tx_inv :: "NodeId set \<Rightarrow> bool \<Rightarrow> tx_view \<Rightarrow> bool" where
  "tx_inv nodes ex (c, h, F) \<longleftrightarrow>
     client_server_id c \<in> nodes \<and> distinct (client_shard_ids c) \<and> set (client_shard_ids c) = nodes \<and>
     (\<forall>x \<in># F. routed nodes (client_server_id c) x) \<and>
     (ended (client_pc c) \<or> h \<noteq> None \<and> (\<forall>x \<in># F. \<not> is_finish x)) \<and>
     books ex (card nodes - 1) (client_pc c) h F"

text \<open>The phases of a transaction, whatever is on record.\<close>

fun view_phase :: "NodeId set \<Rightarrow> TransactionId \<Rightarrow> tx_view \<Rightarrow> bool" where
  "view_phase nodes tx (c, h, F) \<longleftrightarrow> transaction_id c = tx \<and>
     (\<exists>H. phase (client_server_id c) (nodes - {client_server_id c}) tx (client_pc c) h F H)"

section \<open>Every step keeps the books\<close>

lemma books_replace:
  assumes "books ex k pc h F" and "x \<in># F" and "\<not> is_handler x" and "bounded ok (debt k N) (owes k x)"
    and "pc = CommitWait \<longrightarrow> h' = h \<and> (\<forall>y \<in># N. in_commit y \<and> \<not> is_handler y)"
  shows "books (ex \<and> ok) k pc h' (F - {#x#} + N)"
proof -
  let ?F = "F - {#x#} + N"
  have le: "debt k ?F \<le> debt k F" and eq: "ok \<Longrightarrow> debt k ?F = debt k F"
    using debt_diff[OF assms(2), of k] assms(4) by (auto simp: bounded_def)
  have mono: "bounded (ex \<and> ok) (a + debt k ?F) b" if "bounded ex (a + debt k F) b" for a b
    using that le eq by (auto simp: bounded_def)
  show ?thesis
  proof (cases "pc = CommitWait")
    case True
    obtain A where "F = add_mset x A" using assms(2) by (auto dest: multi_member_split)
    then have "decided ?F \<longleftrightarrow> decided F" using assms(3,5) True by (auto simp: decided_def)
    moreover have "\<forall>y \<in># ?F. in_commit y"
      using assms(1,5) True by (intro replace_all) (auto simp: books_def)
    ultimately show ?thesis
      using assms(1,5) True mono[of 0 1] mono[of _ k] by (auto simp: books_def split: if_splits)
  next
    case False
    with assms(1) mono[of 0 1] mono[of _ "k + 1"] le show ?thesis
      by (auto simp: books_def add.commute split: client_pc.splits)
  qed
qed

lemma serve_in_commit:
  assumes "in_commit x" and "\<not> is_vote x" and "\<not> is_finish x"
    and "received n x = Some ev" and "serve_step ch ev s = (out, s')"
  shows "clients s' = clients s \<and> (\<forall>y \<in># effect_items n out. in_commit y \<and> \<not> is_handler y)"
proof (cases x)
  case (ItemServer n' st)
  with assms(1,3,4) obtain t where ev: "ev = FromClient (Forward Broadcast t Commit)"
    by (cases st) (auto split: if_splits ForwardTarget.splits elim: in_commit.elims)
  note st = serve_forward_all[OF assms(5)[unfolded ev]]
  from st(2) mset_subset_eqD[OF st(1)] show ?thesis by fastforce
next
  case (ItemWire a b f)
  with assms(1,2,4) consider t where "ev = FromServer \<lparr>msg = Message (Request t Commit), member_id = a\<rparr>"
    | t where "ev = FromServer \<lparr>msg = Message (DoCommit t), member_id = a\<rparr>"
    by (cases f) (auto split: if_splits)
  then show ?thesis
  proof cases
    case 1
    note st = serve_request[OF assms(5)[unfolded 1]]
    from st(2) mset_subset_eqD[OF st(1)] show ?thesis by fastforce
  qed (use assms(5) in auto)
qed (use assms in auto)

lemma vote_commit_wait:
  assumes "view_phase nodes tx (c, h, F)" and "x \<in># F" and "is_vote x"
  shows "client_pc c = CommitWait"
proof -
  obtain a b t v where "x = ItemWire a b (TwoPhaseCommitStatus t v)" using assms(3) by (cases x rule: is_vote.cases) auto
  with assms(1,2) show ?thesis
    by (fastforce simp: phase_def active_def voting_def committing_def aborting_def data_item_def commit_item_def
        abort_item_def)
qed

lemma books_vote:
  assumes "books ex k CommitWait h F" and "x \<in># F" and "x = ItemWire m n (TwoPhaseCommitStatus tx v)"
    and "received n x = Some ev" and "serve_step ch ev s = (out, s')" and "clients s tx = h" and "h \<noteq> None"
    and "length (server_pool s) = k"
  shows "books (ex \<and> ExitProcess \<notin> set out \<and> Panic \<notin> set out) k CommitWait (clients s' tx) (F - {#x#} + effect_items n out)"
proof -
  let ?N = "effect_items n out" and ?F = "F - {#x#} + effect_items n out"
  have ev: "ev = FromServer \<lparr>msg = Message (TwoPhaseCommitStatus tx v), member_id = m\<rparr>" using assms(3,4) by auto
  obtain h0 where h0: "clients s tx = Some h0" using assms(6,7) by auto
  obtain h' where h': "clients s' tx = Some h'" "commit_count h' = commit_count h0 + 1"
    "if commit_count h' = k then ?N = {#} \<and> ExitProcess \<in> set out \<or>
       (\<exists>r. ItemHandler tx r \<in># ?N) \<and> debt k ?N = 1 else ?N = {#}"
    using serve_counts[OF assms(5)[unfolded ev] h0, of n k] assms(8) by auto
  have d: "debt k (F - {#x#}) + 1 = debt k F" using debt_diff[OF assms(2), of k] assms(3) by simp
  have "\<not> decided F"
  proof
    assume D: "decided F"
    then obtain y where y: "y \<in># F" "is_handler y" by (auto simp: decided_def)
    moreover have "y \<noteq> x" using y(2) assms(3) by auto
    ultimately have "y \<in># F - {#x#}" by (metis insert_DiffM insert_noteq_member assms(2))
    with debt_member[OF this, of k] y(2) d D assms(1) show False by (cases y) (auto simp: books_def bounded_def)
  qed
  with assms(1,6) h0 have b: "bounded ex (commit_count h0 + debt k F) k" and ic: "\<forall>y \<in># F. in_commit y"
    by (auto simp: books_def)
  have nd: "\<not> decided (F - {#x#})" using \<open>\<not> decided F\<close> by (auto simp: decided_def dest: in_diffD)
  have "\<forall>y \<in># ?F. in_commit y"
  proof (rule replace_all[OF ic])
    fix y
    assume "y \<in># ?N"
    then show "in_commit y"
      using assms(5) ev two_phase_effects[of y n ch tx v s] by (cases "handle_two_phase_commit ch tx v s") auto
  qed
  moreover have "decided ?F \<and> bounded (ex \<and> True) (debt k ?F) 1" if "commit_count h' = k" "?N \<noteq> {#}"
    using h' that b d by (auto simp: decided_def bounded_def intro: bexI[of _ "ItemHandler tx r" for r])
  moreover have "commit_count h' \<noteq> k \<longrightarrow> bounded ex (commit_count h' + debt k ?F) k \<and> commit_count h' < k" if "?N = {#}"
    using h'(2) that b d by (auto simp: bounded_def)
  moreover have "bounded False (commit_count h' + debt k ?F) k" if "?N = {#}"
    using h'(2) that b d by (auto simp: bounded_def)
  ultimately show ?thesis
    using h' nd by (cases "?N = {#}") (auto simp: books_def bounded_def split: if_splits)
qed

lemma received_node: "routed nodes s x \<Longrightarrow> s \<in> nodes \<Longrightarrow> received n x = Some ev \<Longrightarrow> n \<in> nodes"
  by (cases "(nodes, s, x)" rule: routed.cases) (auto split: if_splits)

lemma effects_not_server [simp]: "ItemServer m st \<notin># effect_items n out"
  by (induction n out rule: effect_items.induct) auto

lemma serve_handle:
  assumes "received n x = Some ev" and "serve_step ch ev s = (out, s')" and "clients s' tx = None"
  shows "clients s tx = None \<or> x = ItemServer n (Finished tx)"
proof (cases x)
  case (ItemServer n' st)
  with assms show ?thesis
    by (cases "(ch, st, s)" rule: handle_client_state.cases) (auto split: if_splits)
next
  case (ItemWire a b f)
  with assms(1,2) have st: "handle_server_state ch \<lparr>msg = Message f, member_id = a\<rparr> s = (out, s')"
    by (auto split: if_splits)
  show ?thesis
  proof (cases f)
    case (TwoPhaseCommitStatus t v)
    with st assms(3) handle_two_phase_commit_clients[of ch t v s] show ?thesis
      by (auto split: option.splits if_splits)
  qed (use st assms(3) in \<open>auto simp: handle_remote_request_def split: if_splits\<close>)
qed (use assms in auto)

lemma serve_inv:
  assumes inv: "tx_inv nodes ex (c, h, F)" and ph: "view_phase nodes tx (c, h, F)" and x: "x \<in># F" "item_tx x = tx"
    and ev: "received n x = Some ev" and st: "serve_step ch ev s = (out, s')"
    and pool: "distinct (server_pool s)" "set (server_pool s) = nodes - {n}"
    and h: "n = client_server_id c \<longrightarrow> h = clients s tx"
    and h': "h' = (if n = client_server_id c then clients s' tx else h)"
  shows "tx_inv nodes (ex \<and> ExitProcess \<notin> set out \<and> Panic \<notin> set out) (c, h', F - {#x#} + effect_items n out)"
proof -
  let ?s = "client_server_id c" and ?k = "card nodes - 1" and ?F = "F - {#x#} + effect_items n out"
    and ?ok = "ExitProcess \<notin> set out \<and> Panic \<notin> set out"
  have r: "routed nodes ?s x" and s: "?s \<in> nodes" and fin: "finite nodes" using inv x(1) by auto
  have n: "n \<in> nodes" by (rule received_node[OF r s ev])
  have len: "length (server_pool s) = ?k" using distinct_card[OF pool(1)] pool(2) n fin by simp
  have live: "h \<noteq> None \<and> \<not> is_finish x" if "\<not> ended (client_pc c)" using inv x(1) that by auto
  have bk: "books ex ?k (client_pc c) h F" using inv by simp
  have "books (ex \<and> ?ok) ?k (client_pc c) h' ?F"
  proof (cases "is_vote x")
    case True
    then obtain m b t v where xv: "x = ItemWire m b (TwoPhaseCommitStatus t v)" by (cases x rule: is_vote.cases) auto
    with r ev x(2) have v: "x = ItemWire m n (TwoPhaseCommitStatus tx v)" "n = ?s" by (auto split: if_splits)
    have pc: "client_pc c = CommitWait" by (rule vote_commit_wait[OF ph x(1) True])
    then have "h \<noteq> None" using live by (auto simp: ended_def)
    with books_vote[OF bk[unfolded pc] x(1) v(1) ev st _ _ len] h h' pc v(2) show ?thesis by simp
  next
    case False
    have "h' = h \<and> (\<forall>y \<in># effect_items n out. in_commit y \<and> \<not> is_handler y)" if pc: "client_pc c = CommitWait"
    proof -
      have "in_commit x" using bk x(1) pc by (simp add: books_def)
      from serve_in_commit[OF this False _ ev st] live pc h h' show ?thesis by (auto simp: ended_def)
    qed
    moreover have "\<not> is_handler x" using ev by (cases x) auto
    ultimately show ?thesis using books_replace[OF bk x(1) _ serve_owes[OF r ev st len False]] by blast
  qed
  moreover have "\<forall>y \<in># ?F. routed nodes ?s y"
    using inv serve_routed[OF r ev st pool(2) s] by (intro replace_all) auto
  moreover have "h' \<noteq> None \<and> (\<forall>y \<in># ?F. \<not> is_finish y)" if "\<not> ended (client_pc c)"
  proof
    show "h' \<noteq> None" using live[OF that] h h' serve_handle[OF ev st, of tx] by (cases "clients s' tx") auto
    show "\<forall>y \<in># ?F. \<not> is_finish y"
      using inv that by (intro replace_all) (auto elim!: is_finish.elims)
  qed
  ultimately show ?thesis using inv by auto
qed

lemma task_in_commit:
  assumes "in_commit (ItemTask n m tx w t)" and "task_step es tx t sh = (t', w', sh')" and "t' \<noteq> TaskPanic \<or> t = TaskPanic"
  shows "in_commit (ItemTask n m tx w' t')"
  using assms(1) check_task_step[of es tx sh t' w' sh'] task_step_owes(1)[OF assms(2,3)] assms(2,3) by auto

text \<open>A step of a spawned task, or the sending of its answer.\<close>

lemma item_inv:
  assumes inv: "tx_inv nodes ex (c, h, F)" and x: "ItemTask n m tx w t \<in># F"
    and y: "N \<subseteq># {#y#}" "routed nodes (client_server_id c) y" "owes (card nodes - 1) y = task_owes t" "\<not> is_handler y"
      "\<not> is_finish y"
    and ic: "in_commit (ItemTask n m tx w t) \<longrightarrow> in_commit y"
  shows "tx_inv nodes (ex \<and> N \<noteq> {#}) (c, h, F - {#ItemTask n m tx w t#} + N)"
proof -
  let ?k = "card nodes - 1" and ?x = "ItemTask n m tx w t" and ?F = "F - {#ItemTask n m tx w t#} + N"
  have N: "z = y" if "z \<in># N" for z using subset_single[OF y(1) that] .
  have "bounded (N \<noteq> {#}) (debt ?k N) (owes ?k ?x)"
  proof -
    have "N = {#} \<or> N = {#y#}" using y(1) N by (cases N) auto
    then show ?thesis using y(3) by (auto simp: bounded_def)
  qed
  moreover have "books ex ?k (client_pc c) h F" using inv by simp
  moreover have "client_pc c = CommitWait \<longrightarrow> (\<forall>z \<in># N. in_commit z \<and> \<not> is_handler z)"
  proof (intro impI ballI)
    fix z
    assume pc: "client_pc c = CommitWait" and z: "z \<in># N"
    from inv pc have "\<forall>x \<in># F. in_commit x" by (simp add: books_def)
    with x have "in_commit ?x" by blast
    with ic y(4) N[OF z] show "in_commit z \<and> \<not> is_handler z" by blast
  qed
  ultimately have "books (ex \<and> N \<noteq> {#}) ?k (client_pc c) h ?F"
    using x by (intro books_replace) auto
  moreover have "\<forall>z \<in># ?F. routed nodes (client_server_id c) z"
    using inv N y(2) by (intro replace_all) auto
  moreover have "\<forall>z \<in># ?F. \<not> is_finish z" if "\<not> ended (client_pc c)"
    using inv that N y(5) by (intro replace_all) auto
  ultimately show ?thesis using inv by auto
qed

text \<open>
  Steps of the client handler: its position and what it sends change together, so that the books
  are right again.
\<close>

lemma tx_inv_handler:
  assumes "tx_inv nodes ex (c, h, F)" and "client_step ev c sh = Some (c', sh', out)"
    and "F' \<subseteq># F" and "\<not> ended (client_pc c)"
    and "\<forall>y \<in># N. routed nodes (client_server_id c) y" and "\<not> ended (client_pc c') \<longrightarrow> (\<forall>y \<in># N. \<not> is_finish y)"
    and "books ex (card nodes - 1) (client_pc c') h (F' + N)"
  shows "tx_inv nodes ex (c', h, F' + N)"
  using assms client_step_frame[OF assms(2)] by (auto dest: mset_subset_eqD)

lemma remote_target: "extract_shard c k = Remote m \<Longrightarrow> m \<in> set (client_shard_ids c) \<and> m \<noteq> client_server_id c"
  by (auto simp: extract_shard_def split: list.splits if_splits)

lemma request_inv:
  assumes inv: "tx_inv nodes ex (c, h, F)" and st: "client_step ev c sh = Some (c', sh', out)"
    and ev: "ev = StreamClosed \<or> ev = GotRequest req"
  shows "tx_inv nodes ex (c', h, F + client_items (client_server_id c) out)"
proof -
  have pc: "client_pc c = AwaitRequest" using st ev by (auto split: if_splits)
  then have d: "debt (card nodes - 1) F = 0" using inv by (simp add: books_def)
  consider "ev = StreamClosed" | k b where "ev = GotRequest (WriteBalance k b)" | k where "ev = GotRequest (ReadBalance k)"
    | "ev = GotRequest Commit" | "ev = GotRequest ClientRequest.Abort" using ev by (cases req) auto
  then show ?thesis
  proof cases
    case 1
    with st pc d show ?thesis
      by (intro tx_inv_handler[OF inv st]) (auto simp: ended_def books_def)
  next
    case 2
    with st pc d inv show ?thesis
      by (intro tx_inv_handler[OF inv st]) (auto simp: ended_def books_def bounded_def handle_balance_change_request_def
          respond_def split: TargetShard.splits dest: remote_target)
  next
    case 3
    with st pc d inv show ?thesis
      by (intro tx_inv_handler[OF inv st]) (auto simp: ended_def books_def bounded_def handle_balance_request_def
          respond_def split: TargetShard.splits dest: remote_target)
  qed (use st pc d in \<open>intro tx_inv_handler[OF inv st]; auto simp: ended_def books_def\<close>)+
qed

lemma forward_inv:
  assumes inv: "tx_inv nodes ex (c, h, F)" and ph: "view_phase nodes tx (c, h, F)" and x: "ItemHandler tx r \<in># F"
    and st: "client_step (GotForward r) c sh = Some (c', sh', out)"
  shows "tx_inv nodes ex (c', h, F - {#ItemHandler tx r#} + client_items (client_server_id c) out)"
proof -
  let ?k = "card nodes - 1" and ?F = "F - {#ItemHandler tx r#}"
  have d: "debt ?k ?F + 1 = debt ?k F" using debt_diff[OF x, of ?k] by simp
  have nodes: "length (client_shard_ids c) = ?k + 1"
    using inv distinct_card[of "client_shard_ids c"] card_gt_0_iff[of nodes] by auto
  consider "client_pc c = AwaitForward" | i q where "client_pc c = AbortWait i q" | "client_pc c = CommitWait"
    using st by (auto split: client_pc.splits)
  then show ?thesis
  proof cases
    case 1
    with st d inv show ?thesis
      by (intro tx_inv_handler[OF inv st]) (auto simp: ended_def books_def bounded_def respond_def split: if_splits)
  next
    case 2
    from ph 2 have "\<forall>x \<in># F. abort_item tx x"
      by (auto simp: phase_def active_def voting_def committing_def aborting_def quiet_pc_def)
    with x have "abort_item tx (ItemHandler tx r)" by blast
    then have "r = Aborted" by (simp add: abort_item_def)
    with 2 st d inv nodes show ?thesis
      by (intro tx_inv_handler[OF inv st]) (auto simp: ended_def books_def bounded_def abort_loop_def finish_with_def
          split: if_splits)
  next
    case 3
    have "decided F" using x by (auto simp: decided_def intro: bexI[of _ "ItemHandler tx r"])
    with 3 inv have "debt ?k F \<le> 1" by (simp add: books_def bounded_def)
    with 3 st d show ?thesis
      by (intro tx_inv_handler[OF inv st]) (auto simp: ended_def books_def commit_decision_def finish_with_def
          split: ClientResponse.splits)
  qed
qed

lemma pass_inv:
  assumes inv: "tx_inv nodes ex (c, h, F)" and ph: "view_phase nodes tx (c, h, F)"
    and st: "client_step (LocalPass es) c sh = Some (c', sh', out)"
  shows "tx_inv nodes ex (c', h, F + client_items (client_server_id c) out)"
proof -
  let ?k = "card nodes - 1"
  have nodes: "length (client_shard_ids c) = ?k + 1"
    using inv distinct_card[of "client_shard_ids c"] card_gt_0_iff[of nodes] by auto
  note lp = client_pass[OF st]
  consider (quiet) "quiet_pc (client_pc c)" "client_pc c \<noteq> CommitCheck" | (check) "client_pc c = CommitCheck"
    | (undo) r where "client_pc c = AbortLocal r" | (commit) r where "client_pc c = CommitLocal r"
    using lp by (cases "client_pc c") (auto simp: quiet_pc_def)
  then show ?thesis
  proof cases
    case quiet
    then have d: "debt ?k F = 0" using inv by (auto simp: books_def quiet_pc_def split: client_pc.splits)
    from local_quiet[OF lp quiet, of "client_server_id c" tx AwaitRequest] quiet(1)
    have "client_items (client_server_id c) out = {#}" "quiet_pc (client_pc c') \<or> (\<exists>r. client_pc c' = AbortLocal r)" by auto
    with d quiet(1) show ?thesis
      by (intro tx_inv_handler[OF inv st]) (auto simp: ended_def books_def quiet_pc_def split: client_pc.splits)
  next
    case check
    then have d: "debt ?k F = 0" using inv by (auto simp: books_def)
    from ph check have F: "F = {#}" and h: "h = Some fresh_handle"
      by (auto simp: phase_def active_def voting_def committing_def aborting_def)
    with lp check show ?thesis
      by (intro tx_inv_handler[OF inv st]) (auto simp: ended_def books_def handle_commit_request_def decided_def bounded_def
          split: option.splits prod.splits pass.splits result.splits)
  next
    case undo
    with inv lp nodes show ?thesis
      by (intro tx_inv_handler[OF inv st]) (auto simp: ended_def books_def do_abort_def abort_loop_def finish_with_def
          bounded_def split: if_splits)
  next
    case commit
    with inv lp show ?thesis
      by (intro tx_inv_handler[OF inv st]) (auto simp: ended_def books_def do_commit_def finish_with_def
          split: option.splits prod.splits pass.splits result.splits)
  qed
qed

lemma tx_step_inv:
  assumes "tx_step nodes tx ok v v'" and "tx_inv nodes ex v" and "view_phase nodes tx v"
  shows "tx_inv nodes (ex \<and> ok) v'"
  using assms
proof (induction rule: tx_step.induct)
  case (tx_serve x F n ev ch s out s' c h h')
  from serve_inv[OF tx_serve(9,10,1-8)] show ?case .
next
  case (tx_task n m w t F es sh t' w' sh' c h)
  have "routed nodes (client_server_id c) (ItemTask n m tx w t)" using tx_task(1,4) by (auto simp del: routed.simps)
  with task_step_owes[OF tx_task(2,3)] task_in_commit[OF _ tx_task(2,3)]
  show ?case using item_inv[OF tx_task(4,1), of "{#ItemTask n m tx w' t'#}" "ItemTask n m tx w' t'"] by auto
next
  case (tx_send n m w f F N c h)
  have "routed nodes (client_server_id c) (ItemTask n m tx w (TaskSend f))" "client_server_id c \<in> nodes"
    using tx_send(1,3) by (auto simp del: routed.simps)
  then have f: "is_answer f" "m = client_server_id c" "n \<noteq> m" "n \<in> nodes" "m \<in> nodes" by auto
  then have "routed nodes (client_server_id c) (ItemWire n m f)" by (cases f) auto
  moreover have "in_commit (ItemTask n m tx w (TaskSend f)) \<longrightarrow> in_commit (ItemWire n m f)" using f(1) by (cases f) auto
  ultimately show ?case by (intro item_inv[OF tx_send(3,1,2)]) (simp_all del: routed.simps in_commit.simps)
next
  case (tx_request ev c sh c' sh' out req h F)
  from request_inv[OF tx_request(3,1,2)] show ?case by (simp only: simp_thms)
next
  case (tx_forward r F c sh c' sh' out h)
  from forward_inv[OF tx_forward(3,4,1,2)] show ?case by (simp only: simp_thms)
next
  case (tx_pass es c sh c' sh' out h F)
  from pass_inv[OF tx_pass(2,3,1)] show ?case by (simp only: simp_thms)
qed

section \<open>Shards and panics\<close>

lemma local_pass_step:
  assumes "local_pass es pc c sh = Some (c', sh', out)" and "enumerates es sh"
  shows "sh' = sh \<or> shard_step check_amount 0 (transaction_id c) sh sh'"
  using assms by (cases pc) (auto simp: pass_defs do_abort_def do_commit_def handle_commit_request_def Let_def
      intro: shard_step.intros split: prod.splits pass.splits sum.splits option.splits result.splits)

lemma client_step_shard:
  assumes "client_step ev c sh = Some (c', sh', out)" and "\<forall>es. ev = LocalPass es \<longrightarrow> enumerates es sh"
  shows "sh' = sh \<or> shard_step check_amount 0 (transaction_id c) sh sh'"
proof (cases ev)
  case (LocalPass es)
  with local_pass_step[OF client_pass] assms show ?thesis by fastforce
qed (use assms in \<open>auto split: client_pc.splits if_splits prod.splits\<close>)

text \<open>A step of the cluster makes at most one pass on each shard.\<close>

lemma cluster_step_shards:
  assumes "cluster_step \<sigma> \<sigma>'"
  shows "shd \<sigma>' n = shd \<sigma> n \<or> (\<exists>t. shard_step check_amount 0 t (shd \<sigma> n) (shd \<sigma>' n))"
  using assms
proof (induction rule: cluster_step.induct)
  case (task k \<sigma> m t w a es a' w' sh')
  with task_step_pass[OF task(4,5)] show ?case by auto
next
  case (handler_pass \<sigma> t c k es c' sh' out)
  have "sh' = shd \<sigma> k \<or> shard_step check_amount 0 (transaction_id c) (shd \<sigma> k) sh'"
    using handler_pass(4) by (intro client_step_shard[OF handler_pass(5)]) simp
  then show ?case by auto
next
  case (orphan c \<sigma> k t ev c' sh' out)
  have "sh' = shd \<sigma> k \<or> shard_step check_amount 0 (transaction_id c) (shd \<sigma> k) sh'"
    by (rule client_step_shard[OF orphan(7,5)])
  then show ?case by auto
qed auto

lemma local_pass_no_panic:
  assumes "local_pass es pc c sh = Some (c', sh', out)" and "shard_inv check_amount sh" and "enumerates es sh"
    and "client_pc c = pc" and "pc \<noteq> ClientPanic"
  shows "client_pc c' \<noteq> ClientPanic"
  using assms(1,4,5) check_commit_pass_total[of es "transaction_id c" sh] commit_pass_total[OF assms(2,3), of "transaction_id c"]
  by (cases pc) (auto simp: handler_defs Let_def
      split: prod.splits pass.splits sum.splits option.splits result.splits if_splits)

lemma client_step_event:
  assumes "client_step ev c sh = Some (c', sh', out)" and "ev = StreamClosed \<or> ev = GotRequest req \<or> ev = GotForward r"
  shows "client_pc c' \<noteq> ClientPanic"
proof -
  consider "ev = StreamClosed" | "ev = GotRequest req" | "ev = GotForward r" using assms(2) by blast
  then show ?thesis
  proof cases
    case 2
    with assms(1) show ?thesis by (cases req) (auto simp: handler_defs split: if_splits TargetShard.splits)
  next
    case 3
    with assms(1) show ?thesis
      by (auto simp: handler_defs Let_def split: client_pc.splits if_splits ClientResponse.splits)
  qed (use assms(1) in \<open>auto split: if_splits\<close>)
qed

fun is_panic :: "item \<Rightarrow> bool" where
  "is_panic (ItemTask n m t w TaskPanic) \<longleftrightarrow> True"
| "is_panic _ \<longleftrightarrow> False"

lemma remote_task_no_panic [simp]: "\<not> is_panic (ItemTask n m t w (remote_task r))"
  by (cases r) auto

lemma effects_no_panic: "y \<in># effect_items n out \<Longrightarrow> \<not> is_panic y"
  by (induction n out rule: effect_items.induct) auto

lemma client_no_panic: "y \<in># client_items n out \<Longrightarrow> \<not> is_panic y"
  by (induction n out rule: client_items.induct) auto

text \<open>Tasks that are asleep have been woken or have an older transaction to wait for.\<close>

definition sleepers_ok :: "Cluster \<Rightarrow> bool" where
  "sleepers_ok \<sigma> \<longleftrightarrow> (\<forall>n m tx v t. ItemTask n m tx (Some v) t \<in># items \<sigma> \<longrightarrow> waits tx v (shd \<sigma> n))"

lemma effects_awake: "ItemTask n' m tx (Some v) t \<notin># effect_items n out"
  by (induction n out rule: effect_items.induct) auto

lemma client_awake: "ItemTask n' m tx (Some v) t \<notin># client_items n out"
  by (induction n out rule: client_items.induct) auto

lemma new_sleeper:
  assumes "cluster_step \<sigma> \<sigma>'" and "\<And>n. shard_inv check_amount (shd \<sigma> n)" and "ItemTask n m tx (Some v) t \<in># items \<sigma>'"
  shows "ItemTask n m tx (Some v) t \<in># items \<sigma> \<or> waits tx v (shd \<sigma>' n)"
  using assms
proof (induction rule: cluster_step.induct)
  case (task k \<sigma> m' t' w a es a' w' sh')
  with task_step_asleep[OF task(6) task(4)] show ?case by (auto dest: in_diffD)
next
  case (serve k \<sigma> x ev ch out s')
  then have "ItemTask n m tx (Some v) t \<in># items \<sigma> - {#x#} + effect_items k out" by simp
  with effects_awake show ?case by (auto simp only: union_iff dest: in_diffD)
next
  case (handler_forward \<sigma> t' c k r c' sh' out)
  then have "ItemTask n m tx (Some v) t \<in># items \<sigma> - {#ItemHandler t' r#} + client_items k out" by simp
  with client_awake show ?case by (auto simp only: union_iff dest: in_diffD)
next
  case (orphan c \<sigma> k t' ev c' sh' out)
  then have "ItemTask n m tx (Some v) t \<in># items \<sigma> - taken t' ev + client_items k out" by simp
  with client_awake show ?case by (auto simp only: union_iff dest: in_diffD)
qed (auto simp: client_awake dest: in_diffD)

lemma sleepers_step:
  assumes "cluster_step \<sigma> \<sigma>'" and "\<And>n. shard_inv check_amount (shd \<sigma> n)" and "sleepers_ok \<sigma>"
  shows "sleepers_ok \<sigma>'"
  unfolding sleepers_ok_def
proof (intro allI impI)
  fix n m tx v t
  assume "ItemTask n m tx (Some v) t \<in># items \<sigma>'"
  from new_sleeper[OF assms(1,2) this] show "waits tx v (shd \<sigma>' n)"
  proof
    assume "ItemTask n m tx (Some v) t \<in># items \<sigma>"
    with assms(3) have "waits tx v (shd \<sigma> n)" unfolding sleepers_ok_def by blast
    with cluster_step_shards[OF assms(1), of n] waits_step[OF check_amount_zero assms(2)] show ?thesis by auto
  qed
qed

section \<open>The invariant of the whole cluster\<close>

definition safe_inv :: "NodeId set \<Rightarrow> bool \<Rightarrow> Cluster \<Rightarrow> bool" where
  "safe_inv nodes ex \<sigma> \<longleftrightarrow> cluster_inv nodes \<sigma> \<and>
     (\<forall>n. distinct (server_shard_ids (srv \<sigma> n)) \<and> set (server_shard_ids (srv \<sigma> n)) = nodes) \<and>
     - nodes \<subseteq> halted \<sigma> \<and> (\<forall>n. shard_inv check_amount (shd \<sigma> n)) \<and> (\<forall>x \<in># items \<sigma>. \<not> is_panic x) \<and>
     sleepers_ok \<sigma> \<and>
     (\<forall>tx c. hdl \<sigma> tx = Some c \<longrightarrow> tx \<notin> reused \<sigma> \<longrightarrow> client_pc c \<noteq> ClientPanic \<and> tx_inv nodes ex (view \<sigma> tx c))"

lemma view_phaseI:
  "cluster_inv nodes \<sigma> \<Longrightarrow> hdl \<sigma> tx = Some c \<Longrightarrow> tx \<notin> reused \<sigma> \<Longrightarrow> view_phase nodes tx (view \<sigma> tx c)"
  by (fastforce simp: cluster_inv_def tx_ok_def view_def split: option.splits)

lemma view_live: "tx_inv nodes ex (view \<sigma> tx c) \<Longrightarrow> ended (client_pc c) \<or> clients (srv \<sigma> (client_server_id c)) tx \<noteq> None"
  by (auto simp: view_def)

lemma cluster_reused: "cluster_step \<sigma> \<sigma>' \<Longrightarrow> reused \<sigma> \<subseteq> reused \<sigma>'"
  by (induction rule: cluster_step.induct) auto

lemma cluster_step_ids:
  "cluster_step \<sigma> \<sigma>' \<Longrightarrow> server_shard_ids (srv \<sigma>' n) = server_shard_ids (srv \<sigma> n) \<and> halted \<sigma> \<subseteq> halted \<sigma>'"
proof (induction rule: cluster_step.induct)
  case (accept k \<sigma> ch now t s')
  then show ?case using serve_step_shard_ids[of ch "Accept now" "srv \<sigma> k"] by auto
next
  case (accept_again k \<sigma> ch now t s' c)
  then show ?case using serve_step_shard_ids[of ch "Accept now" "srv \<sigma> k"] by auto
next
  case (serve k \<sigma> x ev ch out s')
  then show ?case using serve_step_shard_ids[of ch ev "srv \<sigma> k"] by auto
qed auto

lemma cluster_step_tasks:
  assumes "cluster_step \<sigma> \<sigma>'" and "\<And>n. shard_inv check_amount (shd \<sigma> n)" and "\<forall>x \<in># items \<sigma>. \<not> is_panic x"
  shows "\<forall>x \<in># items \<sigma>'. \<not> is_panic x"
  using assms
proof (induction rule: cluster_step.induct)
  case (serve k \<sigma> x ev ch out s')
  from replace_all[OF serve(6) effects_no_panic] show ?case by simp
next
  case (task k \<sigma> m t w a es a' w' sh')
  have "a \<noteq> TaskPanic" using task(2,7) by auto
  with task task_step_no_panic[OF task(6) task(4), of a t] have "a' \<noteq> TaskPanic" by simp
  then have "\<not> is_panic (ItemTask k m t w' a')" by (cases a') auto
  with replace_all[OF task(7), of "{#ItemTask k m t w' a'#}"] show ?case by simp
next
  case (handler_forward \<sigma> t c k r c' sh' out)
  from replace_all[OF handler_forward(7) client_no_panic] show ?case by simp
next
  case (orphan c \<sigma> k t ev c' sh' out)
  have "\<forall>y \<in># items \<sigma> - taken t ev + client_items k out. \<not> is_panic y"
    using orphan(9) client_no_panic by (auto dest: in_diffD)
  then show ?case by simp
qed (auto simp: client_no_panic dest: in_diffD)

lemma cluster_step_handlers:
  assumes "cluster_step \<sigma> \<sigma>'" and "\<And>n. shard_inv check_amount (shd \<sigma> n)"
    and "\<And>tx c. hdl \<sigma> tx = Some c \<Longrightarrow> tx \<notin> reused \<sigma> \<Longrightarrow> client_pc c \<noteq> ClientPanic \<and>
      (ended (client_pc c) \<or> clients (srv \<sigma> (client_server_id c)) tx \<noteq> None)"
    and "hdl \<sigma>' tx = Some c'" and "tx \<notin> reused \<sigma>'"
  shows "client_pc c' \<noteq> ClientPanic"
  using assms
proof (induction rule: cluster_step.induct)
  case (handler_request \<sigma> t c k ev c1 sh' out req)
  with client_step_event[OF handler_request(4)] show ?case by (auto split: if_splits)
next
  case (handler_forward \<sigma> t c k r c1 sh' out)
  with client_step_event[OF handler_forward(5)] show ?case by (auto split: if_splits)
next
  case (handler_pass \<sigma> t c k es c1 sh' out)
  show ?case
  proof (cases "t = tx")
    case True
    then have "client_pc c \<noteq> ClientPanic" using handler_pass(1,9) handler_pass(7)[of tx c] by auto
    with local_pass_no_panic[OF client_pass[OF handler_pass(5)] handler_pass(6,4)] True handler_pass(8) show ?thesis by simp
  next
    case False
    with handler_pass(7)[of tx c'] handler_pass(8,9) show ?thesis by auto
  qed
next
  case (handler_closed \<sigma> t c k c1 sh' out)
  show ?case
  proof (cases "t = tx")
    case True
    then have "ended (client_pc c)" using handler_closed(1,2,4,10) handler_closed(8)[of tx c] by auto
    with handler_closed(6) show ?thesis by (auto simp: ended_def)
  next
    case False
    with handler_closed(8)[of tx c'] handler_closed(9,10) show ?thesis by auto
  qed
next
  case (accept n \<sigma> ch now t s')
  with accept(5)[of tx c'] show ?case by (auto simp: Client_new_def split: if_splits)
next
  case (accept_again n \<sigma> ch now t s' c)
  with accept_again(5)[of tx c'] show ?case by (auto simp: Client_new_def split: if_splits)
qed auto

lemma new_client_inv:
  assumes "safe_inv nodes ex \<sigma>" and "n \<notin> halted \<sigma>" and "hdl \<sigma> tx = None" and "tx \<notin> reused \<sigma>"
    and "serve_step ch (Accept now) (srv \<sigma> n) = ([SpawnClient tx], s')"
    and "srv \<sigma>' = (srv \<sigma>)(n := s')" and "items \<sigma>' = items \<sigma>"
  shows "tx_inv nodes ex (view \<sigma>' tx (Client_new n tx (server_shard_ids s')))"
proof -
  have "tx_ok \<sigma> tx" using assms(1,4) by (simp add: safe_inv_def cluster_inv_def)
  then have "flight tx \<sigma>' = {#}" using assms(3,7) by (simp add: tx_ok_def flight_def)
  moreover have "n \<in> nodes" using assms(1,2) by (auto simp: safe_inv_def)
  moreover have "distinct (server_shard_ids s')" "set (server_shard_ids s') = nodes"
    using assms(1) serve_step_shard_ids[of ch "Accept now" "srv \<sigma> n"] assms(5) by (auto simp: safe_inv_def)
  ultimately show ?thesis
    using accept_ok[OF assms(5)] assms(6) by (simp add: view_def Client_new_def books_def)
qed

lemma safe_step_tx:
  assumes "cluster_step \<sigma> \<sigma>'" and "safe_inv nodes ex \<sigma>" and "ex \<longrightarrow> healthy_step \<sigma> \<sigma>'"
    and "hdl \<sigma>' tx = Some c'" and new: "tx \<notin> reused \<sigma>'"
  shows "tx_inv nodes ex (view \<sigma>' tx c')"
proof (cases "hdl \<sigma> tx")
  have old: "tx \<notin> reused \<sigma>" using cluster_reused[OF assms(1)] new by blast
  {
    case None
    then obtain n ch now s' where "n \<notin> halted \<sigma>" "serve_step ch (Accept now) (srv \<sigma> n) = ([SpawnClient tx], s')"
      "srv \<sigma>' = (srv \<sigma>)(n := s')" "items \<sigma>' = items \<sigma>" "c' = Client_new n tx (server_shard_ids s')"
      using assms(4) by (cases rule: cluster_step.cases[OF assms(1)]) (auto split: if_splits)
    with new_client_inv[OF assms(2) _ None old] show ?thesis by blast
  next
    case (Some c)
    have inv: "tx_inv nodes ex (view \<sigma> tx c)" and c: "cluster_inv nodes \<sigma>"
      and sh: "shard_inv check_amount (shd \<sigma> n)" for n
      using assms(2) Some old by (auto simp: safe_inv_def)
    obtain ok where ok: "healthy_step \<sigma> \<sigma>' \<longrightarrow> ok"
      "view \<sigma>' tx c' = view \<sigma> tx c \<or> tx_step nodes tx ok (view \<sigma> tx c) (view \<sigma>' tx c')"
      using cluster_step_moves[OF assms(1) c Some sh new view_live[OF inv]] assms(4) unfolding moves_def by auto
    then show ?thesis
    proof (elim disjE)
      assume "tx_step nodes tx ok (view \<sigma> tx c) (view \<sigma>' tx c')"
      from tx_step_inv[OF this inv view_phaseI[OF c Some old]] have i: "tx_inv nodes (ex \<and> ok) (view \<sigma>' tx c')" .
      have "(ex \<and> ok) = ex" using ok(1) assms(3) by auto
      with i show ?thesis by (simp only:)
    qed (use inv in \<open>simp only:\<close>)
  }
qed

lemma safe_step:
  assumes "safe_inv nodes ex \<sigma>" and "cluster_step \<sigma> \<sigma>'" and "ex \<longrightarrow> healthy_step \<sigma> \<sigma>'"
  shows "safe_inv nodes ex \<sigma>'"
proof -
  note i = assms(1)[unfolded safe_inv_def]
  have sh: "shard_inv check_amount (shd \<sigma> n)" for n using i by blast
  have tasks: "\<forall>x \<in># items \<sigma>. \<not> is_panic x" and sleep: "sleepers_ok \<sigma>" using i by blast+
  have live: "client_pc c \<noteq> ClientPanic \<and> (ended (client_pc c) \<or> clients (srv \<sigma> (client_server_id c)) tx \<noteq> None)"
    if "hdl \<sigma> tx = Some c" "tx \<notin> reused \<sigma>" for tx c
    using i that view_live[of nodes ex \<sigma> tx c] by blast
  show ?thesis unfolding safe_inv_def
  proof (intro conjI allI impI)
    show "cluster_inv nodes \<sigma>'" using cluster.inv_step[OF _ assms(2)] i by blast
    show "- nodes \<subseteq> halted \<sigma>'" using i cluster_step_ids[OF assms(2)] by blast
    show "distinct (server_shard_ids (srv \<sigma>' n))" "set (server_shard_ids (srv \<sigma>' n)) = nodes" for n
      using i cluster_step_ids[OF assms(2), of n] by simp_all
    show "shard_inv check_amount (shd \<sigma>' n)" for n
      using cluster_step_shards[OF assms(2), of n] shard_step_inv[of check_amount 0, OF check_amount_zero _ sh[of n]] sh by metis
    show "\<forall>x \<in># items \<sigma>'. \<not> is_panic x" by (rule cluster_step_tasks[OF assms(2) sh tasks])
    show "sleepers_ok \<sigma>'" by (rule sleepers_step[OF assms(2) sh sleep])
    fix tx c assume c: "hdl \<sigma>' tx = Some c" "tx \<notin> reused \<sigma>'"
    show "client_pc c \<noteq> ClientPanic" by (rule cluster_step_handlers[OF assms(2) sh live c])
    show "tx_inv nodes ex (view \<sigma>' tx c)" by (rule safe_step_tx[OF assms(2,1,3) c])
  qed
qed

lemma cluster_init_server:
  assumes "cluster_init nodes \<sigma>"
  shows "distinct (server_shard_ids (srv \<sigma> n)) \<and> set (server_shard_ids (srv \<sigma> n)) = nodes"
proof -
  obtain pool ids where "srv \<sigma> n = server_start n pool ids" "distinct ids" "set ids = nodes"
    using assms unfolding cluster_init_def by blast
  then show ?thesis by (simp add: server_start_def)
qed

lemma safe_init: "cluster_init nodes \<sigma> \<Longrightarrow> safe_inv nodes ex \<sigma>"
  using cluster.inv_init[of nodes \<sigma>] cluster_init_server[of nodes \<sigma>]
  by (auto simp: safe_inv_def cluster_init_def sleepers_ok_def intro: shard_new_inv)

interpretation safe: step_invariant "cluster_init nodes" cluster_step "safe_inv nodes False" for nodes
  by unfold_locales (auto intro: safe_init safe_step)

interpretation healthy: step_invariant "cluster_init nodes" healthy_step "safe_inv nodes True" for nodes
  by unfold_locales (auto simp: healthy_step_def intro: safe_init safe_step[unfolded healthy_step_def])

section \<open>Nothing panics\<close>

lemma answer_handle:
  assumes "tx_inv nodes ex (c, h, F)" and "x \<in># F" and "0 < owes (card nodes - 1) x"
  shows "h \<noteq> None"
proof
  assume "h = None"
  with assms(1) have "debt (card nodes - 1) F = 0" by (auto simp: ended_def books_def)
  with debt_member[OF assms(2), of "card nodes - 1"] assms(3) show False by simp
qed

lemma two_phase_no_panic: "clients s tx \<noteq> None \<Longrightarrow> Panic \<notin> set (fst (handle_two_phase_commit ch tx v s))"
  using broadcast_to_only_servers[of Panic]
  by (auto simp: handle_two_phase_commit_def Let_def pass_to_client_def or_panic_def or_exit_def broadcast_def
      split: CommitStatus.splits if_splits)

lemma serve_no_panic:
  assumes "tx_inv nodes ex (c, h, F)" and "x \<in># F" and "received n x = Some ev" and "serve_step ch ev s = (out, s')"
    and "set (server_pool s) = nodes - {n}" and "n = client_server_id c \<longrightarrow> clients s (item_tx x) = h"
  shows "Panic \<notin> set out"
proof -
  have r: "routed nodes (client_server_id c) x" using assms(1,2) by auto
  note bc = broadcast_to_only_servers[of Panic]
  show ?thesis
  proof (cases x)
    case (ItemServer n' st)
    with assms(3-5) r bc show ?thesis
      by (cases "(ch, st, s)" rule: handle_client_state.cases)
        (auto simp: or_panic_def or_exit_def pass_message_def broadcast_def split: if_splits)
  next
    case (ItemWire a b f)
    with assms(3) have b: "b = n" "ev = FromServer \<lparr>msg = Message f, member_id = a\<rparr>" by (auto split: if_splits)
    have cl: "clients s (item_tx x) \<noteq> None" if "is_answer f"
      using answer_handle[OF assms(1,2)] that r ItemWire b assms(6) by (cases f) auto
    show ?thesis
    proof (cases f)
      case (TwoPhaseCommitStatus t v)
      with two_phase_no_panic[of s t ch v] cl ItemWire b assms(4) show ?thesis by auto
    next
      case (Response t q)
      with cl ItemWire b assms(4) show ?thesis
        by (auto simp: or_panic_def or_exit_def pass_to_client_def split: if_splits)
    next
      case (Request t q)
      have "a \<in> set (server_pool s)" using assms(5) r ItemWire b(1) by auto
      with Request b(2) assms(4) show ?thesis by (auto simp: handle_remote_request_def)
    qed (use assms(4) b(2) in auto)
  qed (use assms(3) in auto)
qed

text \<open>
  C3. In every reachable state of the cluster, with any interleaving, any order of delivery, any
  nodes stopping and any clocks, no spawned task has panicked. For a transaction whose id has not
  been handed out a second time, its client handler has not panicked either, so in particular it
  never finds its channel closed while it waits for an answer, and no message of the transaction
  that is on its way makes the server task that receives it panic. Every \<open>unwrap\<close> on the pool,
  on the table of clients, on the channel from the server task and on the results of joined tasks
  succeeds.
\<close>

theorem cluster_never_panics:
  assumes "reach (cluster_init nodes) cluster_step \<sigma>"
  shows "ItemTask n m tx w TaskPanic \<notin># items \<sigma> \<and>
    (tx \<notin> reused \<sigma> \<longrightarrow>
      (\<forall>c. hdl \<sigma> tx = Some c \<longrightarrow> client_pc c \<noteq> ClientPanic) \<and>
      (\<forall>x ev ch. x \<in># items \<sigma> \<longrightarrow> item_tx x = tx \<longrightarrow> received n x = Some ev \<longrightarrow>
        Panic \<notin> set (fst (serve_step ch ev (srv \<sigma> n)))))"
proof (intro conjI allI impI)
  note i = safe.reach_inv[OF assms, unfolded safe_inv_def]
  show "ItemTask n m tx w TaskPanic \<notin># items \<sigma>" using i by auto
  assume tx: "tx \<notin> reused \<sigma>"
  show "client_pc c \<noteq> ClientPanic" if "hdl \<sigma> tx = Some c" for c using i that tx by blast
  fix x ev ch
  assume x: "x \<in># items \<sigma>" "item_tx x = tx" and ev: "received n x = Some ev"
  have c: "cluster_inv nodes \<sigma>" using i by blast
  then have ok: "tx_ok \<sigma> tx" and pool: "set (server_pool (srv \<sigma> n)) = nodes - {n}" using tx by (auto simp: cluster_inv_def)
  obtain k where k: "hdl \<sigma> tx = Some k" and F: "x \<in># flight tx \<sigma>" using tx_ok_item[OF ok x] by metis
  have "tx_inv nodes False (view \<sigma> tx k)" using i k tx by blast
  from serve_no_panic[OF this[unfolded view_def] F ev prod.collapse[symmetric] pool] x(2)
  show "Panic \<notin> set (fst (serve_step ch ev (srv \<sigma> n)))" by simp
qed

theorem cluster_never_panics_witness:
  "\<exists>\<sigma>. reach (cluster_init {CHR ''A'', CHR ''B''}) cluster_step \<sigma> \<and> demo_tx \<notin> reused \<sigma> \<and>
     ItemServer CHR ''A'' (Forward Broadcast demo_tx Commit) \<in># items \<sigma> \<and>
     Panic \<notin> set (fst (serve_step demo_ch (FromClient (Forward Broadcast demo_tx Commit)) (srv \<sigma> CHR ''A'')))"
  using cluster_never_panics[OF demo_vote, of "CHR ''A''" _ demo_tx] demo_vote
  by (intro exI conjI) (auto simp: demo_at_def)

text \<open>
  C4. No balance committed anywhere in the cluster is ever negative, in any reachable state.
\<close>

theorem cluster_balances:
  assumes "reach (cluster_init nodes) cluster_step \<sigma>" and "committed (store_of (shd \<sigma> n)) k = Some v"
  shows "0 \<le> sint v"
  using safe.reach_inv[OF assms(1)] assms(2) by (auto simp: safe_inv_def intro: committed_not_negative)

section \<open>A deposit that commits\<close>

definition bank_shard :: AtomicShard where
  "bank_shard = snd (write_pass demo_tx ''A.x'' 20 (shard_new CHR ''A''))"

definition bank_done :: AtomicShard where
  "bank_done = snd (the (commit_pass demo_entries demo_tx bank_shard))"

lemma bank_passes:
  shows "read_pass demo_tx ''A.x'' (shard_new CHR ''A'') = (Return (Err ObjectNotFound), shard_new CHR ''A'')"
    and "write_pass demo_tx ''A.x'' 20 (shard_new CHR ''A'') = (Return (Ok ()), bank_shard)"
    and "check_commit_pass demo_entries demo_tx bank_shard = Some (Return (Ok ()), bank_shard)"
    and "commit_pass demo_entries demo_tx bank_shard = Some (Return (Ok (ValueChanged [(''A.x'', 20)])), bank_done)"
    and "enumerates [] (shard_new CHR ''A'')" and "enumerates demo_entries bank_shard"
    and "committed (store_of bank_done) ''A.x'' = Some 20"
  by (simp_all add: bank_shard_def bank_done_def pass_defs shard_eval enumerates_def store_sel object_map_def
      object_committed_value_def)

lemma bank_deposit:
  "\<exists>H. reach (cluster_init {CHR ''A'', CHR ''B''}) cluster_step (demo_at bank_shard 0 AwaitRequest {#} H)"
proof -
  have 1: "cluster_step (demo_at (shard_new CHR ''A'') 0 AwaitRequest {#} {})
      (demo_at (shard_new CHR ''A'') 0 (LocalChangeRead ''A.x'' (BalanceDiff 20)) {#} {})"
    by (rule demo_ask[where req = "WriteBalance ''A.x'' (BalanceDiff 20)"])
      (simp add: handle_balance_change_request_def extract_shard_def Client_new_def)
  have 2: "cluster_step (demo_at (shard_new CHR ''A'') 0 (LocalChangeRead ''A.x'' (BalanceDiff 20)) {#} {})
      (demo_at (shard_new CHR ''A'') 0 (LocalChangeWrite ''A.x'' 20) ({#} + {#}) {})"
    by (rule demo_pass[where es = "[]" and out = "[]"])
      (simp_all add: bank_passes Client_new_def pass_log_def)
  have 3: "cluster_step (demo_at (shard_new CHR ''A'') 0 (LocalChangeWrite ''A.x'' 20) {#} {})
      (demo_at bank_shard 0 AwaitRequest ({#} + {#}) {Told demo_tx OkResponse})"
    by (rule demo_pass[where es = "[]" and out = "[StreamSend OkResponse]"])
      (simp_all add: bank_passes Client_new_def pass_log_def respond_def)
  show ?thesis
    by (rule exI, rule reach_step, rule reach_step, rule reach_step, rule reach_step, rule reach_init, rule demo_init,
        rule demo_accept, rule 1, rule 2[simplified], rule 3[simplified])
qed

lemma bank_run:
  "\<exists>I H. reach (cluster_init {CHR ''A'', CHR ''B''}) cluster_step (demo_at bank_done 1 ClientDone I H)"
proof -
  obtain H where "reach (cluster_init {CHR ''A'', CHR ''B''}) cluster_step (demo_at bank_shard 0 AwaitRequest {#} H)"
    using bank_deposit by blast
  then have "reach (cluster_init {CHR ''A'', CHR ''B''}) cluster_step
      (demo_at bank_shard 0 CommitWait {#ItemServer CHR ''A'' (Forward Broadcast demo_tx Commit)#}
        (insert (Voted CHR ''A'' demo_tx ReadyToCommit) H))"
    by (rule reach_step[OF reach_step]) (rule demo_commit_ask, rule demo_check_ok[OF bank_passes(3,6)])
  note r = demo_round[OF this]
  have 1: "cluster_step (demo_at bank_shard 1 CommitWait (add_mset y {#ItemHandler demo_tx CommitOk#}) H)
      (demo_at bank_shard 1 (CommitLocal CommitOk) {#y#} H)" for y H
    using cluster_step.handler_forward[of "demo_at bank_shard 1 CommitWait (add_mset y {#ItemHandler demo_tx CommitOk#}) H"
        demo_tx "demo_client CommitWait" "CHR ''A''" CommitOk "demo_client (CommitLocal CommitOk)" bank_shard "[]"]
    by (simp add: demo_at_def Client_new_def commit_decision_def)
  have 2: "\<exists>I' H'. cluster_step (demo_at bank_shard 1 (CommitLocal CommitOk) I H) (demo_at bank_done 1 ClientDone I' H')" for I H
    by (intro exI, rule demo_pass[where es = demo_entries and out = "[ClientPrint (format_commit_result (ValueChanged [(''A.x'', 20)])),
        StreamSend CommitOk, ToServer (Finished demo_tx)]", OF _ bank_passes(6) refl refl])
      (simp add: do_commit_def finish_with_def bank_passes Client_new_def)
  from r 1 2 show ?thesis by (meson reach_step)
qed

theorem cluster_balances_witness:
  "\<exists>\<sigma>. reach (cluster_init {CHR ''A'', CHR ''B''}) cluster_step \<sigma> \<and>
     committed (store_of (shd \<sigma> CHR ''A'')) ''A.x'' = Some 20 \<and> 0 \<le> sint (20 :: Amount)"
proof -
  obtain I H where r: "reach (cluster_init {CHR ''A'', CHR ''B''}) cluster_step (demo_at bank_done 1 ClientDone I H)"
    using bank_run by blast
  have c: "committed (store_of (shd (demo_at bank_done 1 ClientDone I H) CHR ''A'')) ''A.x'' = Some 20"
    by (simp add: demo_at_def bank_passes)
  from cluster_balances[OF r c] r c show ?thesis by blast
qed

end
