(* ===== verification/Cluster_Liveness.thy ===== *)
theory Cluster_Liveness
  imports Cluster_Safety
begin

text \<open>
  As long as no node stops and no message is lost, a client handler that waits for answers gets
  them: the answers that are due are on their way, and whatever is on its way can take its next
  step, unless it is a task that sleeps on the notification of an older transaction which still
  has a pending write on the shard.
\<close>

section \<open>What is left to do\<close>

text \<open>
  How much is left to do until the answers that are due have been received: a request is passed on,
  served in one or two operations of the shard, answered, and the answer is passed on twice.
\<close>

fun fwd_work :: "Forwarded \<Rightarrow> nat" where
  "fwd_work (DoCommit t) = 0"
| "fwd_work (Request t r) = 6"
| "fwd_work (Response t r) = 2"
| "fwd_work (TwoPhaseCommitStatus t st) = 2"

fun task_work :: "shard_task \<Rightarrow> nat" where
  "task_work (TaskSend f) = (if fwd_owes f = 0 then 0 else 3)"
| "task_work (RemoteWriteRead k d) = 5"
| "task_work t = (if task_owes t = 0 then 0 else 4)"

fun work :: "nat \<Rightarrow> item \<Rightarrow> nat" where
  "work k (ItemServer n (Forward Broadcast t r)) = k * 7"
| "work k (ItemServer n (Forward (Node m) t r)) = 7"
| "work k (ItemServer n (Finished t)) = 0"
| "work k (ItemWire a b f) = fwd_work f"
| "work k (ItemTask n m t w p) = task_work p"
| "work k (ItemHandler t r) = 1"

definition left_over :: "nat \<Rightarrow> item multiset \<Rightarrow> nat" where
  "left_over k F = (\<Sum>x \<in># F. work k x)"

definition waiting :: "client_pc \<Rightarrow> bool" where
  "waiting pc \<longleftrightarrow> (case pc of AwaitForward \<Rightarrow> True | CommitWait \<Rightarrow> True | AbortWait i r \<Rightarrow> True | _ \<Rightarrow> False)"

lemma left_over_simps [simp]:
  "left_over k {#} = 0" "left_over k (add_mset x F) = work k x + left_over k F"
  "left_over k (F + G) = left_over k F + left_over k G"
  by (simp_all add: left_over_def)

lemma left_over_replace: "x \<in># F \<Longrightarrow> left_over k (F - {#x#} + N) + work k x = left_over k F + left_over k N"
  by (auto dest!: multi_member_split)

lemma left_over_mono: "F \<subseteq># G \<Longrightarrow> left_over k F \<le> left_over k G"
  by (auto simp: subset_mset.le_iff_add)

lemma left_over_wires: "left_over k {#ItemWire n m f. m \<in># mset ns#} = length ns * fwd_work f"
  by (induction ns) auto

lemma left_over_broadcast: "left_over k (effect_items n (fst (broadcast_to ch ns f))) \<le> length ns * fwd_work f"
  using left_over_mono[OF broadcast_to_subset[of n ch ns f], of k] by (simp add: left_over_wires)

lemma remote_task_work: "task_work (remote_task r) \<le> 5"
  by (cases r) auto

lemma two_phase_work: "left_over k (effect_items n (fst (handle_two_phase_commit ch t v s))) \<le> 1"
  using left_over_broadcast[of k n ch "server_pool s" "DoCommit t"]
  by (auto simp: handle_two_phase_commit_def Let_def pass_to_client_def or_panic_def or_exit_def broadcast_def
      split: option.splits CommitStatus.splits if_splits)

lemma serve_work:
  assumes "received n x = Some ev" and "serve_step ch ev s = (out, s')" and "length (server_pool s) = k"
  shows "left_over k (effect_items n out) \<le> work k x" and "0 < work k x \<Longrightarrow> left_over k (effect_items n out) < work k x"
proof -
  have "left_over k (effect_items n out) < work k x \<or> left_over k (effect_items n out) = 0 \<and> work k x = 0"
  proof (cases x)
    case (ItemServer n' st)
    show ?thesis
    proof (cases st)
      case (Forward tg t r)
      with assms ItemServer left_over_broadcast[of k n ch "server_pool s" "Request t r"] show ?thesis
        by (cases tg) (auto simp: broadcast_def or_panic_def or_exit_def pass_message_def
            simp flip: length_0_conv split: if_splits)
    qed (use assms ItemServer in \<open>auto split: if_splits\<close>)
  next
    case (ItemWire a b f)
    show ?thesis
    proof (cases f)
      case (TwoPhaseCommitStatus t v)
      with assms ItemWire two_phase_work[of k n ch t v s] show ?thesis by (auto split: if_splits)
    next
      case (Request t r)
      with assms ItemWire remote_task_work[of r] show ?thesis
        by (auto simp: handle_remote_request_def split: if_splits)
    qed (use assms ItemWire in \<open>auto simp: or_panic_def or_exit_def pass_to_client_def split: if_splits option.splits\<close>)
  qed (use assms in auto)
  then show "left_over k (effect_items n out) \<le> work k x" and "0 < work k x \<Longrightarrow> left_over k (effect_items n out) < work k x"
    by auto
qed

lemma task_step_work:
  assumes "task_step es tx t sh = (t', w', sh')" and "t' \<noteq> TaskPanic \<or> t = TaskPanic"
  shows "task_work t' \<le> task_work t"
    and "task_owes t = 1 \<Longrightarrow> \<forall>f. t \<noteq> TaskSend f \<Longrightarrow> w' = None \<Longrightarrow> task_work t' < task_work t"
  using assms by (auto elim!: task_step.elims split: prod.splits pass.splits sum.splits option.splits result.splits)

lemma tx_step_left_over:
  assumes "tx_step nodes tx ok (c, h, F) (c', h', F')" and "tx_inv nodes ex (c, h, F)" and "waiting (client_pc c)"
  shows "left_over (card nodes - 1) F' \<le> left_over (card nodes - 1) F"
  using assms(1)
proof (cases rule: tx_step.cases)
  case (tx_serve x n ev ch s out s')
  have r: "routed nodes (client_server_id c) x" and s: "client_server_id c \<in> nodes" and fin: "finite nodes"
    using assms(2) tx_serve by auto
  have "n \<in> nodes" by (rule received_node[OF r s]) (use tx_serve in blast)
  with tx_serve fin have "length (server_pool s) = card nodes - 1" using distinct_card[of "server_pool s"] by simp
  with tx_serve left_over_replace[of x F "card nodes - 1" "effect_items n out"] serve_work(1)[of n x ev ch s out s']
  show ?thesis by fastforce
next
  case (tx_task n m w t es sh t' w' sh')
  with left_over_replace[of "ItemTask n m tx w t" F "card nodes - 1" "{#ItemTask n m tx w' t'#}"] task_step_work(1)
  show ?thesis by fastforce
next
  case (tx_send n m w f N)
  have "left_over (card nodes - 1) N \<le> fwd_work f" using left_over_mono[OF tx_send(6), of "card nodes - 1"] by simp
  also have "\<dots> \<le> task_work (TaskSend f)"
  proof -
    have "routed nodes (client_server_id c) (ItemTask n m tx w (TaskSend f))" using assms(2) tx_send by auto
    then show ?thesis by (cases f) auto
  qed
  finally show ?thesis
    using tx_send left_over_replace[of "ItemTask n m tx w (TaskSend f)" F "card nodes - 1" N] by simp
next
  case (tx_request ev sh sh' out req)
  with assms(3) show ?thesis by (auto simp: waiting_def split: if_splits)
next
  case (tx_forward r sh sh' out)
  then have "left_over (card nodes - 1) (client_items (client_server_id c) out) = 0"
    by (auto simp: handler_defs Let_def split: client_pc.splits if_splits ClientResponse.splits)
  with tx_forward left_over_replace[of "ItemHandler tx r" F "card nodes - 1" "client_items (client_server_id c) out"]
  show ?thesis by simp
next
  case (tx_pass es sh sh' out)
  with assms(3) show ?thesis by (auto simp: waiting_def split: client_pc.splits if_splits)
qed

section \<open>A step is always possible\<close>

lemma debt_positive: "0 < debt k F \<Longrightarrow> \<exists>x \<in># F. 0 < owes k x"
  by (induction F) auto

lemma owes_work: "0 < owes k x \<Longrightarrow> 0 < work k x"
proof (cases x)
  case (ItemServer n st)
  then show "0 < owes k x \<Longrightarrow> 0 < work k x" by (cases "(k, x)" rule: owes.cases) auto
next
  case (ItemWire a b f)
  then show "0 < owes k x \<Longrightarrow> 0 < work k x" by (cases f) auto
next
  case (ItemTask n m t w p)
  then show "0 < owes k x \<Longrightarrow> 0 < work k x" by (cases p) auto
qed simp

lemma waiting_debt:
  assumes "tx_inv nodes True (c, h, F)" and "waiting (client_pc c)" and "2 \<le> card nodes"
  obtains x where "x \<in># F" and "0 < owes (card nodes - 1) x"
proof -
  have "0 < debt (card nodes - 1) F"
    using assms by (auto simp: books_def bounded_def waiting_def split: client_pc.splits if_splits)
  from debt_positive[OF this] that show thesis by blast
qed

abbreviation all_open :: channels where
  "all_open \<equiv> \<lparr>server_open = \<lambda>_. True, client_open = \<lambda>_. True\<rparr>"

lemma open_no_exit:
  assumes "received n x = Some ev"
  shows "ExitProcess \<notin> set (fst (serve_step all_open ev s))"
proof (cases x)
  case (ItemServer n' st)
  with assms broadcast_to_open[of "server_pool s" all_open] show ?thesis
    by (cases "(all_open, st, s)" rule: handle_client_state.cases)
      (auto simp: broadcast_def or_panic_def or_exit_def pass_message_def split: if_splits)
next
  case (ItemWire a b f)
  with assms broadcast_to_open[of "server_pool s" all_open] show ?thesis
    by (cases f) (auto simp: handle_remote_request_def handle_two_phase_commit_def Let_def or_panic_def or_exit_def
        pass_to_client_def broadcast_def split: if_splits option.splits CommitStatus.splits)
qed (use assms in auto)

lemma healthyI:
  assumes "cluster_step \<sigma> \<sigma>'" and "halted \<sigma>' = halted \<sigma>" and "x \<in># items \<sigma>" and "items \<sigma>' = items \<sigma> - {#x#} + N"
    and "N \<noteq> {#} \<or> (\<forall>n m t w f. x \<noteq> ItemTask n m t w (TaskSend f))"
  shows "healthy_step \<sigma> \<sigma>'"
proof -
  have "\<not> lost \<sigma> \<sigma>'"
  proof
    assume "lost \<sigma> \<sigma>'"
    then obtain n m t w f where y: "ItemTask n m t w (TaskSend f) \<in># items \<sigma>"
      "items \<sigma>' = items \<sigma> - {#ItemTask n m t w (TaskSend f)#}" by (auto simp: lost_def)
    obtain A where A: "items \<sigma> = add_mset x A" using assms(3) by (auto dest: multi_member_split)
    obtain B where B: "items \<sigma> = add_mset (ItemTask n m t w (TaskSend f)) B" using y(1) by (auto dest: multi_member_split)
    have "items \<sigma>' = A + N" using assms(4) A by simp
    moreover have "items \<sigma>' = B" unfolding y(2) B by simp
    ultimately have AN: "A + N = B" by simp
    moreover have "size A = size B" using arg_cong[OF trans[OF A[symmetric] B], of size] by simp
    ultimately have "size A + size N = size A" by (metis size_union)
    then have "N = {#}" by simp
    with AN have "A = B" by simp
    with trans[OF A[symmetric] B] have "x = ItemTask n m t w (TaskSend f)" by simp
    with \<open>N = {#}\<close> assms(5) show False by blast
  qed
  with assms(1,2) show ?thesis by (simp add: healthy_step_def)
qed

text \<open>
  A task that sleeps: it is on a notification that has not been fired, which belongs to an older
  transaction with a pending write on the same shard.
\<close>

definition blocked :: "Cluster \<Rightarrow> TransactionId \<Rightarrow> bool" where
  "blocked \<sigma> tx \<longleftrightarrow> (\<exists>n m v t u. ItemTask n m tx (Some v) t \<in># items \<sigma> \<and> v \<notin> set (notify_calls (shd \<sigma> n)) \<and>
     u < tx \<and> notifications (shd \<sigma> n) u = Some v \<and> has_pending u (shd \<sigma> n))"

lemma waits_blocked:
  assumes "ItemTask n m tx (Some v) t \<in># items \<sigma>" and "waits tx v (shd \<sigma> n)" and "v \<notin> set (notify_calls (shd \<sigma> n))"
  shows "blocked \<sigma> tx"
  using assms unfolding waits_def blocked_def by blast

definition closer :: "NodeId set \<Rightarrow> Cluster \<Rightarrow> Cluster \<Rightarrow> TransactionId \<Rightarrow> bool" where
  "closer nodes \<sigma> \<sigma>' tx \<longleftrightarrow> left_over (card nodes - 1) (flight tx \<sigma>') < left_over (card nodes - 1) (flight tx \<sigma>)"

definition advances :: "NodeId set \<Rightarrow> Cluster \<Rightarrow> TransactionId \<Rightarrow> bool" where
  "advances nodes \<sigma> tx \<longleftrightarrow> (\<exists>\<sigma>'. healthy_step \<sigma> \<sigma>' \<and> reused \<sigma>' = reused \<sigma> \<and> (closer nodes \<sigma> \<sigma>' tx \<or> blocked \<sigma>' tx))"

lemma advancesI:
  assumes "cluster_step \<sigma> \<sigma>'" and "halted \<sigma>' = halted \<sigma>" and "x \<in># items \<sigma>" and "item_tx x = tx"
    and "items \<sigma>' = items \<sigma> - {#x#} + N" and "\<And>y. y \<in># N \<Longrightarrow> item_tx y = tx"
    and "N \<noteq> {#} \<or> (\<forall>n m t w f. x \<noteq> ItemTask n m t w (TaskSend f))" and "reused \<sigma>' = reused \<sigma>"
    and "left_over (card nodes - 1) N < work (card nodes - 1) x \<or> blocked \<sigma>' tx"
  shows "advances nodes \<sigma> tx"
proof -
  have "flight tx \<sigma>' = flight tx \<sigma> - {#x#} + N"
    using flight_replace[OF _ assms(3,5), of tx] assms(4,6) by simp
  moreover have "x \<in># flight tx \<sigma>" using assms(3,4) by (simp add: flight_def)
  ultimately have "closer nodes \<sigma> \<sigma>' tx \<or> blocked \<sigma>' tx"
    using left_over_replace[of x "flight tx \<sigma>" "card nodes - 1" N] assms(9) by (auto simp: closer_def)
  with healthyI[OF assms(1-3,5,7)] assms(8) show ?thesis unfolding advances_def by blast
qed

lemma waiting_forward:
  assumes "waiting (client_pc c)"
  obtains c' sh' out where "client_step (GotForward r) c sh = Some (c', sh', out)"
    and "left_over k (client_items n out) = 0"
proof -
  have "client_step (GotForward r) c sh \<noteq> None"
    using assms by (auto simp: waiting_def split: client_pc.splits prod.splits)
  then obtain c' sh' out where st: "client_step (GotForward r) c sh = Some (c', sh', out)"
    by (metis not_None_eq prod_cases3)
  moreover have "left_over k (client_items n out) = 0"
    using st by (auto simp: handler_defs Let_def split: client_pc.splits if_splits ClientResponse.splits)
  ultimately show thesis using that by blast
qed

lemma task_step_unfired:
  assumes "shard_inv check_amount sh" and "enumerates es sh" and "task_step es tx t sh = (t', Some v, sh')"
  shows "v \<notin> set (notify_calls sh')"
proof -
  have "\<exists>u. notifications sh' u = Some v"
    using assms(2,3) read_suspended[OF assms(1)] check_suspended[OF assms(1,2)] commit_suspended[OF assms(1,2)]
      suspended_waits(4)[OF assms(1) check_amount_zero]
    by (cases t) (auto simp: pass_defs split: pass.splits prod.splits sum.splits option.splits result.splits, blast+)
  moreover have "shard_inv check_amount sh'" by (rule task_step_inv[OF assms])
  ultimately show ?thesis by (auto simp: shard_inv_def ran_def)
qed

text \<open>A task that owes an answer: it sends it, or it makes a pass, unless it is asleep.\<close>

lemma task_advances:
  assumes inv: "safe_inv nodes ex \<sigma>" and x: "ItemTask n m tx w p \<in># items \<sigma>" and n: "n \<notin> halted \<sigma>"
    and one: "task_owes p = 1" and p: "\<forall>f. p \<noteq> TaskSend f"
  shows "advances nodes \<sigma> tx \<or> blocked \<sigma> tx"
proof (cases "resumed w (shd \<sigma> n)")
  case False
  then obtain v where v: "w = Some v" "v \<notin> set (notify_calls (shd \<sigma> n))" by (cases w) (auto simp: resumed_def)
  have "sleepers_ok \<sigma>" using inv unfolding safe_inv_def by blast
  with x v(1) have "waits tx v (shd \<sigma> n)" unfolding sleepers_ok_def by blast
  with waits_blocked x v show ?thesis by blast
next
  case True
  have sh: "shard_inv check_amount (shd \<sigma> n)" using inv unfolding safe_inv_def by blast
  obtain es where es: "enumerates es (shd \<sigma> n)" using enumerates_exists sh by metis
  obtain p' w' sh' where st: "task_step es tx p (shd \<sigma> n) = (p', w', sh')" by (metis prod_cases3)
  define \<sigma>' where "\<sigma>' = \<sigma>\<lparr>shd := (shd \<sigma>)(n := sh'),
      items := items \<sigma> - {#ItemTask n m tx w p#} + {#ItemTask n m tx w' p'#},
      history := history \<sigma> \<union> task_log n tx p p'\<rparr>"
  have step: "cluster_step \<sigma> \<sigma>'" unfolding \<sigma>'_def by (rule cluster_step.task[OF n x True es st])
  have "left_over (card nodes - 1) {#ItemTask n m tx w' p'#} < work (card nodes - 1) (ItemTask n m tx w p) \<or> blocked \<sigma>' tx"
  proof (cases w')
    case None
    have "p \<noteq> TaskPanic" using one by auto
    then have "p' \<noteq> TaskPanic" using task_step_no_panic[OF sh es, of p tx] st by simp
    with task_step_work(2)[OF st _ one p None] show ?thesis by simp
  next
    case (Some v)
    note asleep = task_step_asleep[OF sh es st[unfolded Some]]
    have "v \<notin> set (notify_calls sh')" by (rule task_step_unfired[OF sh es st[unfolded Some]])
    with waits_blocked[of n m tx v p' \<sigma>'] asleep Some show ?thesis by (simp add: \<sigma>'_def)
  qed
  then have "advances nodes \<sigma> tx"
    by (rule_tac advancesI[OF step, where x = "ItemTask n m tx w p" and N = "{#ItemTask n m tx w' p'#}"])
      (use x p in \<open>simp_all add: \<sigma>'_def\<close>)
  then show ?thesis ..
qed

lemma item_advances:
  assumes inv: "safe_inv nodes True \<sigma>" and up: "halted \<sigma> = - nodes" and c: "hdl \<sigma> tx = Some c" and new: "tx \<notin> reused \<sigma>"
    and w: "waiting (client_pc c)" and x: "x \<in># items \<sigma>" "item_tx x = tx" and owes: "0 < owes (card nodes - 1) x"
  shows "advances nodes \<sigma> tx \<or> blocked \<sigma> tx"
proof -
  let ?k = "card nodes - 1"
  note i = inv[unfolded safe_inv_def]
  have ci: "cluster_inv nodes \<sigma>" and ti: "tx_inv nodes True (view \<sigma> tx c)" using i c new by blast+
  have ok: "tx_ok \<sigma> tx" using ci new by (simp add: cluster_inv_def)
  have F: "x \<in># flight tx \<sigma>" using x by (simp add: flight_def)
  have r: "routed nodes (client_server_id c) x" and s: "client_server_id c \<in> nodes" and fin: "finite nodes"
    and id: "transaction_id c = tx"
    using ti F ok c by (auto simp: view_def tx_ok_def simp del: routed.simps)
  have serve: "advances nodes \<sigma> tx" if ev: "received n x = Some ev" for n ev
  proof -
    obtain out s' where st: "serve_step all_open ev (srv \<sigma> n) = (out, s')" by (cases "serve_step all_open ev (srv \<sigma> n)")
    have n: "n \<in> nodes" by (rule received_node[OF r s ev])
    have pool: "distinct (server_pool (srv \<sigma> n))" "set (server_pool (srv \<sigma> n)) = nodes - {n}"
      using ci by (auto simp: cluster_inv_def)
    have len: "length (server_pool (srv \<sigma> n)) = ?k" using distinct_card[OF pool(1)] pool(2) n fin by simp
    have "ExitProcess \<notin> set out" using open_no_exit[OF ev, of "srv \<sigma> n"] st by simp
    moreover have "Panic \<notin> set out"
      using serve_no_panic[OF ti[unfolded view_def] F ev st pool(2)] x(2) by simp
    moreover have "n \<notin> halted \<sigma>" using up n by simp
    moreover have "\<forall>n m t w f. x \<noteq> ItemTask n m t w (TaskSend f)" using ev by auto
    ultimately show ?thesis
      using serve_step_frame(1)[OF ev st] x serve_work(2)[OF ev st len owes_work[OF owes]]
      by (intro advancesI[OF cluster_step.serve[OF _ x(1) ev st], where x = x and N = "effect_items n out"]) auto
  qed
  show ?thesis
  proof (cases x)
    case (ItemTask n m t w p)
    then have t: "t = tx" and n: "n \<notin> halted \<sigma>" using x(2) r up by auto
    show ?thesis
    proof (cases "\<exists>f. p = TaskSend f")
      case True
      then obtain f where p: "p = TaskSend f" by blast
      have f: "fwd_tx f = tx"
        using tx_ok_item[OF ok x] task_send_phase(2)[OF _ _ subset_mset.order_refl] ItemTask p t by metis
      have "fwd_work f < task_work (TaskSend f)" using owes ItemTask p r by (cases f) auto
      with x(1) ItemTask p t f show ?thesis
        by (intro disjI1 advancesI[OF cluster_step.task_send[OF n, of m tx w f], where x = x and N = "{#ItemWire n m f#}"]) auto
    next
      case False
      have "task_owes p = 1" using owes ItemTask False by (cases p) auto
      with task_advances[OF inv _ n, of m tx w p] x(1) ItemTask t False show ?thesis by blast
    qed
  next
    case (ItemHandler t r)
    obtain c' sh' out where st: "client_step (GotForward r) c (shd \<sigma> (client_server_id c)) = Some (c', sh', out)"
      and l: "left_over ?k (client_items (client_server_id c) out) = 0" using waiting_forward[OF w] .
    have "client_server_id c \<notin> halted \<sigma>" using up s by simp
    note step = cluster_step.handler_forward[OF c refl this _ st]
    from x ItemHandler l client_step_items[OF st] id show ?thesis
      by (intro disjI1, intro advancesI[where x = x and N = "client_items (client_server_id c) out", OF step]) auto
  next
    case (ItemServer n st)
    then show ?thesis using serve[of n] by simp
  next
    case (ItemWire a b f)
    then show ?thesis using serve[of b] by simp
  qed
qed

lemma healthy_up: "reach (cluster_init nodes) healthy_step \<sigma> \<Longrightarrow> halted \<sigma> = - nodes"
  by (induction rule: reach.induct) (auto simp: healthy_step_def cluster_init_def)

lemma waiting_advances:
  assumes "reach (cluster_init nodes) healthy_step \<sigma>" and "2 \<le> card nodes"
    and "hdl \<sigma> tx = Some c" and "tx \<notin> reused \<sigma>" and "waiting (client_pc c)"
  shows "advances nodes \<sigma> tx \<or> blocked \<sigma> tx"
proof -
  have inv: "safe_inv nodes True \<sigma>" by (rule healthy.reach_inv[OF assms(1)])
  then have ti: "tx_inv nodes True (view \<sigma> tx c)" using assms(3,4) by (auto simp: safe_inv_def)
  obtain x where x: "x \<in># flight tx \<sigma>" "0 < owes (card nodes - 1) x"
    using waiting_debt[OF ti[unfolded view_def] assms(5,2)] .
  then have "x \<in># items \<sigma>" "item_tx x = tx" by (simp_all add: flight_def)
  from item_advances[OF inv healthy_up[OF assms(1)] assms(3-5) this x(2)] show ?thesis .
qed

lemma healthy_moves:
  assumes "reach (cluster_init nodes) healthy_step \<sigma>" and "cluster_step \<sigma> \<sigma>'" and "hdl \<sigma> tx = Some c"
    and "tx \<notin> reused \<sigma>'"
  shows "moves nodes \<sigma> \<sigma>' tx c" and "tx_inv nodes True (view \<sigma> tx c)"
proof -
  note i = healthy.reach_inv[OF assms(1), unfolded safe_inv_def]
  have "tx \<notin> reused \<sigma>" using cluster_reused[OF assms(2)] assms(4) by blast
  with i assms(3) show inv: "tx_inv nodes True (view \<sigma> tx c)" by blast
  show "moves nodes \<sigma> \<sigma>' tx c"
    using cluster_step_moves[OF assms(2) _ assms(3) _ assms(4) view_live[OF inv]] i by blast
qed

lemma waiting_ends:
  assumes "reach (cluster_init nodes) healthy_step \<sigma>" and "2 \<le> card nodes" and "hdl \<sigma> tx = Some c" and "tx \<notin> reused \<sigma>"
  shows "\<exists>\<sigma>' c'. healthy_step\<^sup>*\<^sup>* \<sigma> \<sigma>' \<and> hdl \<sigma>' tx = Some c' \<and> tx \<notin> reused \<sigma>' \<and>
    (\<not> waiting (client_pc c') \<or> blocked \<sigma>' tx)"
  using assms(1,3,4)
proof (induction "left_over (card nodes - 1) (flight tx \<sigma>)" arbitrary: \<sigma> c rule: less_induct)
  case less
  show ?case
  proof (cases "waiting (client_pc c) \<and> \<not> blocked \<sigma> tx")
    case True
    with waiting_advances[OF less(2) assms(2) less(3,4)] obtain \<sigma>1 where st: "healthy_step \<sigma> \<sigma>1"
      and new: "tx \<notin> reused \<sigma>1" and lt: "closer nodes \<sigma> \<sigma>1 tx \<or> blocked \<sigma>1 tx"
      using less(4) unfolding advances_def by auto
    have "cluster_step \<sigma> \<sigma>1" using st by (simp add: healthy_step_def)
    from healthy_moves(1)[OF less(2) this less(3) new] obtain c1 where c1: "hdl \<sigma>1 tx = Some c1" unfolding moves_def by blast
    show ?thesis
    proof (cases "blocked \<sigma>1 tx")
      case True
      with st c1 new show ?thesis by blast
    next
      case False
      with lt have "left_over (card nodes - 1) (flight tx \<sigma>1) < left_over (card nodes - 1) (flight tx \<sigma>)"
        by (simp add: closer_def)
      from less(1)[OF this reach_step[OF less(2) st] c1 new] st show ?thesis
        by (meson converse_rtranclp_into_rtranclp)
    qed
  qed (use less(3,4) in blast)
qed

text \<open>
  C5. Answers arrive: in a cluster of at least two nodes in which nothing has stopped and no message
  has been lost, whenever the handler of a transaction whose id has not been handed out again
  waits for an answer (to a forwarded request, to a vote, or to an abort), a task of the
  transaction is asleep on a notification of an older transaction that still has a pending write
  on that shard, or some step brings its answers strictly closer or puts such a task to sleep;
  no step of anybody takes the answers further away (how close they are is the work left on what
  is on its way, a natural number); and steps without a failure lead to a state where the
  handler has gone on or a task of it is asleep in that way. No handler waits for a message that
  nobody is going to send, and no task sleeps on a notification that was fired or that no
  transaction with a pending write is going to fire. The passes on a shard are whole here; a wake-up lost
  between the steps of a pass is below this level.
\<close>

theorem answers_arrive:
  assumes "reach (cluster_init nodes) healthy_step \<sigma>" and "2 \<le> card nodes"
    and "hdl \<sigma> tx = Some c" and "tx \<notin> reused \<sigma>" and "waiting (client_pc c)"
  shows "((\<exists>\<sigma>'. healthy_step \<sigma> \<sigma>' \<and> tx \<notin> reused \<sigma>' \<and>
        (left_over (card nodes - 1) (flight tx \<sigma>') < left_over (card nodes - 1) (flight tx \<sigma>) \<or> blocked \<sigma>' tx)) \<or>
      blocked \<sigma> tx) \<and>
    (\<forall>\<sigma>'. cluster_step \<sigma> \<sigma>' \<longrightarrow> tx \<notin> reused \<sigma>' \<longrightarrow>
        left_over (card nodes - 1) (flight tx \<sigma>') \<le> left_over (card nodes - 1) (flight tx \<sigma>)) \<and>
    (\<exists>\<sigma>' c'. healthy_step\<^sup>*\<^sup>* \<sigma> \<sigma>' \<and> hdl \<sigma>' tx = Some c' \<and> tx \<notin> reused \<sigma>' \<and>
        (\<not> waiting (client_pc c') \<or> blocked \<sigma>' tx))"
proof (intro conjI allI impI)
  show "(\<exists>\<sigma>'. healthy_step \<sigma> \<sigma>' \<and> tx \<notin> reused \<sigma>' \<and>
      (left_over (card nodes - 1) (flight tx \<sigma>') < left_over (card nodes - 1) (flight tx \<sigma>) \<or> blocked \<sigma>' tx)) \<or> blocked \<sigma> tx"
    using waiting_advances[OF assms] assms(4) unfolding advances_def closer_def by auto
  show "\<exists>\<sigma>' c'. healthy_step\<^sup>*\<^sup>* \<sigma> \<sigma>' \<and> hdl \<sigma>' tx = Some c' \<and> tx \<notin> reused \<sigma>' \<and> (\<not> waiting (client_pc c') \<or> blocked \<sigma>' tx)"
    by (rule waiting_ends[OF assms(1-4)])
  fix \<sigma>'
  assume "cluster_step \<sigma> \<sigma>'" "tx \<notin> reused \<sigma>'"
  note m = healthy_moves[OF assms(1) this(1) assms(3) this(2)]
  from m(1) obtain c' ok where "view \<sigma>' tx c' = view \<sigma> tx c \<or> tx_step nodes tx ok (view \<sigma> tx c) (view \<sigma>' tx c')"
    unfolding moves_def by blast
  then show "left_over (card nodes - 1) (flight tx \<sigma>') \<le> left_over (card nodes - 1) (flight tx \<sigma>)"
    using tx_step_left_over[OF _ m(2)[unfolded view_def] assms(5)] unfolding view_def by auto
qed

section \<open>A run without failures\<close>

lemma healthy_empty: "cluster_step \<sigma> \<sigma>' \<Longrightarrow> halted \<sigma>' = halted \<sigma> \<Longrightarrow> items \<sigma> = {#} \<Longrightarrow> healthy_step \<sigma> \<sigma>'"
  by (simp add: healthy_step_def lost_def)

lemma demo_healthy:
  "reach (cluster_init {CHR ''A'', CHR ''B''}) healthy_step
     (demo_at (shard_new CHR ''A'') 0 CommitWait {#ItemServer CHR ''A'' (Forward Broadcast demo_tx Commit)#}
        {Voted CHR ''A'' demo_tx ReadyToCommit})"
proof -
  have c: "check_commit_pass [] demo_tx (shard_new CHR ''A'') = Some (Return (Ok ()), shard_new CHR ''A'')"
    by (simp add: check_commit_pass_def shard_check_commit_pass_def)
  have e: "enumerates [] (shard_new CHR ''A'')" by (simp add: enumerates_def shard_new_def)
  have s1: "healthy_step demo_start (demo_at (shard_new CHR ''A'') 0 AwaitRequest {#} {})"
    by (rule healthy_empty[OF demo_accept]) (simp_all add: demo_start_def demo_at_def)
  have s2: "healthy_step (demo_at (shard_new CHR ''A'') 0 AwaitRequest {#} {}) (demo_at (shard_new CHR ''A'') 0 CommitCheck {#} {})"
    by (rule healthy_empty[OF demo_commit_ask]) (simp_all add: demo_at_def)
  note s3 = healthy_empty[OF demo_check_ok[OF c e, of 0]]
  show ?thesis
    by (rule reach_step, rule reach_step, rule reach_step, rule reach_init, rule demo_init, rule s1, rule s2, rule s3)
      (simp_all add: demo_at_def)
qed

theorem answers_arrive_witness:
  "\<exists>\<sigma> \<sigma>' c'. reach (cluster_init {CHR ''A'', CHR ''B''}) healthy_step \<sigma> \<and> healthy_step\<^sup>*\<^sup>* \<sigma> \<sigma>' \<and>
     hdl \<sigma>' demo_tx = Some c' \<and> (\<not> waiting (client_pc c') \<or> blocked \<sigma>' demo_tx)"
  using answers_arrive[OF demo_healthy, of demo_tx "demo_client CommitWait"] demo_healthy
  by (auto simp: demo_at_def Client_new_def waiting_def)

end
