(* ===== verification/Client_Program.thy ===== *)
theory Client_Program
  imports Node_Config
begin

text \<open>
  The client program (tx-client/src/main.rs): it waits for BEGIN, connects to a coordinator, sends
  one request per line of input and prints each response until a final one. At the end of its
  input \<open>read_line\<close> keeps succeeding with an empty line, which the model does too.
\<close>

section \<open>Commands\<close>

definition amount_request :: "AccountId \<Rightarrow> string \<Rightarrow> (Amount \<Rightarrow> Amount) \<Rightarrow> ClientRequest" where
  "amount_request account_id amount f =
     (case parse_i64 amount of
        Some a \<Rightarrow> WriteBalance account_id (BalanceDiff (f a))
      | None \<Rightarrow> ClientRequest.Abort)"

definition parse_command :: "string \<Rightarrow> ClientRequest" where
  "parse_command buffer =
     (case split_ascii_whitespace (trim buffer) of
        [c] \<Rightarrow> if c = ''COMMIT'' then Commit else ClientRequest.Abort
      | [c, account_id] \<Rightarrow> if c = ''BALANCE'' then ReadBalance account_id else ClientRequest.Abort
      | [c, account_id, amount] \<Rightarrow>
          if c = ''DEPOSIT'' then amount_request account_id amount (\<lambda>a. a)
          else if c = ''WITHDRAW'' then amount_request account_id amount (\<lambda>a. a * -1)
          else ClientRequest.Abort
      | _ \<Rightarrow> ClientRequest.Abort)"

section \<open>A session\<close>

text \<open>
  The wait for BEGIN: the lines it prints and the input that is left after it; \<open>None\<close> if BEGIN never
  comes, and the loop spins. An error of \<open>read_line\<close> ends the loop too, without the \<open>OK\<close>.
\<close>

fun begin_loop :: "input_line list \<Rightarrow> (string list \<times> input_line list) option" where
  "begin_loop [] = None"
| "begin_loop (Unreadable # input) = Some ([], input)"
| "begin_loop (Line buffer # input) =
     (if split_ascii_whitespace (trim buffer) = [''BEGIN''] then Some ([''OK''], input) else begin_loop input)"

text \<open>What sending a request and receiving its response can come to.\<close>

datatype exchange = SendFails | RecvFails | RecvClosed | Received ClientResponse

datatype session_end = SessionDone | SessionExit | SessionUnread | SessionOpen

text \<open>The next line, empty at the end of the input; \<open>None\<close> if it cannot be read.\<close>

fun next_line :: "input_line list \<Rightarrow> string option \<times> input_line list" where
  "next_line [] = (Some [], [])"
| "next_line (Line l # ls) = (Some l, ls)"
| "next_line (Unreadable # ls) = (None, ls)"

text \<open>
  The requests sent, the lines printed, and how the loop ended within the given exchanges: with a
  final response, by exiting on an error of the connection, silently with a line that cannot be
  read, or not yet.
\<close>

fun command_loop :: "exchange list \<Rightarrow> input_line list \<Rightarrow> ClientRequest list \<times> string list \<times> session_end" where
  "command_loop [] input = (case next_line input of (None, _) \<Rightarrow> ([], [], SessionUnread) | _ \<Rightarrow> ([], [], SessionOpen))"
| "command_loop (x # xs) input =
     (case next_line input of
        (None, _) \<Rightarrow> ([], [], SessionUnread)
      | (Some buffer, rest) \<Rightarrow>
          let request = parse_command buffer
          in case x of
               SendFails \<Rightarrow> ([], [], SessionExit)
             | RecvFails \<Rightarrow> ([request], [], SessionExit)
             | RecvClosed \<Rightarrow> ([request], [], SessionExit)
             | Received response \<Rightarrow>
                 if response_is_final response then ([request], [format_response response], SessionDone)
                 else let (reqs, out, e) = command_loop xs rest
                      in (request # reqs, format_response response # out, e))"

datatype client_run =
    ClientExit string
  | ClientSpins
  | ConnectFailed "string list" NodeConfiguration
  | ClientSession NodeConfiguration "ClientRequest list" "string list" session_end

text \<open>
  \<open>main\<close>: the random choice of the coordinator is an argument; choosing from an empty
  configuration panics.
\<close>

definition client_main :: "(string \<Rightarrow> (input_line list, string) result) \<Rightarrow> NodeId \<Rightarrow> (NodeConfiguration \<Rightarrow> bool) \<Rightarrow>
    exchange list \<Rightarrow> string list \<Rightarrow> input_line list \<Rightarrow> client_run option" where
  "client_main open_file pick connects xs args input =
     (if length args \<noteq> 3 then
        (case args of [] \<Rightarrow> None
         | prog # _ \<Rightarrow> Some (ClientExit (''Usage: '' @ prog @ '' <client identifier> <path to config file>'')))
      else
        (case parse_config (open_file (args ! 2)) of
           None \<Rightarrow> None
         | Some (Err e) \<Rightarrow> Some (ClientExit (args ! 0 @ '': '' @ e))
         | Some (Ok config) \<Rightarrow>
             (case config pick of
                None \<Rightarrow> None
              | Some coordinator_cfg \<Rightarrow>
                  (case begin_loop input of
                     None \<Rightarrow> Some ClientSpins
                   | Some (greeting, rest) \<Rightarrow>
                       if connects coordinator_cfg then
                         let (reqs, out, e) = command_loop xs rest
                         in Some (ClientSession coordinator_cfg reqs (greeting @ out) e)
                       else Some (ConnectFailed greeting coordinator_cfg)))))"

section \<open>Commands as they are typed\<close>

lemma trim_line:
  assumes "w \<noteq> []" and "\<not> is_whitespace (hd w)" and "\<not> is_whitespace (last w)"
  shows "trim (w @ [CHR 0x0A]) = w"
proof -
  have "dropWhile is_whitespace (w @ [CHR 0x0A]) = w @ [CHR 0x0A]" using assms by (cases w) auto
  moreover have "dropWhile is_whitespace (rev w) = rev w" using assms by (cases w rule: rev_cases) auto
  ultimately show ?thesis by (simp add: trim_def)
qed

lemma is_word_ends: "is_word w \<Longrightarrow> w \<noteq> [] \<and> \<not> is_whitespace (hd w) \<and> \<not> is_whitespace (last w)"
  by (auto simp: is_word_def list_all_iff)

lemma split_two_words:
  "is_word u \<Longrightarrow> is_word v \<Longrightarrow>
     split_ascii_whitespace (trim (u @ CHR '' '' # v @ [CHR 0x0A])) = [u, v]"
  using trim_line[of "u @ CHR '' '' # v"] is_word_ends[of u] is_word_ends[of v]
    split_word_space[of u "CHR '' ''" v] split_word[of v]
  by (simp add: split_ascii_whitespace_def)

lemma split_three_words:
  "is_word u \<Longrightarrow> is_word v \<Longrightarrow> is_word w \<Longrightarrow>
     split_ascii_whitespace (trim (u @ CHR '' '' # v @ CHR '' '' # w @ [CHR 0x0A])) = [u, v, w]"
  using trim_line[of "u @ CHR '' '' # v @ CHR '' '' # w"] is_word_ends[of u] is_word_ends[of w]
    split_word_space[of u "CHR '' ''" "v @ CHR '' '' # w"] split_word_space[of v "CHR '' ''" w] split_word[of w]
  by (simp add: split_ascii_whitespace_def)

lemma command_words: "is_word ''BALANCE''" "is_word ''DEPOSIT''" "is_word ''WITHDRAW''"
  by (simp_all add: is_word_def is_whitespace_def)

text \<open>
  C39. Commands mean what they say: for every account name without white space and every 64-bit
  amount, the line a user types is parsed to the request for that account and amount, a
  withdrawal being the change by the negated amount.
\<close>

theorem parse_command_round_trip:
  assumes "is_word account"
  shows "parse_command (''BALANCE'' @ CHR '' '' # account @ [CHR 0x0A]) = ReadBalance account \<and>
    parse_command (''DEPOSIT'' @ CHR '' '' # account @ CHR '' '' # show_amount a @ [CHR 0x0A]) =
      WriteBalance account (BalanceDiff a) \<and>
    parse_command (''WITHDRAW'' @ CHR '' '' # account @ CHR '' '' # show_amount a @ [CHR 0x0A]) =
      WriteBalance account (BalanceDiff (- a))"
  unfolding parse_command_def split_two_words[OF command_words(1) assms]
    split_three_words[OF command_words(2) assms show_amount_word]
    split_three_words[OF command_words(3) assms show_amount_word]
  by (simp add: amount_request_def)

theorem parse_command_round_trip_witness:
  "parse_command (''WITHDRAW'' @ CHR '' '' # ''A.x'' @ CHR '' '' # show_amount 30 @ [CHR 0x0A]) =
     WriteBalance ''A.x'' (BalanceDiff (- 30))"
  using parse_command_round_trip[of "''A.x''" 30] by (simp add: is_word_def is_whitespace_def)

section \<open>The course of a session\<close>

text \<open>
  C40. A session ends with the transaction: the loop stops at the first final response and at no
  other, every request before it was answered with a response that is not final, each response
  is printed, all lines so far could be read, and the requests are those of these lines, with an
  \<open>Abort\<close> for each one missing at the end of the input.
\<close>

theorem session_ends_with_final:
  assumes "command_loop xs input = (reqs, out, SessionDone)"
  shows "\<exists>rs r ls. xs = map Received (rs @ [r]) @ drop (length rs + 1) xs \<and>
    list_all (\<lambda>r. \<not> response_is_final r) rs \<and> response_is_final r \<and>
    out = map format_response (rs @ [r]) \<and> take (length rs + 1) input = map Line ls \<and>
    reqs = map parse_command ls @ replicate (length rs + 1 - length input) ClientRequest.Abort"
  using assms
proof (induction xs arbitrary: input reqs out)
  case (Cons x xs)
  from Cons.prems obtain buffer rest where l: "next_line input = (Some buffer, rest)"
    by (auto split: prod.splits option.splits)
  from Cons.prems l obtain r where x: "x = Received r" by (cases x) auto
  have eof: "parse_command [] = ClientRequest.Abort"
    by (simp add: parse_command_def split_ascii_whitespace_def trim_def)
  have read: "input = Line buffer # rest \<or> input = [] \<and> buffer = [] \<and> rest = []"
    using l by (cases input rule: next_line.cases) auto
  show ?case
  proof (cases "response_is_final r")
    case True
    with Cons.prems l x have "reqs = [parse_command buffer]" "out = [format_response r]" by auto
    with True x read eof show ?thesis
      by (intro exI[of _ "[]"] exI[of _ r] exI[of _ "if input = [] then [] else [buffer]"]) auto
  next
    case False
    with Cons.prems l x obtain reqs' out' where rec: "command_loop xs rest = (reqs', out', SessionDone)"
      and eqs: "reqs = parse_command buffer # reqs'" "out = format_response r # out'"
      by (auto split: prod.splits)
    from Cons.IH[OF rec] obtain rs r' ls where ih: "xs = map Received (rs @ [r']) @ drop (length rs + 1) xs"
      "list_all (\<lambda>r. \<not> response_is_final r) rs" "response_is_final r'" "out' = map format_response (rs @ [r'])"
      "take (length rs + 1) rest = map Line ls"
      "reqs' = map parse_command ls @ replicate (length rs + 1 - length rest) ClientRequest.Abort"
      by blast
    let ?ls = "if input = [] then [] else buffer # ls"
    have "take (length (r # rs) + 1) input = map Line ?ls" using read ih(5) by auto
    moreover have "parse_command buffer # reqs' = map parse_command ?ls @
        replicate (length (r # rs) + 1 - length input) ClientRequest.Abort"
      using read eof ih(5,6) by auto
    ultimately show ?thesis
      using False ih(1-4) x eqs by (intro exI[of _ "r # rs"] exI[of _ r'] exI[of _ ?ls]) auto
  qed
qed (auto split: prod.splits option.splits)

theorem session_ends_with_final_witness:
  "\<exists>rs r. [Received OkResponse, Received Aborted] = map Received (rs @ [r]) \<and> response_is_final r"
proof -
  have "command_loop [Received OkResponse, Received Aborted] [Line ''COMMIT''] = ([Commit, ClientRequest.Abort],
      [''OK'', ''ABORTED''], SessionDone)"
    by (simp add: parse_command_def split_ascii_whitespace_def trim_def is_ascii_whitespace_def is_whitespace_def)
  from session_ends_with_final[OF this] show ?thesis
    by (elim exE conjE) (rule_tac x = rs in exI, rule_tac x = r in exI, auto)
qed

end
