(* ===== verification/Spec2Isabelle.thy ===== *)
theory Spec2Isabelle
  imports Shard_Runs Shard_Races Object_Tests Pool_Start Cluster_Liveness Client_Program
begin

text \<open>
  A verification library for a sharded, distributed transaction system: account balances are
  partitioned over server nodes, clients run transactions of reads, deposits and withdrawals
  through any node as their coordinator, concurrency control is by timestamp ordering on each
  shard, and a two-phase commit makes a transaction's outcome the same on all shards.

  \<^bold>\<open>The program and its models.\<close> Files are named below src/.

  \<^item> Transaction_Id: tx-server/src/sharding/transaction_id.rs. Identifiers are pairs of a 128-bit
    timestamp and the coordinator's name, compared lexicographically; the generator keeps the last
    clock reading and a counter, with the wrap-around of both. Each clock reading is an argument.
  \<^item> Common: tx-common/src/lib.rs and tx-server/src/lib.rs. Requests, responses, their
    classification and printed form, 64-bit amounts and the check against negative balances.
  \<^item> Object: tx-server/src/sharding/object.rs. One object with its committed value, its set of
    read timestamps and its map of tentative writes; read, write, check, commit, abort, reaping.
    Std_Collections models the ordered map and set of the standard library as sorted association
    lists behind the locale \<open>ordered_map\<close>.
  \<^item> Object_History: histories of one object, behind the locale \<open>timestamp_ordered\<close>.
  \<^item> Shard: tx-server/src/sharding/shard.rs. The object map, the notification map, and a store of
    objects behind addresses, since objects are shared by reference. An operation that can wait
    is one pass through its loop, which returns or is suspended on a notification; it is resumed
    when the notification has been fired and not before (\<open>resumed\<close>), and \<open>await_loop\<close> composes
    the passes with what the other tasks did in between. The order in
    which a hash map is walked is an argument, an enumeration of the map.
  \<^item> Shard_Spec: the abstract store a shard implements (a committed and a pending map), the
    refinement of each operation, the interleaved passes as a step relation, and the promise a
    participant gives when it votes to commit.
  \<^item> Shard_Waiting: who waits for whom, who wakes whom, that a sleeper always has been woken or has
    an older transaction to wait for, and that a blocked read returns.
  \<^item> Shard_Runs: whole runs of a shard: balances never negative, readers against older writers.
  \<^item> Shard_Locks: the same operations at the granularity of their locks. A call moves from one lock
    acquisition or await to the next, the tasks that a check, a commit and an abort spawn run in
    any order, and getting, awaiting and firing a notification are steps of their own. Any number
    of calls interleave.
  \<^item> Shard_Races: an atomic pass of Shard is a run of this machine; what the machine can do that
    passes cannot.
  \<^item> Protocol: tx-server/src/coordinator/protocol.rs and the messages of tx-server/src/pool/server.rs.
  \<^item> Shard_Service: the tasks spawned in tx-server/src/coordinator/mod.rs for requests of other
    coordinators and for the second phase of a commit, the effect of a balance change, the races
    on accounts that do not exist, and the printed report.
  \<^item> Coordinator: the server task of tx-server/src/coordinator/mod.rs: every handler as a function
    from state to state and effects, and runs of the task over lists of events.
  \<^item> Client_Handler: tx-server/src/coordinator/client.rs: the task of one client, a state machine
    whose position is the await it is at.
  \<^item> Cluster: the server tasks, client handlers, spawned tasks and shards of all nodes as one step
    relation, with everything that is on its way between them in a multiset, delivered in any
    order, and a history of votes, commits, aborts and responses. A spawned task carries the
    notification it sleeps on and goes on only when that has been fired. A node may stop at any
    time. When the generator repeats an id, the new handler takes the place of the old one, which
    goes on as an orphan (\<open>orphans\<close>), and the id is noted in \<open>reused\<close>. A handler whose entry is
    gone finds its channel closed.
  \<^item> Cluster_Safety: the steps of the cluster projected on one transaction, and its books: everything
    on its way owes a number of answers, and the position of the handler says how many are due;
    every sleeping task has been woken or waits for an older transaction.
  \<^item> Cluster_Liveness: runs in which nothing stops and nothing is lost: the books are exact, and
    answers arrive.
  \<^item> Text, Node_Config: the string functions of the standard library that are used, the
    configuration file (tx-common/src/config.rs) and the start of the server
    (tx-server/src/main.rs). Input is a list of lines, any of which may turn out to be unreadable.
  \<^item> Message_Stream: tx-common/src/stream.rs: sending and receiving over a serializer and a framing
    layer that are arguments.
  \<^item> Pool, Pool_Start: tx-server/src/pool: the connection builder with its handshakes and its time
    limit, the task that serves a connection, and the start of a server up to its first step.
  \<^item> Object_Tests: the unit tests of the object, of the ids and of the responses, each a definition
    over the ids it draws.
  \<^item> Client_Program: tx-client/src/main.rs: commands and the course of a session.

  \<^bold>\<open>What is shown.\<close> On an object: versions are committed in timestamp order, a read returns what
  the serial execution in timestamp order would return, aborting restores the object. On a shard:
  read, write, commit and abort implement the abstract store; no committed balance is negative
  in any reachable state; a registered reader keeps older writers out; waits only go to older
  transactions, finishing wakes the waiters, and a blocked read has returned when no older
  transaction has a pending write; what a balance change answers and leaves behind is stated
  exactly; a successful check is a
  promise that other transactions cannot break as long as the transaction is a registered reader
  of what it wrote. At the granularity of locks, for every interleaving: balances stay
  non-negative, nothing panics, every run of finitely many calls ends, and when no step is left
  each call is answered or asleep on a notification. Between nodes, for every transaction whose id
  is not handed out again: in every reachable state of the cluster a transaction
  applied on one shard is undone on none and had the votes of all, a commit is announced only on
  unanimous votes, neither its handler nor a server task that serves it panics, and without
  failures a handler that waits for an answer gets it unless a task of the transaction sleeps
  until an older transaction finishes. No spawned task panics and no balance anywhere is
  negative, whatever the ids. The decision is made with the last vote and not before, an abort is
  answered with the last confirmation and not before, accounts are routed to one owner. At
  the edges: configuration files
  and commands are read back as written, a connection passes messages on in order until it fails,
  starting the nodes of a configuration makes a cluster, a session ends with its transaction. The
  unit tests of object and ids pass for the ids of every advancing clock.

  \<^bold>\<open>Where the program falls short\<close> of what it is meant to do, the theorems say so: identifiers
  can repeat when the clock ticks slowly, and the handler that loses its entry to a newer one finds
  its channel closed; two deposits to a missing account can both commit with
  one of them lost, and the same gap lets an older writer block a commit that was promised; a
  wake-up that comes between a failed read and its wait is lost, and the call never returns; a
  write whose object an abort removes between lookup and lock is acknowledged and vanishes;
  amounts wrap around; a client that disconnects leaves its writes pending; a blank line in the
  configuration panics; a cluster of one node does not come up; handshakes are not checked.

  \<^bold>\<open>Choices.\<close> Arithmetic on amounts wraps, as it does in the release build the Makefile makes. In
  Shard and the theories above it a pass of a shard operation is atomic and tasks interleave
  between passes; Shard_Locks has the interleavings inside a pass. The cluster is built from
  atomic passes, so the two races of Shard_Races are not among its steps. Characters are those
  of the first 256 code points. Loops that may wait for ever are given by their passes, so no fuel
  is needed: a statement that an operation returns is a statement about the passes and the steps
  of other tasks in between. What is on its way between nodes is a multiset: the results do not
  rest on the order of delivery. The closing of the channel of a handler is a step of its own; what
  an orphaned handler shares its id with is not told apart in the multiset, so it may take an answer
  meant for the newer one: the statements about handlers exclude the ids in \<open>reused\<close>.

  \<^bold>\<open>Not modelled.\<close> Sockets, the bytes of the serialization and of the framing, and the times at which
  connections come up are arguments of the definitions that use them. Logging and the retries inside
  the connection library have no definitions, nor have the build and deployment files. The unit
  tests of the shard are left out: their assertions compare points in time, and one of them does not
  fix the order of its tasks. Reading the system clock is an argument of the id generator.

  \<^bold>\<open>Plan.\<close> The next parts are the cluster over the machine of Shard_Locks, so that its theorems hold
  at the granularity of locks as well, and serializability across shards for transactions that
  only touch existing accounts.
\<close>

end
